theory Spec2Isabelle
  imports Main "HOL-Library.Word" "HOL-Library.Signed_Division"
begin

unbundle bit_operations_syntax

section \<open>Lone Lisp: a shallow embedding of \<^verbatim>\<open>src/lone.c\<close>\<close>

text \<open>
  The embedding follows the 64-bit build of the source (\<^verbatim>\<open>__BITS_PER_LONG == 64\<close>):
  \<^verbatim>\<open>long\<close> and \<^verbatim>\<open>unsigned long\<close> are 64-bit words, a pointer is 8 bytes.
  A byte (\<^verbatim>\<open>unsigned char\<close>) is a \<^typ>\<open>char\<close>; an address is a natural number, the
  offset of the byte inside the static arena the allocator manages, and 0 is the null
  pointer. Sizes and counts (\<^verbatim>\<open>size_t\<close>) are natural numbers: every size the program
  computes is bounded by the arena (65536 bytes), far below the wrap-around of a 64-bit
  \<^verbatim>\<open>size_t\<close>.

  A function of the source that can leave through \<^verbatim>\<open>linux_exit\<close>, or whose behaviour
  the source does not determine (a read outside an array, a dereference of an invalid
  pointer, a division by zero), returns \<open>Inl e\<close>; \<open>Inr\<close> carries a normal result.
\<close>

type_synonym byte = char
type_synonym addr = nat

datatype error =
    OutOfMemory       \<comment> \<open>\<^verbatim>\<open>lone_allocate\<close>: no block is large enough, \<^verbatim>\<open>linux_exit(-1)\<close>\<close>
  | LexFailed         \<comment> \<open>\<^verbatim>\<open>lone_lex\<close>: the label \<^verbatim>\<open>lex_failed\<close>, \<^verbatim>\<open>linux_exit(-1)\<close>\<close>
  | ParseFailed       \<comment> \<open>\<^verbatim>\<open>lone_parse_tokens\<close>: \<^verbatim>\<open>linux_exit(-1)\<close>\<close>
  | ReadFailed        \<comment> \<open>\<^verbatim>\<open>linux_read\<close> returned a negative number, \<^verbatim>\<open>linux_exit(-1)\<close>\<close>
  | DivisionByZero    \<comment> \<open>\<^verbatim>\<open>% capacity\<close> with capacity 0\<close>
  | OutOfBounds nat   \<comment> \<open>an array is accessed at this index, at or past its end\<close>
  | NullDereference   \<comment> \<open>a pointer computed from a null pointer is dereferenced\<close>
  | InvalidPointer    \<comment> \<open>a pointer that does not point to an object of the expected kind\<close>
  | EndOfInput        \<comment> \<open>\<^verbatim>\<open>lone\<close>: \<^verbatim>\<open>lone_read\<close> returned the null pointer, \<^verbatim>\<open>return -1\<close>\<close>

subsection \<open>Memory allocation\<close>

text \<open>
  \<^verbatim>\<open>struct lone_memory\<close> is the header of a block. The blocks form a doubly linked list in
  address order that covers the arena, so the list of the headers, in that order, is the
  state of the allocator: \<^verbatim>\<open>prev\<close> and \<^verbatim>\<open>next\<close> are the neighbours in the list. The
  header of the first block is at address 0; the payload of a block starts
  \<^verbatim>\<open>sizeof(struct lone_memory)\<close> bytes after its header and the next header follows the
  payload.
\<close>

record lone_memory =
  block_free :: bool
  block_size :: nat

definition sizeof_lone_memory :: nat where
  "sizeof_lone_memory = 32"

text \<open>
  The heap cells. \<^verbatim>\<open>struct lone_value\<close> is a tagged union; pointers are addresses.
  A table entry holds two pointers to values.
\<close>

datatype lone_value =
    LONE_LIST addr addr              \<comment> \<open>first, rest\<close>
  | LONE_TABLE nat nat addr addr     \<comment> \<open>count, capacity, entries, prototype\<close>
  | LONE_SYMBOL nat addr             \<comment> \<open>count, pointer\<close>
  | LONE_TEXT nat addr
  | LONE_BYTES nat addr
  | LONE_INTEGER "64 word"
  | LONE_POINTER addr

record lone_table_entry =
  entry_key :: addr
  entry_value :: addr

text \<open>
  \<^verbatim>\<open>struct lone_lisp\<close>. \<open>memory\<close> is the block list; \<open>lone_values\<close> is the linked list
  \<^verbatim>\<open>lone->values\<close> of every value created, the most recent first, each element the
  address of a \<^verbatim>\<open>struct lone_values\<close> node. The contents of the arena are kept by kind:
  the value stored in a node, the entry array at an address, the byte buffer at an
  address. Freeing a block changes only the block list, as in the source: the bytes of
  a freed block stay what they were.
\<close>

record lone_lisp =
  memory :: "lone_memory list"
  lone_values :: "addr list"
  environment :: addr
  cells :: "addr \<rightharpoonup> lone_value"
  arrays :: "addr \<rightharpoonup> lone_table_entry list"
  buffers :: "addr \<rightharpoonup> byte list"

definition sizeof_lone_values :: nat where
  "sizeof_lone_values = 48"

definition sizeof_lone_table_entry :: nat where
  "sizeof_lone_table_entry = 16"

text \<open>The offset of the field \<^verbatim>\<open>value\<close> in \<^verbatim>\<open>struct lone_values\<close>.\<close>

definition offsetof_value :: nat where
  "offsetof_value = 8"

text \<open>The address of the payload of block \<open>k\<close>: \<^verbatim>\<open>block->pointer\<close>.\<close>

fun block_pointer :: "lone_memory list \<Rightarrow> nat \<Rightarrow> addr" where
  "block_pointer bs 0 = sizeof_lone_memory"
| "block_pointer [] (Suc k) = sizeof_lone_memory"
| "block_pointer (b # bs) (Suc k) = sizeof_lone_memory + block_size b + block_pointer bs k"

text \<open>
  \<^verbatim>\<open>((struct lone_memory *) pointer) - 1\<close>: the block whose payload starts at the
  pointer, when there is one.
\<close>

definition block_of_pointer :: "lone_memory list \<Rightarrow> addr \<Rightarrow> nat option" where
  "block_of_pointer bs p = List.find (\<lambda>k. block_pointer bs k = p) [0..<length bs]"

definition lone_memory_split :: "lone_memory list \<Rightarrow> nat \<Rightarrow> nat \<Rightarrow> lone_memory list" where
  "lone_memory_split bs k used =
     (let block = bs ! k;
          excess = block_size block - used
      in if excess \<ge> sizeof_lone_memory + 1
         then take k bs
              @ [block\<lparr>block_size := block_size block - excess\<rparr>,
                 \<lparr>block_free = True, block_size = excess - sizeof_lone_memory\<rparr>]
              @ drop (Suc k) bs
         else bs)"

definition lone_memory_coalesce :: "lone_memory list \<Rightarrow> nat option \<Rightarrow> lone_memory list" where
  "lone_memory_coalesce bs block =
     (case block of
        None \<Rightarrow> bs
      | Some k \<Rightarrow>
          if block_free (bs ! k) then
            if Suc k < length bs \<and> block_free (bs ! Suc k)
            then take k bs
                 @ [(bs ! k)\<lparr>block_size :=
                      block_size (bs ! k) + (block_size (bs ! Suc k) + sizeof_lone_memory)\<rparr>]
                 @ drop (Suc (Suc k)) bs
            else bs
          else bs)"

text \<open>The first-fit scan of \<^verbatim>\<open>lone_allocate\<close>.\<close>

definition first_fit :: "lone_memory list \<Rightarrow> nat \<Rightarrow> nat option" where
  "first_fit bs needed_size =
     List.find (\<lambda>k. block_free (bs ! k) \<and> block_size (bs ! k) \<ge> needed_size) [0..<length bs]"

definition lone_allocate :: "lone_lisp \<Rightarrow> nat \<Rightarrow> error + (lone_lisp \<times> addr)" where
  "lone_allocate lone requested_size =
     (let needed_size = requested_size + sizeof_lone_memory in
      case first_fit (memory lone) needed_size of
        None \<Rightarrow> Inl OutOfMemory
      | Some k \<Rightarrow>
          let bs = (memory lone)[k := (memory lone ! k)\<lparr>block_free := False\<rparr>];
              bs' = lone_memory_split bs k needed_size
          in Inr (lone\<lparr>memory := bs'\<rparr>, block_pointer bs' k))"

text \<open>\<^verbatim>\<open>block->prev\<close>: the block before block \<open>k\<close>, null for the first block.\<close>

definition block_prev :: "nat \<Rightarrow> nat option" where
  "block_prev k = (if k = 0 then None else Some (k - 1))"

definition lone_deallocate :: "lone_lisp \<Rightarrow> addr \<Rightarrow> error + lone_lisp" where
  "lone_deallocate lone pointer =
     (case block_of_pointer (memory lone) pointer of
        None \<Rightarrow> Inl InvalidPointer
      | Some k \<Rightarrow>
          let bs = (memory lone)[k := (memory lone ! k)\<lparr>block_free := True\<rparr>];
              bs1 = lone_memory_coalesce bs (Some k);
              bs2 = lone_memory_coalesce bs1 (block_prev k)
          in Inr (lone\<lparr>memory := bs2\<rparr>))"

definition lone_lisp_initialize :: "nat \<Rightarrow> lone_lisp" where
  "lone_lisp_initialize sz =
     \<lparr>memory = [\<lparr>block_free = True, block_size = sz - sizeof_lone_memory\<rparr>],
      lone_values = [],
      environment = 0,
      cells = Map.empty,
      arrays = Map.empty,
      buffers = Map.empty\<rparr>"

text \<open>
  A pointer is allocated when it is the payload of a block that is in use: it was
  returned by \<^verbatim>\<open>lone_allocate\<close> and its block has not been freed since.
\<close>

definition is_allocated :: "lone_lisp \<Rightarrow> addr \<Rightarrow> bool" where
  "is_allocated lone p =
     (case block_of_pointer (memory lone) p of
        None \<Rightarrow> False
      | Some k \<Rightarrow> \<not> block_free (memory lone ! k))"

subsection \<open>The printer\<close>

text \<open>
  \<^verbatim>\<open>linux_write(fd, buffer, count)\<close> appends the first \<open>count\<close> bytes of the buffer to
  what the file descriptor has received; the source ignores its result.
\<close>

definition linux_write :: "byte list \<Rightarrow> byte list \<Rightarrow> nat \<Rightarrow> byte list" where
  "linux_write fd buffer count = fd @ take count buffer"

definition hexadecimal :: "byte list" where
  "hexadecimal = ''0123456789ABCDEF''"

text \<open>
  The body of the \<^verbatim>\<open>for\<close> loop of \<^verbatim>\<open>lone_print_bytes\<close>:
  \<^verbatim>\<open>low = (byte[i] & 0x0F) >> 0\<close>, \<^verbatim>\<open>high = (byte[i] & 0xF0) >> 4\<close>.
\<close>

definition print_bytes_step :: "byte list \<Rightarrow> nat \<Rightarrow> byte list \<Rightarrow> byte list" where
  "print_bytes_step byte i text =
     (let low = drop_bit 0 ((of_char (byte ! i) :: nat) AND 0x0F);
          high = drop_bit 4 ((of_char (byte ! i) :: nat) AND 0xF0);
          text1 = text[2 + (2 * i + 0) := hexadecimal ! high]
      in text1[2 + (2 * i + 1) := hexadecimal ! low])"

text \<open>
  \<^verbatim>\<open>lone_print_bytes\<close>, on the content of the buffer of the value
  (\<^verbatim>\<open>bytes->bytes.count\<close> is its length). The scratch buffer \<^verbatim>\<open>text\<close> is \<^verbatim>\<open>size\<close> bytes
  that the loop overwrites one by one.
\<close>

definition lone_print_bytes ::
  "lone_lisp \<Rightarrow> byte list \<Rightarrow> byte list \<Rightarrow> error + (lone_lisp \<times> byte list)" where
  "lone_print_bytes lone bytes fd =
     (let count = length bytes in
      if count = 0 then Inr (lone, linux_write fd ''bytes[]'' 7)
      else
        let sz = 2 + count * 2 in
        case lone_allocate lone sz of
          Inl e \<Rightarrow> Inl e
        | Inr (lone1, text_pointer) \<Rightarrow>
            let text0 = (replicate sz (CHR 0x00))[0 := CHR ''0'', 1 := CHR ''x''];
                text = fold (print_bytes_step bytes) [0..<count] text0;
                fd1 = linux_write fd ''bytes['' 6;
                fd2 = linux_write fd1 text sz;
                fd3 = linux_write fd2 [CHR '']''] 1
            in (case lone_deallocate lone1 text_pointer of
                  Inl e \<Rightarrow> Inl e
                | Inr lone2 \<Rightarrow> Inr (lone2, fd3)))"


subsection \<open>Value trees\<close>

text \<open>
  The lexer, the parser and the printer build and traverse values that nothing else
  refers to, so there a \<^verbatim>\<open>struct lone_value *\<close> is the tree it points to: \<open>TNull\<close>
  is the null pointer, a list cell has its \<^verbatim>\<open>first\<close> and \<^verbatim>\<open>rest\<close>, a symbol, text or
  bytes value has the \<^verbatim>\<open>count\<close> bytes of its buffer, and a table has its entry array
  in slot order. The functions of the lexer and of the parser on these trees compute
  the tokens and the values; the allocations that the source makes for them are in the
  functions named \<open>_arena\<close>, which pass the arena along, allocate as the source does
  and end in \<open>OutOfMemory\<close> where \<^verbatim>\<open>lone_allocate\<close> exits.
\<close>

datatype lone_tree =
    TNull
  | TList lone_tree lone_tree
  | TTable lone_slots
  | TSymbol "byte list"
  | TText "byte list"
  | TBytes "byte list"
  | TInteger "64 word"
  | TPointer "64 word"
and lone_slots =
    NoSlots
  | Slot lone_tree lone_tree lone_slots

definition nil :: lone_tree where
  "nil = TList TNull TNull"

text \<open>\<^verbatim>\<open>lone_is_nil\<close>, called on a pointer that is not null.\<close>

fun lone_is_nil :: "lone_tree \<Rightarrow> bool" where
  "lone_is_nil (TList first rest) = (first = TNull \<and> rest = TNull)"
| "lone_is_nil _ = False"

text \<open>
  The \<^verbatim>\<open>do ... while (n > 0)\<close> loop of \<^verbatim>\<open>lone_print_integer\<close>; the digits are written
  from the end of the buffer backwards. \<^verbatim>\<open>%\<close> and \<^verbatim>\<open>/\<close> of C truncate towards zero.
\<close>

function print_integer_loop :: "int \<Rightarrow> byte list \<Rightarrow> byte list" where
  "print_integer_loop n digits =
     (let digits' = char_of (48 + n smod 10) # digits;
          n' = n sdiv 10
      in if n' > 0 then print_integer_loop n' digits' else digits')"
  by pat_completeness auto
termination
proof (relation "measure (\<lambda>(n, digits). nat n)")
  show "wf (measure (\<lambda>(n, digits). nat n))" by simp
next
  fix n :: int and digits digits' :: "byte list" and n' :: int
  assume "n' = n sdiv 10" and "0 < n'"
  then have "0 < n sdiv 10" by simp
  then have "0 < n"
    by (cases "n > 0") (auto simp: signed_divide_int_def sgn_if split: if_splits)
  then have "n sdiv 10 = n div 10"
    by (simp add: signed_divide_int_def)
  with \<open>0 < n\<close> \<open>n' = n sdiv 10\<close> show "((n', digits'), (n, digits)) \<in> measure (\<lambda>(n, digits). nat n)"
    by simp
qed

text \<open>
  \<^verbatim>\<open>lone_print_integer\<close>. \<^verbatim>\<open>n *= -1\<close> is a multiplication of 64-bit words: it wraps
  around for the most negative number.
\<close>

definition lone_print_integer :: "byte list \<Rightarrow> 64 word \<Rightarrow> byte list" where
  "lone_print_integer fd n =
     (let is_negative = (sint n < 0);
          n1 = (if is_negative then n * (- 1) else n);
          digits = print_integer_loop (sint n1) [];
          digits' = (if is_negative then CHR ''-'' # digits else digits)
      in linux_write fd digits' (length digits'))"

text \<open>
  \<^verbatim>\<open>lone_print\<close>, \<^verbatim>\<open>lone_print_list\<close> and \<^verbatim>\<open>lone_print_table\<close> (the last as the loop over
  the slots). \<^verbatim>\<open>rest->type\<close> in \<^verbatim>\<open>lone_print_list\<close> dereferences \<^verbatim>\<open>rest\<close> unchecked.
\<close>

fun lone_print :: "lone_lisp \<Rightarrow> lone_tree \<Rightarrow> byte list \<Rightarrow> error + (lone_lisp \<times> byte list)"
and lone_print_list :: "lone_lisp \<Rightarrow> lone_tree \<Rightarrow> byte list \<Rightarrow> error + (lone_lisp \<times> byte list)"
and lone_print_table :: "lone_lisp \<Rightarrow> lone_slots \<Rightarrow> byte list \<Rightarrow> error + (lone_lisp \<times> byte list)"
where
  "lone_print lone TNull fd = Inr (lone, fd)"
| "lone_print lone (TList first rest) fd =
     (if lone_is_nil (TList first rest) then Inr (lone, fd)
      else case lone_print_list lone (TList first rest) (linux_write fd ''('' 1) of
             Inl e \<Rightarrow> Inl e
           | Inr (lone1, fd1) \<Rightarrow> Inr (lone1, linux_write fd1 '')'' 1))"
| "lone_print lone (TTable entries) fd =
     (case lone_print_table lone entries (linux_write fd ''{ '' 2) of
        Inl e \<Rightarrow> Inl e
      | Inr (lone1, fd1) \<Rightarrow> Inr (lone1, linux_write fd1 ''}'' 1))"
| "lone_print lone (TBytes bytes) fd = lone_print_bytes lone bytes fd"
| "lone_print lone (TSymbol bytes) fd = Inr (lone, linux_write fd bytes (length bytes))"
| "lone_print lone (TText bytes) fd =
     Inr (lone, linux_write (linux_write (linux_write fd ''\"'' 1) bytes (length bytes)) ''\"'' 1)"
| "lone_print lone (TInteger n) fd = Inr (lone, lone_print_integer fd n)"
| "lone_print lone (TPointer n) fd = Inr (lone, lone_print_integer fd n)"
| "lone_print_list lone (TList first rest) fd =
     (if lone_is_nil (TList first rest) then Inr (lone, fd)
      else case lone_print lone first fd of
             Inl e \<Rightarrow> Inl e
           | Inr (lone1, fd1) \<Rightarrow>
               (case rest of
                  TNull \<Rightarrow> Inl NullDereference
                | TList first' rest' \<Rightarrow>
                    if \<not> lone_is_nil rest
                    then lone_print_list lone1 rest (linux_write fd1 '' '' 1)
                    else Inr (lone1, fd1)
                | _ \<Rightarrow> lone_print lone1 rest (linux_write fd1 '' . '' 3)))"
| "lone_print_list lone TNull fd = Inr (lone, fd)"
| "lone_print_list lone _ fd = Inl InvalidPointer"
| "lone_print_table lone NoSlots fd = Inr (lone, fd)"
| "lone_print_table lone (Slot k v entries) fd =
     (if k \<noteq> TNull then
        case lone_print lone k fd of
          Inl e \<Rightarrow> Inl e
        | Inr (lone1, fd1) \<Rightarrow>
            (case (if v \<noteq> TNull then lone_print lone1 v (linux_write fd1 '' '' 1)
                   else Inr (lone1, linux_write (linux_write fd1 '' '' 1) ''nil'' 3)) of
               Inl e \<Rightarrow> Inl e
             | Inr (lone2, fd2) \<Rightarrow> lone_print_table lone2 entries (linux_write fd2 '' '' 1))
      else lone_print_table lone entries fd)"

text \<open>
  The two hexadecimal digits of a byte, the high nibble first, in upper case: what
  \<^verbatim>\<open>lone_print_bytes\<close> is expected to write for it.
\<close>

definition hex_pair :: "byte \<Rightarrow> byte list" where
  "hex_pair b = [''0123456789ABCDEF'' ! ((of_char b :: nat) div 16),
                 ''0123456789ABCDEF'' ! ((of_char b :: nat) mod 16)]"

subsection \<open>Creation of values\<close>

text \<open>
  \<^verbatim>\<open>lone_value_create\<close> allocates a \<^verbatim>\<open>struct lone_values\<close> node, makes it the head of
  \<^verbatim>\<open>lone->values\<close> and returns the address of its field \<^verbatim>\<open>value\<close>. The value itself is
  written by the caller.
\<close>

definition lone_value_create :: "lone_lisp \<Rightarrow> error + (lone_lisp \<times> addr)" where
  "lone_value_create lone =
     (case lone_allocate lone sizeof_lone_values of
        Inl e \<Rightarrow> Inl e
      | Inr (lone1, node) \<Rightarrow>
          Inr (lone1\<lparr>lone_values := node # lone_values lone1\<rparr>, node + offsetof_value))"

text \<open>
  \<^verbatim>\<open>lone_bytes_create\<close>: \<open>pointer\<close> is what the caller's pointer points to, of which
  \<open>count\<close> bytes are copied into a new buffer.
\<close>

definition lone_bytes_create :: "lone_lisp \<Rightarrow> byte list \<Rightarrow> nat \<Rightarrow> error + (lone_lisp \<times> addr)" where
  "lone_bytes_create lone pointer count =
     (case lone_value_create lone of
        Inl e \<Rightarrow> Inl e
      | Inr (lone1, v) \<Rightarrow>
          (case lone_allocate lone1 count of
             Inl e \<Rightarrow> Inl e
           | Inr (lone2, copy) \<Rightarrow>
               Inr (lone2\<lparr>buffers := (buffers lone2)(copy \<mapsto> take count pointer),
                          cells := (cells lone2)(v \<mapsto> LONE_BYTES count copy)\<rparr>, v)))"

definition lone_list_create :: "lone_lisp \<Rightarrow> addr \<Rightarrow> addr \<Rightarrow> error + (lone_lisp \<times> addr)" where
  "lone_list_create lone first rest =
     (case lone_value_create lone of
        Inl e \<Rightarrow> Inl e
      | Inr (lone1, v) \<Rightarrow> Inr (lone1\<lparr>cells := (cells lone1)(v \<mapsto> LONE_LIST first rest)\<rparr>, v))"

definition lone_list_create_nil :: "lone_lisp \<Rightarrow> error + (lone_lisp \<times> addr)" where
  "lone_list_create_nil lone = lone_list_create lone 0 0"

definition lone_table_create :: "lone_lisp \<Rightarrow> nat \<Rightarrow> addr \<Rightarrow> error + (lone_lisp \<times> addr)" where
  "lone_table_create lone capacity prototype =
     (case lone_value_create lone of
        Inl e \<Rightarrow> Inl e
      | Inr (lone1, v) \<Rightarrow>
          (case lone_allocate lone1 (capacity * sizeof_lone_table_entry) of
             Inl e \<Rightarrow> Inl e
           | Inr (lone2, entries) \<Rightarrow>
               Inr (lone2\<lparr>arrays := (arrays lone2)
                            (entries \<mapsto> replicate capacity \<lparr>entry_key = 0, entry_value = 0\<rparr>),
                          cells := (cells lone2)(v \<mapsto> LONE_TABLE 0 capacity entries prototype)\<rparr>,
                    v)))"

definition lone_integer_create :: "lone_lisp \<Rightarrow> 64 word \<Rightarrow> error + (lone_lisp \<times> addr)" where
  "lone_integer_create lone integer =
     (case lone_value_create lone of
        Inl e \<Rightarrow> Inl e
      | Inr (lone1, v) \<Rightarrow> Inr (lone1\<lparr>cells := (cells lone1)(v \<mapsto> LONE_INTEGER integer)\<rparr>, v))"

definition lone_pointer_create :: "lone_lisp \<Rightarrow> addr \<Rightarrow> error + (lone_lisp \<times> addr)" where
  "lone_pointer_create lone pointer =
     (case lone_value_create lone of
        Inl e \<Rightarrow> Inl e
      | Inr (lone1, v) \<Rightarrow> Inr (lone1\<lparr>cells := (cells lone1)(v \<mapsto> LONE_POINTER pointer)\<rparr>, v))"

text \<open>\<^verbatim>\<open>value->type = LONE_TEXT\<close> on the value \<^verbatim>\<open>lone_bytes_create\<close> returned.\<close>

definition lone_text_create :: "lone_lisp \<Rightarrow> byte list \<Rightarrow> nat \<Rightarrow> error + (lone_lisp \<times> addr)" where
  "lone_text_create lone text_bytes len =
     (case lone_bytes_create lone text_bytes len of
        Inl e \<Rightarrow> Inl e
      | Inr (lone1, v) \<Rightarrow>
          (case cells lone1 v of
             Some (LONE_BYTES count pointer) \<Rightarrow>
               Inr (lone1\<lparr>cells := (cells lone1)(v \<mapsto> LONE_TEXT count pointer)\<rparr>, v)
           | _ \<Rightarrow> Inl InvalidPointer))"

definition lone_symbol_create :: "lone_lisp \<Rightarrow> byte list \<Rightarrow> nat \<Rightarrow> error + (lone_lisp \<times> addr)" where
  "lone_symbol_create lone text_bytes len =
     (case lone_bytes_create lone text_bytes len of
        Inl e \<Rightarrow> Inl e
      | Inr (lone1, v) \<Rightarrow>
          (case cells lone1 v of
             Some (LONE_BYTES count pointer) \<Rightarrow>
               Inr (lone1\<lparr>cells := (cells lone1)(v \<mapsto> LONE_SYMBOL count pointer)\<rparr>, v)
           | _ \<Rightarrow> Inl InvalidPointer))"

text \<open>
  \<^verbatim>\<open>lone_deallocate_all\<close>: the loop over \<^verbatim>\<open>lone->values\<close>. The \<^verbatim>\<open>switch\<close> has cases for
  \<^verbatim>\<open>LONE_SYMBOL\<close>, \<^verbatim>\<open>LONE_TEXT\<close> and \<^verbatim>\<open>LONE_BYTES\<close> only; every node is then freed.
\<close>

fun deallocate_all_loop :: "lone_lisp \<Rightarrow> addr list \<Rightarrow> error + lone_lisp" where
  "deallocate_all_loop lone [] = Inr lone"
| "deallocate_all_loop lone (node # next) =
     (case (case cells lone (node + offsetof_value) of
              Some (LONE_SYMBOL count pointer) \<Rightarrow> lone_deallocate lone pointer
            | Some (LONE_TEXT count pointer) \<Rightarrow> lone_deallocate lone pointer
            | Some (LONE_BYTES count pointer) \<Rightarrow> lone_deallocate lone pointer
            | _ \<Rightarrow> Inr lone) of
        Inl e \<Rightarrow> Inl e
      | Inr lone1 \<Rightarrow>
          (case lone_deallocate lone1 node of
             Inl e \<Rightarrow> Inl e
           | Inr lone2 \<Rightarrow> deallocate_all_loop lone2 next))"

definition lone_deallocate_all :: "lone_lisp \<Rightarrow> error + lone_lisp" where
  "lone_deallocate_all lone =
     (case deallocate_all_loop lone (lone_values lone) of
        Inl e \<Rightarrow> Inl e
      | Inr lone1 \<Rightarrow> Inr (lone1\<lparr>lone_values := []\<rparr>))"

subsection \<open>Tables\<close>

definition lone_bytes_equals :: "byte list \<Rightarrow> byte list \<Rightarrow> bool" where
  "lone_bytes_equals x y =
     (if length x \<noteq> length y then False
      else list_all (\<lambda>i. x ! i = y ! i) [0..<length x])"

definition FNV_PRIME :: "64 word" where
  "FNV_PRIME = 0x00000100000001B3"

definition FNV_OFFSET_BASIS :: "64 word" where
  "FNV_OFFSET_BASIS = 0xCBF29CE484222325"

fun fnv_1a_loop :: "64 word \<Rightarrow> byte list \<Rightarrow> 64 word" where
  "fnv_1a_loop hash [] = hash"
| "fnv_1a_loop hash (b # bytes) = fnv_1a_loop ((hash XOR of_char b) * FNV_PRIME) bytes"

definition fnv_1a :: "byte list \<Rightarrow> 64 word" where
  "fnv_1a bytes = fnv_1a_loop FNV_OFFSET_BASIS bytes"

text \<open>
  \<^verbatim>\<open>key->bytes\<close>: the bytes of a symbol, text or bytes value. Of a value of another
  type, or of a pointer to no value, the source reads whatever the union holds.
\<close>

definition value_bytes :: "lone_lisp \<Rightarrow> addr \<Rightarrow> byte list option" where
  "value_bytes lone v =
     (let buffer = (\<lambda>count pointer.
            case buffers lone pointer of
              Some bytes \<Rightarrow> if count \<le> length bytes then Some (take count bytes) else None
            | None \<Rightarrow> None)
      in case cells lone v of
           Some (LONE_SYMBOL count pointer) \<Rightarrow> buffer count pointer
         | Some (LONE_TEXT count pointer) \<Rightarrow> buffer count pointer
         | Some (LONE_BYTES count pointer) \<Rightarrow> buffer count pointer
         | _ \<Rightarrow> None)"

definition lone_table_compute_hash_for :: "lone_lisp \<Rightarrow> addr \<Rightarrow> nat \<Rightarrow> error + nat" where
  "lone_table_compute_hash_for lone key capacity =
     (case value_bytes lone key of
        None \<Rightarrow> Inl InvalidPointer
      | Some bytes \<Rightarrow>
          if capacity = 0 then Inl DivisionByZero
          else Inr (unat (fnv_1a bytes) mod capacity))"

text \<open>
  The \<^verbatim>\<open>while (1)\<close> loop of \<^verbatim>\<open>lone_table_entry_find_index_for\<close>, on the entry array
  \<open>entries\<close> of \<open>capacity\<close> slots. The source reads \<^verbatim>\<open>entries[i]\<close> without a check; the
  array ends at \<open>capacity\<close>, and a read at or past the end is the result
  \<open>OutOfBounds i\<close>. The step is the source's \<^verbatim>\<open>i = i < capacity ? i + 1 : 0\<close>.
\<close>

function find_index_loop ::
  "lone_lisp \<Rightarrow> byte list \<Rightarrow> lone_table_entry list \<Rightarrow> nat \<Rightarrow> nat \<Rightarrow> error + nat" where
  "find_index_loop lone key_bytes entries capacity i =
     (if \<not> (i < capacity \<and> i < length entries) then Inl (OutOfBounds i)
      else if entry_key (entries ! i) = 0 then Inr i
      else case value_bytes lone (entry_key (entries ! i)) of
             None \<Rightarrow> Inl InvalidPointer
           | Some entry_bytes \<Rightarrow>
               if lone_bytes_equals entry_bytes key_bytes then Inr i
               else find_index_loop lone key_bytes entries capacity
                      (if i < capacity then i + 1 else 0))"
  by pat_completeness auto
termination
  by (relation "measure (\<lambda>(lone, key_bytes, entries, capacity, i). capacity - i)") auto

definition lone_table_entry_find_index_for ::
  "lone_lisp \<Rightarrow> addr \<Rightarrow> addr \<Rightarrow> nat \<Rightarrow> error + nat" where
  "lone_table_entry_find_index_for lone key entries capacity =
     (case lone_table_compute_hash_for lone key capacity of
        Inl e \<Rightarrow> Inl e
      | Inr i \<Rightarrow>
          (case (arrays lone entries, value_bytes lone key) of
             (Some es, Some key_bytes) \<Rightarrow> find_index_loop lone key_bytes es capacity i
           | _ \<Rightarrow> Inl InvalidPointer))"

text \<open>\<^verbatim>\<open>lone_table_entry_set\<close>; the result is \<open>True\<close> for the source's 1.\<close>

definition lone_table_entry_set ::
  "lone_lisp \<Rightarrow> addr \<Rightarrow> nat \<Rightarrow> addr \<Rightarrow> addr \<Rightarrow> error + (lone_lisp \<times> bool)" where
  "lone_table_entry_set lone entries capacity key v =
     (case lone_table_entry_find_index_for lone key entries capacity of
        Inl e \<Rightarrow> Inl e
      | Inr i \<Rightarrow>
          (case arrays lone entries of
             None \<Rightarrow> Inl InvalidPointer
           | Some es \<Rightarrow>
               if entry_key (es ! i) \<noteq> 0
               then Inr (lone\<lparr>arrays := (arrays lone)(entries \<mapsto> es[i := (es ! i)\<lparr>entry_value := v\<rparr>])\<rparr>,
                         False)
               else Inr (lone\<lparr>arrays := (arrays lone)
                                (entries \<mapsto> es[i := \<lparr>entry_key = key, entry_value = v\<rparr>])\<rparr>,
                         True)))"

text \<open>The second \<^verbatim>\<open>for\<close> loop of \<^verbatim>\<open>lone_table_resize\<close>, from index \<open>i\<close>.\<close>

function resize_loop ::
  "lone_lisp \<Rightarrow> addr \<Rightarrow> addr \<Rightarrow> nat \<Rightarrow> nat \<Rightarrow> nat \<Rightarrow> error + lone_lisp" where
  "resize_loop lone old new new_capacity old_capacity i =
     (if i < old_capacity then
        case arrays lone old of
          None \<Rightarrow> Inl InvalidPointer
        | Some es \<Rightarrow>
            if \<not> i < length es then Inl (OutOfBounds i)
            else if entry_key (es ! i) \<noteq> 0 then
              case lone_table_entry_set lone new new_capacity
                     (entry_key (es ! i)) (entry_value (es ! i)) of
                Inl e \<Rightarrow> Inl e
              | Inr (lone1, r) \<Rightarrow> resize_loop lone1 old new new_capacity old_capacity (i + 1)
            else resize_loop lone old new new_capacity old_capacity (i + 1)
      else Inr lone)"
  by pat_completeness auto
termination
  by (relation "measure (\<lambda>(lone, old, new, new_capacity, old_capacity, i). old_capacity - i)") auto

definition lone_table_resize :: "lone_lisp \<Rightarrow> addr \<Rightarrow> nat \<Rightarrow> error + lone_lisp" where
  "lone_table_resize lone table new_capacity =
     (case cells lone table of
        Some (LONE_TABLE count old_capacity old prototype) \<Rightarrow>
          (case lone_allocate lone (new_capacity * sizeof_lone_table_entry) of
             Inl e \<Rightarrow> Inl e
           | Inr (lone1, new) \<Rightarrow>
               let lone2 = lone1\<lparr>arrays := (arrays lone1)
                             (new \<mapsto> replicate new_capacity \<lparr>entry_key = 0, entry_value = 0\<rparr>)\<rparr>
               in (case resize_loop lone2 old new new_capacity old_capacity 0 of
                     Inl e \<Rightarrow> Inl e
                   | Inr lone3 \<Rightarrow>
                       (case lone_deallocate lone3 old of
                          Inl e \<Rightarrow> Inl e
                        | Inr lone4 \<Rightarrow>
                            Inr (lone4\<lparr>cells := (cells lone4)
                                   (table \<mapsto> LONE_TABLE count new_capacity new prototype)\<rparr>))))
      | _ \<Rightarrow> Inl InvalidPointer)"

text \<open>
  \<^verbatim>\<open>lone_table_set\<close>. The locals \<^verbatim>\<open>entries\<close>, \<^verbatim>\<open>count\<close> and \<^verbatim>\<open>capacity\<close> are read from
  the table before the resize and used after it; \<^verbatim>\<open>++table->table.count\<close> reads the
  table again.
\<close>

definition lone_table_set :: "lone_lisp \<Rightarrow> addr \<Rightarrow> addr \<Rightarrow> addr \<Rightarrow> error + lone_lisp" where
  "lone_table_set lone table key v =
     (case cells lone table of
        Some (LONE_TABLE count capacity entries prototype) \<Rightarrow>
          (case (if count \<ge> capacity div 2 then lone_table_resize lone table (capacity * 2)
                 else Inr lone) of
             Inl e \<Rightarrow> Inl e
           | Inr lone1 \<Rightarrow>
               (case lone_table_entry_set lone1 entries capacity key v of
                  Inl e \<Rightarrow> Inl e
                | Inr (lone2, r) \<Rightarrow>
                    if r then
                      (case cells lone2 table of
                         Some (LONE_TABLE count2 capacity2 entries2 prototype2) \<Rightarrow>
                           Inr (lone2\<lparr>cells := (cells lone2)
                                  (table \<mapsto> LONE_TABLE (count2 + 1) capacity2 entries2 prototype2)\<rparr>)
                       | _ \<Rightarrow> Inl InvalidPointer)
                    else Inr lone2))
      | _ \<Rightarrow> Inl InvalidPointer)"

text \<open>\<^verbatim>\<open>lone_is_nil\<close> on a heap cell.\<close>

fun lone_is_nil_cell :: "lone_value \<Rightarrow> bool" where
  "lone_is_nil_cell (LONE_LIST first rest) = (first = 0 \<and> rest = 0)"
| "lone_is_nil_cell _ = False"

text \<open>
  \<^verbatim>\<open>lone_table_get\<close> follows the prototypes; on a chain of prototypes that runs into
  itself it does not return, which is the result \<open>None\<close>.
\<close>

partial_function (option) lone_table_get ::
  "lone_lisp \<Rightarrow> addr \<Rightarrow> addr \<Rightarrow> (error + (lone_lisp \<times> addr)) option" where
  "lone_table_get lone table key =
     (case cells lone table of
        Some (LONE_TABLE count capacity entries prototype) \<Rightarrow>
          (case lone_table_entry_find_index_for lone key entries capacity of
             Inl e \<Rightarrow> Some (Inl e)
           | Inr i \<Rightarrow>
               (case arrays lone entries of
                  None \<Rightarrow> Some (Inl InvalidPointer)
                | Some es \<Rightarrow>
                    if entry_key (es ! i) \<noteq> 0 then Some (Inr (lone, entry_value (es ! i)))
                    else if prototype \<noteq> 0 then
                      (case cells lone prototype of
                         None \<Rightarrow> Some (Inl InvalidPointer)
                       | Some p \<Rightarrow>
                           if \<not> lone_is_nil_cell p then lone_table_get lone prototype key
                           else Some (lone_list_create_nil lone))
                    else Some (lone_list_create_nil lone)))
      | _ \<Rightarrow> Some (Inl InvalidPointer))"

text \<open>
  The \<^verbatim>\<open>while (1)\<close> loop of \<^verbatim>\<open>lone_table_delete\<close> on the entry array; it ends at an
  empty slot and does not return when there is none.
\<close>

partial_function (option) delete_loop ::
  "lone_lisp \<Rightarrow> lone_table_entry list \<Rightarrow> nat \<Rightarrow> nat \<Rightarrow> nat
    \<Rightarrow> (error + (lone_table_entry list \<times> nat)) option" where
  "delete_loop lone entries capacity i j0 =
     (let j = (j0 + 1) mod capacity in
      if \<not> j < length entries then Some (Inl (OutOfBounds j))
      else if entry_key (entries ! j) = 0 then Some (Inr (entries, i))
      else case lone_table_compute_hash_for lone (entry_key (entries ! j)) capacity of
             Inl e \<Rightarrow> Some (Inl e)
           | Inr k \<Rightarrow>
               if (j > i \<and> (k \<le> i \<or> k > j)) \<or> (j < i \<and> (k \<le> i \<and> k > j))
               then delete_loop lone (entries[i := entries ! j]) capacity j j
               else delete_loop lone entries capacity i j)"

text \<open>
  \<^verbatim>\<open>lone_table_delete\<close>. \<^verbatim>\<open>--table->table.count\<close> is a decrement of a 64-bit
  \<^verbatim>\<open>size_t\<close>: it wraps around at 0.
\<close>

definition lone_table_delete :: "lone_lisp \<Rightarrow> addr \<Rightarrow> addr \<Rightarrow> (error + lone_lisp) option" where
  "lone_table_delete lone table key =
     (case cells lone table of
        Some (LONE_TABLE count capacity entries prototype) \<Rightarrow>
          (case lone_table_entry_find_index_for lone key entries capacity of
             Inl e \<Rightarrow> Some (Inl e)
           | Inr i \<Rightarrow>
               (case arrays lone entries of
                  None \<Rightarrow> Some (Inl InvalidPointer)
                | Some es \<Rightarrow>
                    if entry_key (es ! i) = 0 then Some (Inr lone)
                    else
                      (case delete_loop lone es capacity i i of
                         None \<Rightarrow> None
                       | Some (Inl e) \<Rightarrow> Some (Inl e)
                       | Some (Inr (es1, i1)) \<Rightarrow>
                           Some (Inr (lone\<lparr>
                             arrays := (arrays lone)
                               (entries \<mapsto> es1[i1 := \<lparr>entry_key = 0, entry_value = 0\<rparr>]),
                             cells := (cells lone)
                               (table \<mapsto> LONE_TABLE (if count = 0 then 2 ^ 64 - 1 else count - 1)
                                                     capacity entries prototype)\<rparr>)))))
      | _ \<Rightarrow> Some (Inl InvalidPointer))"

subsection \<open>The lexer\<close>

text \<open>
  \<^verbatim>\<open>struct lone_lexer\<close>: the input is the \<^verbatim>\<open>count\<close> bytes of \<^verbatim>\<open>input.pointer\<close>. A pointer
  into the input is its index; \<open>None\<close> is the null pointer \<^verbatim>\<open>lone_lexer_peek_k\<close>
  returns at the end of the input.
\<close>

record lone_lexer =
  input :: "byte list"
  position :: nat

definition lone_lexer_peek_k :: "lone_lexer \<Rightarrow> nat \<Rightarrow> nat option" where
  "lone_lexer_peek_k lexer k =
     (if position lexer + k \<ge> length (input lexer) then None
      else Some (position lexer + k))"

definition lone_lexer_peek :: "lone_lexer \<Rightarrow> nat option" where
  "lone_lexer_peek lexer = lone_lexer_peek_k lexer 0"

definition lone_lexer_consume_k :: "lone_lexer \<Rightarrow> nat \<Rightarrow> lone_lexer" where
  "lone_lexer_consume_k lexer k = lexer\<lparr>position := position lexer + k\<rparr>"

definition lone_lexer_consume :: "lone_lexer \<Rightarrow> lone_lexer" where
  "lone_lexer_consume lexer = lone_lexer_consume_k lexer 1"

definition lone_lexer_match_byte :: "byte \<Rightarrow> byte \<Rightarrow> bool" where
  "lone_lexer_match_byte byte target =
     (if target = CHR '' '' then
        (byte = CHR '' '' \<or> byte = CHR 0x09 \<or> byte = CHR 0x0A)
      else if (of_char target :: nat) \<ge> of_char CHR ''0'' \<and> (of_char target :: nat) \<le> of_char CHR ''9''
      then (of_char byte :: nat) \<ge> of_char CHR ''0'' \<and> (of_char byte :: nat) \<le> of_char CHR ''9''
      else byte = target)"

text \<open>
  \<^verbatim>\<open>lone_integer_parse\<close> on the \<open>count\<close> bytes at \<^verbatim>\<open>digits\<close>; the arithmetic is that of
  a 64-bit \<^verbatim>\<open>long\<close>, with no check for overflow.
\<close>

fun integer_parse_loop :: "64 word \<Rightarrow> byte list \<Rightarrow> 64 word" where
  "integer_parse_loop integer [] = integer"
| "integer_parse_loop integer (d # digits) =
     integer_parse_loop (integer * 10 + (of_char d - of_char CHR ''0'')) digits"

definition lone_integer_parse :: "byte list \<Rightarrow> error + lone_tree" where
  "lone_integer_parse digits =
     (case digits of
        [] \<Rightarrow> Inl (OutOfBounds 0)
      | d # ds \<Rightarrow>
          let i = (if d = CHR ''+'' \<or> d = CHR ''-'' then 1 else 0);
              integer = integer_parse_loop 0 (drop i digits);
              integer' = (if d = CHR ''-'' then integer * (- 1) else integer)
          in Inr (TInteger integer'))"

text \<open>
  The token functions return \<open>Inr (lexer, None)\<close> for the source's 1 (failed) and
  \<open>Inr (lexer, Some token)\<close> for 0, the token being what \<^verbatim>\<open>lone_list_set\<close> stores in
  the list. The allocation of the token, which the source makes last before it returns
  0, is \<open>token_create\<close> in the section on the lexer in the arena.
\<close>

function consume_digits :: "lone_lexer \<Rightarrow> nat \<Rightarrow> lone_lexer \<times> nat \<times> nat option" where
  "consume_digits lexer len =
     (case lone_lexer_peek lexer of
        None \<Rightarrow> (lexer, len, None)
      | Some current \<Rightarrow>
          if lone_lexer_match_byte (input lexer ! current) CHR ''1''
          then consume_digits (lone_lexer_consume lexer) (len + 1)
          else (lexer, len, Some current))"
  by pat_completeness auto
termination
  by (relation "measure (\<lambda>(lexer, len). length (input lexer) - position lexer)")
     (auto simp: lone_lexer_peek_def lone_lexer_peek_k_def lone_lexer_consume_def
                 lone_lexer_consume_k_def split: if_splits)

definition lone_lexer_consume_number :: "lone_lexer \<Rightarrow> error + (lone_lexer \<times> lone_tree option)" where
  "lone_lexer_consume_number lexer =
     (case lone_lexer_peek lexer of
        None \<Rightarrow> Inr (lexer, None)
      | Some start \<Rightarrow>
          let (lexer1, len1) =
                (if input lexer ! start = CHR ''+'' \<or> input lexer ! start = CHR ''-''
                 then (lone_lexer_consume lexer, 1) else (lexer, 0))
          in (case lone_lexer_peek lexer1 of
                None \<Rightarrow> Inr (lexer1, None)
              | Some current \<Rightarrow>
                  if lone_lexer_match_byte (input lexer ! current) CHR ''1'' then
                    (case consume_digits (lone_lexer_consume lexer1) (len1 + 1) of
                       (lexer2, len2, current2) \<Rightarrow>
                         if (case current2 of
                               None \<Rightarrow> False
                             | Some c \<Rightarrow> input lexer ! c \<noteq> CHR '')'' \<and>
                                         \<not> lone_lexer_match_byte (input lexer ! c) CHR '' '')
                         then Inr (lexer2, None)
                         else (case lone_integer_parse (take len2 (drop start (input lexer))) of
                                 Inl e \<Rightarrow> Inl e
                               | Inr token \<Rightarrow> Inr (lexer2, Some token)))
                  else Inr (lexer1, None)))"

function consume_symbol_bytes :: "lone_lexer \<Rightarrow> nat \<Rightarrow> lone_lexer \<times> nat" where
  "consume_symbol_bytes lexer len =
     (case lone_lexer_peek lexer of
        None \<Rightarrow> (lexer, len)
      | Some current \<Rightarrow>
          if input lexer ! current \<noteq> CHR '')'' \<and>
             \<not> lone_lexer_match_byte (input lexer ! current) CHR '' ''
          then consume_symbol_bytes (lone_lexer_consume lexer) (len + 1)
          else (lexer, len))"
  by pat_completeness auto
termination
  by (relation "measure (\<lambda>(lexer, len). length (input lexer) - position lexer)")
     (auto simp: lone_lexer_peek_def lone_lexer_peek_k_def lone_lexer_consume_def
                 lone_lexer_consume_k_def split: if_splits)

definition lone_lexer_consume_symbol :: "lone_lexer \<Rightarrow> error + (lone_lexer \<times> lone_tree option)" where
  "lone_lexer_consume_symbol lexer =
     (case lone_lexer_peek lexer of
        None \<Rightarrow> Inr (lexer, None)
      | Some start \<Rightarrow>
          (case consume_symbol_bytes lexer 0 of
             (lexer1, len) \<Rightarrow> Inr (lexer1, Some (TSymbol (take len (drop start (input lexer)))))))"

function consume_text_bytes :: "lone_lexer \<Rightarrow> nat \<Rightarrow> lone_lexer \<times> nat \<times> nat option" where
  "consume_text_bytes lexer len =
     (case lone_lexer_peek lexer of
        None \<Rightarrow> (lexer, len, None)
      | Some current \<Rightarrow>
          if input lexer ! current \<noteq> CHR 0x22
          then consume_text_bytes (lone_lexer_consume lexer) (len + 1)
          else (lexer, len, Some current))"
  by pat_completeness auto
termination
  by (relation "measure (\<lambda>(lexer, len). length (input lexer) - position lexer)")
     (auto simp: lone_lexer_peek_def lone_lexer_peek_k_def lone_lexer_consume_def
                 lone_lexer_consume_k_def split: if_splits)

text \<open>
  \<^verbatim>\<open>lone_lexer_consume_text\<close>. After the loop the source increments \<^verbatim>\<open>current\<close> and
  dereferences it with no check: \<^verbatim>\<open>current\<close> is null when the input ended before a
  closing quote, and points one byte past the input when the closing quote is its
  last byte.
\<close>

definition lone_lexer_consume_text :: "lone_lexer \<Rightarrow> error + (lone_lexer \<times> lone_tree option)" where
  "lone_lexer_consume_text lexer =
     (case lone_lexer_peek lexer of
        None \<Rightarrow> Inr (lexer, None)
      | Some start0 \<Rightarrow>
          if input lexer ! start0 \<noteq> CHR 0x22 then Inr (lexer, None)
          else
            let start = start0 + 1 in
            (case consume_text_bytes (lone_lexer_consume lexer) 0 of
               (lexer2, len, current) \<Rightarrow>
                 (case current of
                    None \<Rightarrow> Inl NullDereference
                  | Some c \<Rightarrow>
                      let current' = c + 1;
                          lexer3 = lone_lexer_consume lexer2
                      in if \<not> current' < length (input lexer) then Inl (OutOfBounds current')
                         else if input lexer ! current' \<noteq> CHR '')'' \<and>
                                 \<not> lone_lexer_match_byte (input lexer ! current') CHR '' ''
                         then Inr (lexer3, None)
                         else Inr (lexer3, Some (TText (take len (drop start (input lexer))))))))"

definition lone_lexer_consume_parenthesis ::
  "lone_lexer \<Rightarrow> error + (lone_lexer \<times> lone_tree option)" where
  "lone_lexer_consume_parenthesis lexer =
     (case lone_lexer_peek lexer of
        None \<Rightarrow> Inr (lexer, None)
      | Some parenthesis \<Rightarrow>
          if input lexer ! parenthesis = CHR ''('' \<or> input lexer ! parenthesis = CHR '')''
          then Inr (lone_lexer_consume lexer,
                    Some (TSymbol (take 1 (drop parenthesis (input lexer)))))
          else Inr (lexer, None))"

text \<open>The \<^verbatim>\<open>switch\<close> of \<^verbatim>\<open>lone_lex\<close> on the byte \<open>c\<close> at the position of the lexer.\<close>

definition lex_token :: "lone_lexer \<Rightarrow> byte \<Rightarrow> error + (lone_lexer \<times> lone_tree option)" where
  "lex_token lexer c =
     (if c = CHR ''+'' \<or> c = CHR ''-'' then
        (if (case lone_lexer_peek_k lexer 1 of
               None \<Rightarrow> False
             | Some c1 \<Rightarrow> lone_lexer_match_byte (input lexer ! c1) CHR ''1'')
         then lone_lexer_consume_number lexer
         else lone_lexer_consume_symbol lexer)
      else if (of_char c :: nat) \<ge> of_char CHR ''0'' \<and> (of_char c :: nat) \<le> of_char CHR ''9''
      then lone_lexer_consume_number lexer
      else if c = CHR 0x22 then lone_lexer_consume_text lexer
      else if c = CHR ''('' \<or> c = CHR '')'' then lone_lexer_consume_parenthesis lexer
      else lone_lexer_consume_symbol lexer)"

subsection \<open>Notions used in the statements\<close>

text \<open>The number of bytes a list of blocks covers, headers included.\<close>

definition total_size :: "lone_memory list \<Rightarrow> nat" where
  "total_size bs = sum_list (map (\<lambda>b. sizeof_lone_memory + block_size b) bs)"

text \<open>
  The pointers in use according to a list of blocks whose first header is at address
  \<open>a\<close>: the payloads of the blocks that are not free.
\<close>

definition used_pointers :: "addr \<Rightarrow> lone_memory list \<Rightarrow> addr set" where
  "used_pointers a bs = {a + block_pointer bs k |k. k < length bs \<and> \<not> block_free (bs ! k)}"

text \<open>The occupied slots of an entry array: those whose key is not null.\<close>

definition occupied :: "lone_table_entry list \<Rightarrow> lone_table_entry list" where
  "occupied es = filter (\<lambda>e. entry_key e \<noteq> 0) es"

text \<open>The keys of the occupied slots are pairwise different in content.\<close>

definition distinct_keys :: "lone_lisp \<Rightarrow> lone_table_entry list \<Rightarrow> bool" where
  "distinct_keys lone es = distinct (map (\<lambda>e. value_bytes lone (entry_key e)) (occupied es))"

text \<open>
  The invariant of the load factor of a table: the entry array has \<open>capacity\<close> slots
  and is allocated, at most \<open>count\<close> of them are occupied, and \<open>count\<close> is at most
  half the capacity.
\<close>

definition load_invariant :: "lone_lisp \<Rightarrow> addr \<Rightarrow> bool" where
  "load_invariant lone table =
     (case cells lone table of
        Some (LONE_TABLE count capacity entries prototype) \<Rightarrow>
          (case arrays lone entries of
             Some es \<Rightarrow>
               length es = capacity \<and> length (occupied es) \<le> count \<and>
               count \<le> capacity div 2 \<and> is_allocated lone entries
           | None \<Rightarrow> False)
      | _ \<Rightarrow> False)"

text \<open>
  Every occupied slot is at or after the hash position of its key: no entry was placed
  by a probe that wrapped around.
\<close>

definition no_wrap :: "lone_lisp \<Rightarrow> nat \<Rightarrow> lone_table_entry list \<Rightarrow> bool" where
  "no_wrap lone capacity es =
     list_all (\<lambda>m. entry_key (es ! m) = 0 \<or>
                  (case lone_table_compute_hash_for lone (entry_key (es ! m)) capacity of
                     Inr k \<Rightarrow> k \<le> m
                   | Inl e \<Rightarrow> False))
       [0..<length es]"

text \<open>
  Every occupied slot of the entry array at \<open>entries\<close> is the slot that the probe of
  \<^verbatim>\<open>lone_table_entry_find_index_for\<close> reaches for its key with this capacity: the entry
  is where its hash and the linear probe put it.
\<close>

definition probed :: "lone_lisp \<Rightarrow> addr \<Rightarrow> nat \<Rightarrow> bool" where
  "probed lone entries capacity =
     (case arrays lone entries of
        None \<Rightarrow> False
      | Some es \<Rightarrow>
          list_all (\<lambda>m. entry_key (es ! m) = 0 \<or>
                       lone_table_entry_find_index_for lone (entry_key (es ! m)) entries capacity
                         = Inr m)
            [0..<length es])"

text \<open>
  What \<^verbatim>\<open>lone_table_get\<close> does after a miss in the table itself: the lookup in the
  prototype when there is one and it is not nil, a new nil otherwise.
\<close>

definition prototype_lookup ::
  "lone_lisp \<Rightarrow> addr \<Rightarrow> addr \<Rightarrow> (error + (lone_lisp \<times> addr)) option" where
  "prototype_lookup lone prototype key =
     (if prototype \<noteq> 0 then
        (case cells lone prototype of
           None \<Rightarrow> Some (Inl InvalidPointer)
         | Some p \<Rightarrow>
             if \<not> lone_is_nil_cell p then lone_table_get lone prototype key
             else Some (lone_list_create_nil lone))
      else Some (lone_list_create_nil lone))"

text \<open>
  What the loop of \<^verbatim>\<open>lone_table_delete\<close> guarantees when it returns the array \<open>es'\<close>
  and the slot \<open>i'\<close> to clear, started on the array \<open>es\<close> with the slot \<open>i\<close> to fill:
  the slot to clear is still marked occupied, as many slots are occupied as before,
  every other occupied slot holds an entry that \<open>es\<close> held outside slot \<open>i\<close>, and when
  no entry of \<open>es\<close> is before its hash position the same holds of \<open>es'\<close> and the slot to
  clear has not moved back.
\<close>

definition delete_loop_post ::
  "lone_lisp \<Rightarrow> lone_table_entry list \<Rightarrow> nat \<Rightarrow> nat
    \<Rightarrow> error + (lone_table_entry list \<times> nat) \<Rightarrow> bool" where
  "delete_loop_post lone es capacity i y =
     (\<forall>es' i'. y = Inr (es', i') \<longrightarrow> i < length es \<longrightarrow> entry_key (es ! i) \<noteq> 0 \<longrightarrow>
        length es' = length es \<and> i' < length es \<and> entry_key (es' ! i') \<noteq> 0 \<and>
        length (occupied es') = length (occupied es) \<and>
        (\<forall>m<length es. m \<noteq> i' \<longrightarrow> entry_key (es' ! m) \<noteq> 0 \<longrightarrow>
           (\<exists>m'<length es. m' \<noteq> i \<and> es ! m' = es' ! m)) \<and>
        (no_wrap lone capacity es \<longrightarrow> i \<le> i' \<and> no_wrap lone capacity es'))"

text \<open>
  Every token function leaves the input alone and only moves the position forward;
  \<^verbatim>\<open>lone_lex\<close> calls them on a byte that is not white space, where each of them that
  succeeds has consumed at least that byte.
\<close>

declare consume_digits.simps [simp del] consume_symbol_bytes.simps [simp del]
  consume_text_bytes.simps [simp del]

lemma consume_digits_position:
  "consume_digits lexer len = (lexer', len', current) \<Longrightarrow>
   input lexer' = input lexer \<and> position lexer \<le> position lexer'"
proof (induction lexer len rule: consume_digits.induct)
  case (1 lexer len)
  show ?case
  proof (cases "lone_lexer_peek lexer")
    case None
    with "1.prems" show ?thesis by (simp add: consume_digits.simps[of lexer])
  next
    case (Some c)
    show ?thesis
    proof (cases "lone_lexer_match_byte (input lexer ! c) CHR ''1''")
      case True
      with Some "1.prems"
      have "consume_digits (lone_lexer_consume lexer) (len + 1) = (lexer', len', current)"
        by (simp add: consume_digits.simps[of lexer])
      from "1.IH"[OF Some True this] show ?thesis
        by (simp add: lone_lexer_consume_def lone_lexer_consume_k_def)
    next
      case False
      with Some "1.prems" show ?thesis by (simp add: consume_digits.simps[of lexer])
    qed
  qed
qed

lemma consume_symbol_bytes_position:
  "consume_symbol_bytes lexer len = (lexer', len') \<Longrightarrow>
   input lexer' = input lexer \<and> position lexer \<le> position lexer' \<and>
   position lexer' - position lexer = len' - len \<and> len \<le> len'"
proof (induction lexer len rule: consume_symbol_bytes.induct)
  case (1 lexer len)
  show ?case
  proof (cases "lone_lexer_peek lexer")
    case None
    with "1.prems" show ?thesis by (simp add: consume_symbol_bytes.simps[of lexer])
  next
    case (Some c)
    show ?thesis
    proof (cases "input lexer ! c \<noteq> CHR '')'' \<and>
                  \<not> lone_lexer_match_byte (input lexer ! c) CHR '' ''")
      case True
      with Some "1.prems"
      have "consume_symbol_bytes (lone_lexer_consume lexer) (len + 1) = (lexer', len')"
        by (simp add: consume_symbol_bytes.simps[of lexer])
      from "1.IH"[OF Some True this] show ?thesis
        by (auto simp: lone_lexer_consume_def lone_lexer_consume_k_def)
    next
      case False
      with Some "1.prems" show ?thesis by (auto simp: consume_symbol_bytes.simps[of lexer])
    qed
  qed
qed

lemma consume_text_bytes_position:
  "consume_text_bytes lexer len = (lexer', len', current) \<Longrightarrow>
   input lexer' = input lexer \<and> position lexer \<le> position lexer'"
proof (induction lexer len rule: consume_text_bytes.induct)
  case (1 lexer len)
  show ?case
  proof (cases "lone_lexer_peek lexer")
    case None
    with "1.prems" show ?thesis by (simp add: consume_text_bytes.simps[of lexer])
  next
    case (Some c)
    show ?thesis
    proof (cases "input lexer ! c \<noteq> CHR 0x22")
      case True
      with Some "1.prems"
      have "consume_text_bytes (lone_lexer_consume lexer) (len + 1) = (lexer', len', current)"
        by (simp add: consume_text_bytes.simps[of lexer])
      from "1.IH"[OF Some True this] show ?thesis
        by (simp add: lone_lexer_consume_def lone_lexer_consume_k_def)
    next
      case False
      with Some "1.prems" show ?thesis by (simp add: consume_text_bytes.simps[of lexer])
    qed
  qed
qed

lemma lone_lexer_consume_number_position:
  assumes "lone_lexer_consume_number lexer = Inr (lexer', Some token)"
  shows "input lexer' = input lexer \<and> position lexer < position lexer'"
proof -
  from assms obtain start where start: "lone_lexer_peek lexer = Some start"
    by (cases "lone_lexer_peek lexer") (simp_all add: lone_lexer_consume_number_def)
  define lexer1 where "lexer1 =
    (if input lexer ! start = CHR ''+'' \<or> input lexer ! start = CHR ''-''
     then lone_lexer_consume lexer else lexer)"
  define len1 :: nat where "len1 =
    (if input lexer ! start = CHR ''+'' \<or> input lexer ! start = CHR ''-'' then 1 else 0)"
  have l1: "input lexer1 = input lexer" "position lexer \<le> position lexer1"
    by (simp_all add: lexer1_def lone_lexer_consume_def lone_lexer_consume_k_def)
  have pair: "(if input lexer ! start = CHR ''+'' \<or> input lexer ! start = CHR ''-''
               then (lone_lexer_consume lexer, 1) else (lexer, 0)) = (lexer1, len1)"
    by (simp add: lexer1_def len1_def)
  obtain lexer2 len2 current2 where
    d: "consume_digits (lone_lexer_consume lexer1) (len1 + 1) = (lexer2, len2, current2)"
    by (cases "consume_digits (lone_lexer_consume lexer1) (len1 + 1)") auto
  from assms have "lexer' = lexer2"
    unfolding lone_lexer_consume_number_def start option.case pair Let_def prod.case d
    by (simp split: option.splits if_splits sum.splits)
  with consume_digits_position[OF d] l1
  show ?thesis
    by (simp add: lone_lexer_consume_def lone_lexer_consume_k_def)
qed

lemma lone_lexer_consume_symbol_position:
  assumes "lone_lexer_consume_symbol lexer = Inr (lexer', Some token)"
    and "lone_lexer_peek lexer = Some c"
    and "input lexer ! c \<noteq> CHR '')''"
    and "\<not> lone_lexer_match_byte (input lexer ! c) CHR '' ''"
  shows "input lexer' = input lexer \<and> position lexer < position lexer'"
proof -
  from assms(1,2) obtain len where r: "consume_symbol_bytes lexer 0 = (lexer', len)"
    by (auto simp: lone_lexer_consume_symbol_def split: prod.splits)
  from r assms(2-4) obtain len0 where
    "consume_symbol_bytes (lone_lexer_consume lexer) 1 = (lexer', len0)"
    by (simp add: consume_symbol_bytes.simps[of lexer])
  from consume_symbol_bytes_position[OF this] show ?thesis
    by (simp add: lone_lexer_consume_def lone_lexer_consume_k_def)
qed

lemma lone_lexer_consume_text_position:
  assumes "lone_lexer_consume_text lexer = Inr (lexer', Some token)"
  shows "input lexer' = input lexer \<and> position lexer < position lexer'"
proof -
  from assms obtain lexer2 len current where
    "consume_text_bytes (lone_lexer_consume lexer) 0 = (lexer2, len, current)"
    and "lexer' = lone_lexer_consume lexer2"
    by (auto simp: lone_lexer_consume_text_def Let_def
             split: option.splits if_splits prod.splits)
  with consume_text_bytes_position[of "lone_lexer_consume lexer" 0 lexer2 len current]
  show ?thesis
    by (simp add: lone_lexer_consume_def lone_lexer_consume_k_def)
qed

lemma lone_lexer_consume_parenthesis_position:
  assumes "lone_lexer_consume_parenthesis lexer = Inr (lexer', Some token)"
  shows "input lexer' = input lexer \<and> position lexer < position lexer'"
  using assms
  by (auto simp: lone_lexer_consume_parenthesis_def lone_lexer_consume_def
                 lone_lexer_consume_k_def split: option.splits if_splits)

lemma lex_token_position:
  assumes "lex_token lexer (input lexer ! c) = Inr (lexer', Some token)"
    and "lone_lexer_peek lexer = Some c"
    and "\<not> lone_lexer_match_byte (input lexer ! c) CHR '' ''"
  shows "input lexer' = input lexer \<and> position lexer < position lexer'"
proof -
  consider (number) "lone_lexer_consume_number lexer = Inr (lexer', Some token)"
    | (quoted) "lone_lexer_consume_text lexer = Inr (lexer', Some token)"
    | (parenthesis) "lone_lexer_consume_parenthesis lexer = Inr (lexer', Some token)"
    | (symbol) "lone_lexer_consume_symbol lexer = Inr (lexer', Some token)"
               "input lexer ! c \<noteq> CHR '')''"
    using assms(1) by (auto simp: lex_token_def split: if_splits)
  then show ?thesis
  proof cases
    case number
    then show ?thesis by (rule lone_lexer_consume_number_position)
  next
    case quoted
    then show ?thesis by (rule lone_lexer_consume_text_position)
  next
    case parenthesis
    then show ?thesis by (rule lone_lexer_consume_parenthesis_position)
  next
    case symbol
    from symbol(1) assms(2) symbol(2) assms(3) show ?thesis
      by (rule lone_lexer_consume_symbol_position)
  qed
qed

text \<open>
  \<^verbatim>\<open>lone_lex\<close>. The tokens are the elements of the list the source builds, in order;
  \<^verbatim>\<open>lex_failed\<close> ends the process. The cells of the list are allocated in
  \<open>lex_loop_arena\<close>.
\<close>

function lex_loop :: "lone_lexer \<Rightarrow> lone_tree list \<Rightarrow> error + lone_tree list" where
  "lex_loop lexer tokens =
     (case lone_lexer_peek lexer of
        None \<Rightarrow> Inr tokens
      | Some c \<Rightarrow>
          if lone_lexer_match_byte (input lexer ! c) CHR '' ''
          then lex_loop (lone_lexer_consume lexer) tokens
          else (case lex_token lexer (input lexer ! c) of
                  Inl e \<Rightarrow> Inl e
                | Inr (lexer1, None) \<Rightarrow> Inl LexFailed
                | Inr (lexer1, Some token) \<Rightarrow> lex_loop lexer1 (tokens @ [token])))"
  by pat_completeness auto
termination
proof (relation "measure (\<lambda>(lexer, tokens). length (input lexer) - position lexer)", goal_cases)
  case 1
  show ?case by simp
next
  case (2 lexer tokens c)
  then show ?case
    by (auto simp: lone_lexer_peek_def lone_lexer_peek_k_def lone_lexer_consume_def
                   lone_lexer_consume_k_def split: if_splits)
next
  case (3 lexer tokens c r lexer1 t token)
  from 3(3-5) have "lex_token lexer (input lexer ! c) = Inr (lexer1, Some token)"
    by simp
  from lex_token_position[OF this 3(1) 3(2)] 3(1) show ?case
    by (auto simp: lone_lexer_peek_def lone_lexer_peek_k_def split: if_splits)
qed

declare lex_loop.simps [simp del]

definition lone_lex :: "lone_lexer \<Rightarrow> error + lone_tree list" where
  "lone_lex lexer = lex_loop lexer []"

subsection \<open>The parser\<close>

text \<open>
  \<^verbatim>\<open>*tokens\<close> is the list of the tokens left; a token that is a null pointer is \<open>TNull\<close>.
  \<^verbatim>\<open>lone_parse_list\<close> collects the elements in \<open>acc\<close> and returns the null pointer \<open>TNull\<close>
  when the tokens end before the closing parenthesis. The first byte of a symbol of
  no bytes lies outside its allocation. The cells of the lists are allocated in
  \<open>lone_parse_tokens_arena\<close> and \<open>lone_parse_list_arena\<close>.
\<close>

fun list_of :: "lone_tree list \<Rightarrow> lone_tree" where
  "list_of [] = nil"
| "list_of (v # vs) = TList v (list_of vs)"

fun closes_list :: "lone_tree \<Rightarrow> error + bool" where
  "closes_list TNull = Inl NullDereference"
| "closes_list (TSymbol []) = Inl (OutOfBounds 0)"
| "closes_list (TSymbol (b # bs)) = Inr (b = CHR '')'')"
| "closes_list _ = Inr False"

datatype token_kind = Opening | Closing | Atom | Failed error

fun kind_of_token :: "lone_tree \<Rightarrow> token_kind" where
  "kind_of_token TNull = Failed ParseFailed"
| "kind_of_token (TSymbol []) = Failed (OutOfBounds 0)"
| "kind_of_token (TSymbol (b # bs)) =
     (if b = CHR ''('' then Opening else if b = CHR '')'' then Closing else Atom)"
| "kind_of_token (TInteger n) = Atom"
| "kind_of_token (TText bs) = Atom"
| "kind_of_token _ = Failed ParseFailed"

function (domintros)
  lone_parse_tokens :: "lone_tree list \<Rightarrow> error + (lone_tree \<times> lone_tree list)" and
  lone_parse_list :: "lone_tree list \<Rightarrow> lone_tree list \<Rightarrow> error + (lone_tree \<times> lone_tree list)"
where
  "lone_parse_tokens [] = Inr (nil, [])"
| "lone_parse_tokens (token # rest) =
     (if kind_of_token token = Opening then lone_parse_list rest []
      else if kind_of_token token = Closing then Inl ParseFailed
      else if kind_of_token token = Atom then Inr (token, rest)
      else (case kind_of_token token of Failed e \<Rightarrow> Inl e | _ \<Rightarrow> Inl ParseFailed))"
| "lone_parse_list [] acc = Inr (TNull, [])"
| "lone_parse_list (current # rest) acc =
     (if closes_list current = Inr True then Inr (list_of acc, rest)
      else if closes_list current \<noteq> Inr False
      then (case closes_list current of Inl e \<Rightarrow> Inl e | Inr b \<Rightarrow> Inl ParseFailed)
      else (case lone_parse_tokens (current # rest) of
              Inl e \<Rightarrow> Inl e
            | Inr (v, tokens') \<Rightarrow> lone_parse_list tokens' (acc @ [v])))"
  by pat_completeness auto

lemma lone_parse_length:
  "lone_parse_tokens_lone_parse_list_dom (Inl tokens) \<Longrightarrow>
     lone_parse_tokens tokens = Inr (v, tokens') \<Longrightarrow> tokens \<noteq> [] \<Longrightarrow>
     length tokens' < length tokens"
  "lone_parse_tokens_lone_parse_list_dom (Inr (tokens, acc)) \<Longrightarrow>
     lone_parse_list tokens acc = Inr (v, tokens') \<Longrightarrow> length tokens' \<le> length tokens"
proof (induction tokens and tokens acc arbitrary: v tokens' and v tokens'
       rule: lone_parse_tokens_lone_parse_list.pinduct)
  case 1
  then show ?case by simp
next
  case (2 token rest)
  show ?case
  proof (cases "kind_of_token token = Opening")
    case True
    with 2(1,3) have "lone_parse_list rest [] = Inr (v, tokens')"
      by (simp add: lone_parse_tokens.psimps)
    from 2(2)[OF True this] show ?thesis by simp
  next
    case False
    with 2(1,3) show ?thesis
      by (auto simp: lone_parse_tokens.psimps split: if_splits token_kind.splits)
  qed
next
  case (3 acc)
  then show ?case by (simp add: lone_parse_list.psimps)
next
  case (4 current rest acc)
  show ?case
  proof (cases "closes_list current = Inr False")
    case False
    with 4(1,4) show ?thesis
      by (auto simp: lone_parse_list.psimps split: if_splits sum.splits)
  next
    case True
    with 4(1,4) obtain v1 tokens1 where
      p: "lone_parse_tokens (current # rest) = Inr (v1, tokens1)" and
      l: "lone_parse_list tokens1 (acc @ [v1]) = Inr (v, tokens')"
      by (auto simp: lone_parse_list.psimps split: sum.splits)
    have c1: "closes_list current \<noteq> Inr True" using True by simp
    have c2: "\<not> closes_list current \<noteq> Inr False" using True by simp
    from 4(2)[OF c1 c2 p] have "length tokens1 < length (current # rest)" by simp
    moreover from 4(3)[OF c1 c2 p refl l] have "length tokens' \<le> length tokens1" .
    ultimately show ?thesis by simp
  qed
qed

termination lone_parse_tokens
proof (relation "measure (\<lambda>x. case x of Inl tokens \<Rightarrow> 2 * length tokens
                                   | Inr (tokens, acc) \<Rightarrow> 2 * length tokens + 1)", goal_cases)
  case 1
  show ?case by simp
next
  case 2
  then show ?case by simp
next
  case 3
  then show ?case by simp
next
  case (4 current rest acc r v tokens')
  from 4(3,4) have "lone_parse_tokens (current # rest) = Inr (v, tokens')" by simp
  from lone_parse_length(1)[OF 4(5) this] show ?case by simp
qed

text \<open>
  \<^verbatim>\<open>lone_parse\<close> lexes the bytes from position 0 and puts the tokens after those of
  \<^verbatim>\<open>*remainder\<close> when that is neither null nor nil (the empty list here); it returns
  the value and the new \<^verbatim>\<open>*remainder\<close>.
\<close>

definition lone_parse ::
  "byte list \<Rightarrow> lone_tree list \<Rightarrow> error + (lone_tree \<times> lone_tree list)" where
  "lone_parse bytes remainder =
     (case lone_lex \<lparr>input = bytes, position = 0\<rparr> of
        Inl e \<Rightarrow> Inl e
      | Inr lexed \<Rightarrow>
          let tokens = (if remainder \<noteq> [] then remainder @ lexed else lexed)
          in lone_parse_tokens tokens)"

subsection \<open>The reader\<close>

text \<open>
  What \<^verbatim>\<open>linux_read\<close> finds on the file descriptor is a list of events: \<open>Some bytes\<close>
  are bytes that are available together, of which a read takes as many as it asked
  for and leaves the others for the next read; \<open>None\<close> is a read that fails; at the
  end of the list every read returns 0.
\<close>

type_synonym linux_file = "byte list option list"

fun linux_read :: "linux_file \<Rightarrow> nat \<Rightarrow> (byte list \<times> linux_file) option" where
  "linux_read [] count = Some ([], [])"
| "linux_read (None # rest) count = None"
| "linux_read (Some bytes # rest) count =
     (if length bytes \<le> count then Some (bytes, rest)
      else Some (take count bytes, Some (drop count bytes) # rest))"

text \<open>
  \<^verbatim>\<open>struct lone_reader\<close>; \<open>buffer_pointer\<close> is \<^verbatim>\<open>buffer.pointer\<close> and \<open>buffer\<close> holds the
  \<^verbatim>\<open>buffer.count\<close> bytes at that address; the bytes that were never written are zero
  here (the source reads none of them).
\<close>

record lone_reader =
  file_descriptor :: "linux_file"
  buffer_pointer :: addr
  buffer :: "byte list"
  reader_position :: nat
  remaining_tokens :: "lone_tree list"
  finished :: bool

text \<open>
  The bytes of a buffer moved by \<^verbatim>\<open>lone_reallocate\<close> into a block of \<open>sz\<close> bytes.
\<close>

definition moved_bytes :: "byte list \<Rightarrow> nat \<Rightarrow> byte list" where
  "moved_bytes bytes sz = take sz bytes @ replicate (sz - length bytes) (CHR 0x00)"

subsection \<open>The bytes and the values of the reader\<close>

text \<open>
  The functions of this section, named \<open>_pure\<close>, are the reader without the arena:
  what the loops of \<^verbatim>\<open>lone_read_from_file_descriptor\<close> and \<^verbatim>\<open>lone_read\<close> do to the bytes,
  the tokens and the values when no allocation fails. The reader of the source, with
  its allocations, follows them; the proofs relate the two.
\<close>

text \<open>
  The loop of \<^verbatim>\<open>lone_read_from_file_descriptor\<close>. The system call writes the bytes it
  read at \<^verbatim>\<open>buffer + position\<close>; when they do not fit in the \<open>allocated\<close> bytes of the
  buffer, it writes past its end. With \<open>sz = 0\<close> every read returns \<open>sz\<close> bytes and the
  loop does not end.
\<close>

partial_function (option) read_loop_pure ::
  "linux_file \<Rightarrow> byte list \<Rightarrow> nat \<Rightarrow> nat \<Rightarrow> nat \<Rightarrow> nat \<Rightarrow>
   (error + (linux_file \<times> byte list \<times> nat \<times> nat \<times> nat)) option" where
  "read_loop_pure fd buf sz pos allocated total_read =
     (case linux_read fd sz of
        None \<Rightarrow> Some (Inl ReadFailed)
      | Some (bytes, fd') \<Rightarrow>
          if pos + length bytes > length buf then Some (Inl (OutOfBounds (length buf)))
          else
            let buf' = take pos buf @ bytes @ drop (pos + length bytes) buf;
                bytes_read = length bytes;
                total_read' = total_read + bytes_read;
                pos' = pos + bytes_read
            in if bytes_read = sz
               then read_loop_pure fd' (moved_bytes buf' (allocated + sz)) sz pos'
                      (allocated + sz) total_read'
               else Some (Inr (fd', buf', pos', allocated, total_read')))"

definition lone_read_from_file_descriptor_pure ::
  "lone_reader \<Rightarrow> (error + (lone_reader \<times> nat)) option" where
  "lone_read_from_file_descriptor_pure reader =
     (case read_loop_pure (file_descriptor reader) (buffer reader) (length (buffer reader))
             (reader_position reader) (length (buffer reader)) 0 of
        None \<Rightarrow> None
      | Some (Inl e) \<Rightarrow> Some (Inl e)
      | Some (Inr (fd', buf', pos', allocated, total_read)) \<Rightarrow>
          Some (Inr (reader\<lparr>file_descriptor := fd', buffer := buf',
                            reader_position := pos'\<rparr>, total_read)))"

partial_function (option) lone_read_pure ::
  "lone_reader \<Rightarrow> (error + (lone_reader \<times> lone_tree)) option" where
  "lone_read_pure reader =
     (case lone_read_from_file_descriptor_pure reader of
        None \<Rightarrow> None
      | Some (Inl e) \<Rightarrow> Some (Inl e)
      | Some (Inr (reader1, bytes_read)) \<Rightarrow>
          (case lone_parse (take (reader_position reader1) (buffer reader1))
                  (remaining_tokens reader1) of
             Inl e \<Rightarrow> Some (Inl e)
           | Inr (v, remainder) \<Rightarrow>
               let reader2 = reader1\<lparr>remaining_tokens := remainder\<rparr> in
               if bytes_read = 0 \<and> v = TNull then Some (Inr (reader2, TNull))
               else
                 let reader3 = (if bytes_read = 0 \<and> lone_is_nil v
                                then reader2\<lparr>finished := True\<rparr> else reader2)
                 in if v = TNull then lone_read_pure reader3
                    else Some (Inr (reader3\<lparr>reader_position := 0\<rparr>, v))))"

subsection \<open>Notions used in the statements on the reader\<close>

text \<open>
  The bytes after which \<^verbatim>\<open>lone_parse\<close>, with no token left over from before, returns the
  null pointer: a list is open at their end and the parser wants more input.
\<close>

definition needs_more_input :: "byte list \<Rightarrow> bool" where
  "needs_more_input bytes =
     (case lone_parse bytes [] of Inl e \<Rightarrow> False | Inr (v, remainder) \<Rightarrow> v = TNull)"

text \<open>What is left on a file descriptor: the events and their bytes.\<close>

fun file_size :: "linux_file \<Rightarrow> nat" where
  "file_size [] = 0"
| "file_size (None # rest) = 1 + file_size rest"
| "file_size (Some bytes # rest) = 1 + length bytes + file_size rest"

text \<open>
  The bytes at which the lexer ends a number, a symbol and a text: white space and the
  closing parenthesis.
\<close>

definition is_separator :: "byte \<Rightarrow> bool" where
  "is_separator b = (b = CHR '')'' \<or> lone_lexer_match_byte b CHR '' '')"

definition is_digit :: "byte \<Rightarrow> bool" where
  "is_digit b = lone_lexer_match_byte b CHR ''1''"

text \<open>
  The bytes that \<^verbatim>\<open>lone_lex\<close> makes a symbol of: no separator among them, the first
  neither a digit, a double quote nor an opening parenthesis, and no digit after a
  first sign.
\<close>

definition symbol_bytes :: "byte list \<Rightarrow> bool" where
  "symbol_bytes bs =
     (bs \<noteq> [] \<and> list_all (\<lambda>b. \<not> is_separator b) bs \<and>
      \<not> is_digit (hd bs) \<and> hd bs \<noteq> CHR 0x22 \<and> hd bs \<noteq> CHR ''('' \<and>
      ((hd bs = CHR ''+'' \<or> hd bs = CHR ''-'') \<longrightarrow> (case tl bs of [] \<Rightarrow> True | b # _ \<Rightarrow> \<not> is_digit b)))"

text \<open>
  The values that come back from their printed form: an integer other than the most
  negative one, a symbol, a text, and a list that is not empty, ends in nil and has
  such values as elements. \<open>readable_rest\<close> is the same for the rest of a list.
\<close>

fun readable :: "lone_tree \<Rightarrow> bool" and readable_rest :: "lone_tree \<Rightarrow> bool" where
  "readable (TInteger n) = (sint n \<noteq> - (2 ^ 63))"
| "readable (TSymbol bs) = symbol_bytes bs"
| "readable (TText bs) = (CHR 0x22 \<notin> set bs)"
| "readable (TList first rest) = (readable first \<and> readable_rest rest)"
| "readable TNull = False"
| "readable (TTable entries) = False"
| "readable (TBytes bs) = False"
| "readable (TPointer n) = False"
| "readable_rest (TList first rest) =
     ((first = TNull \<and> rest = TNull) \<or> (readable first \<and> readable_rest rest))"
| "readable_rest TNull = False"
| "readable_rest (TTable entries) = False"
| "readable_rest (TSymbol bs) = False"
| "readable_rest (TText bs) = False"
| "readable_rest (TBytes bs) = False"
| "readable_rest (TInteger n) = False"
| "readable_rest (TPointer n) = False"

text \<open>
  The restriction on the values that the statement on printing and parsing again needs,
  for a value that \<^verbatim>\<open>lone_parse\<close> returned: no empty list inside a list and no integer
  that is the most negative one.
\<close>

fun plain :: "lone_tree \<Rightarrow> bool" and plain_rest :: "lone_tree \<Rightarrow> bool" where
  "plain (TInteger n) = (sint n \<noteq> - (2 ^ 63))"
| "plain (TList first rest) = (plain first \<and> plain_rest rest)"
| "plain TNull = False"
| "plain v = True"
| "plain_rest (TList first rest) =
     ((first = TNull \<and> rest = TNull) \<or> (plain first \<and> plain_rest rest))"
| "plain_rest v = True"

fun is_text :: "lone_tree \<Rightarrow> bool" where
  "is_text (TText bs) = True"
| "is_text v = False"

subsection \<open>Basic facts on the reader\<close>

lemma list_of_not_null: "list_of vs \<noteq> TNull"
  by (cases vs) (simp_all add: nil_def)

lemma length_moved_bytes: "length (moved_bytes bytes sz) = sz"
  by (simp add: moved_bytes_def)

lemma take_moved_bytes:
  "n \<le> length bytes \<Longrightarrow> n \<le> sz \<Longrightarrow> take n (moved_bytes bytes sz) = take n bytes"
  by (simp add: moved_bytes_def min_def)


subsection \<open>The lexer and the parser in the arena\<close>

text \<open>
  The source allocates every value it makes in the arena and frees none of them
  before the end, and \<^verbatim>\<open>lone_allocate\<close> ends the process when no block fits. The
  functions of this section are the lexer and the parser with these allocations: they
  pass the arena along, make the allocations of the source in its order and return
  \<open>Inl OutOfMemory\<close> where the source exits. The values stay the trees of the section
  before; what is written into the cells of the lists is kept in the trees only.

  A token function of the source allocates once, for the token, when all its tests
  have passed and before it returns 0: \<^verbatim>\<open>lone_integer_parse\<close> ends in
  \<^verbatim>\<open>lone_integer_create\<close>, the others call \<^verbatim>\<open>lone_symbol_create\<close> or \<^verbatim>\<open>lone_text_create\<close>
  on the bytes of the token.
\<close>

fun token_create :: "lone_lisp \<Rightarrow> lone_tree \<Rightarrow> error + lone_lisp" where
  "token_create lone (TInteger n) =
     (case lone_integer_create lone n of Inl e \<Rightarrow> Inl e | Inr (lone1, v) \<Rightarrow> Inr lone1)"
| "token_create lone (TSymbol bs) =
     (case lone_symbol_create lone bs (length bs) of Inl e \<Rightarrow> Inl e | Inr (lone1, v) \<Rightarrow> Inr lone1)"
| "token_create lone (TText bs) =
     (case lone_text_create lone bs (length bs) of Inl e \<Rightarrow> Inl e | Inr (lone1, v) \<Rightarrow> Inr lone1)"
| "token_create lone TNull = Inr lone"
| "token_create lone (TList first rest) = Inr lone"
| "token_create lone (TTable entries) = Inr lone"
| "token_create lone (TBytes bs) = Inr lone"
| "token_create lone (TPointer n) = Inr lone"

definition lex_token_arena ::
  "lone_lisp \<Rightarrow> lone_lexer \<Rightarrow> byte \<Rightarrow> error + (lone_lisp \<times> lone_lexer \<times> lone_tree option)" where
  "lex_token_arena lone lexer c =
     (case lex_token lexer c of
        Inl e \<Rightarrow> Inl e
      | Inr (lexer1, None) \<Rightarrow> Inr (lone, lexer1, None)
      | Inr (lexer1, Some token) \<Rightarrow>
          (case token_create lone token of
             Inl e \<Rightarrow> Inl e
           | Inr lone1 \<Rightarrow> Inr (lone1, lexer1, Some token)))"

lemma lex_token_arena_position:
  assumes "lex_token_arena lone lexer (input lexer ! c) = Inr (lone1, lexer', Some token)"
    and "lone_lexer_peek lexer = Some c"
    and "\<not> lone_lexer_match_byte (input lexer ! c) CHR '' ''"
  shows "input lexer' = input lexer \<and> position lexer < position lexer'"
proof -
  from assms(1) have "lex_token lexer (input lexer ! c) = Inr (lexer', Some token)"
    by (auto simp: lex_token_arena_def split: sum.splits option.splits)
  from lex_token_position[OF this assms(2,3)] show ?thesis .
qed

text \<open>
  \<^verbatim>\<open>lone_lex\<close>: the list of the tokens starts as a nil from \<^verbatim>\<open>lone_list_create_nil\<close>, and
  after every token a new nil is appended.
\<close>

function lex_loop_arena ::
  "lone_lisp \<Rightarrow> lone_lexer \<Rightarrow> lone_tree list \<Rightarrow> error + (lone_lisp \<times> lone_tree list)" where
  "lex_loop_arena lone lexer tokens =
     (case lone_lexer_peek lexer of
        None \<Rightarrow> Inr (lone, tokens)
      | Some c \<Rightarrow>
          if lone_lexer_match_byte (input lexer ! c) CHR '' ''
          then lex_loop_arena lone (lone_lexer_consume lexer) tokens
          else (case lex_token_arena lone lexer (input lexer ! c) of
                  Inl e \<Rightarrow> Inl e
                | Inr (lone1, lexer1, None) \<Rightarrow> Inl LexFailed
                | Inr (lone1, lexer1, Some token) \<Rightarrow>
                    (case lone_list_create_nil lone1 of
                       Inl e \<Rightarrow> Inl e
                     | Inr (lone2, cell) \<Rightarrow> lex_loop_arena lone2 lexer1 (tokens @ [token]))))"
  by pat_completeness auto
termination
proof (relation "measure (\<lambda>(lone, lexer, tokens). length (input lexer) - position lexer)",
       goal_cases)
  case 1
  show ?case by simp
next
  case (2 lone lexer tokens c)
  then show ?case
    by (auto simp: lone_lexer_peek_def lone_lexer_peek_k_def lone_lexer_consume_def
                   lone_lexer_consume_k_def split: if_splits)
next
  case (3 lone lexer tokens c r lone1 t lexer1 token_option token s lone2 cell)
  from 3(3-6) have "lex_token_arena lone lexer (input lexer ! c) = Inr (lone1, lexer1, Some token)"
    by simp
  from lex_token_arena_position[OF this 3(1) 3(2)] 3(1) show ?case
    by (auto simp: lone_lexer_peek_def lone_lexer_peek_k_def split: if_splits)
qed

declare lex_loop_arena.simps [simp del]

definition lone_lex_arena ::
  "lone_lisp \<Rightarrow> lone_lexer \<Rightarrow> error + (lone_lisp \<times> lone_tree list)" where
  "lone_lex_arena lone lexer =
     (case lone_list_create_nil lone of
        Inl e \<Rightarrow> Inl e
      | Inr (lone1, first) \<Rightarrow> lex_loop_arena lone1 lexer [])"

text \<open>
  The parser: \<^verbatim>\<open>lone_parse_list\<close> starts with a nil from \<^verbatim>\<open>lone_list_create_nil\<close>, which
  is made here where \<^verbatim>\<open>lone_parse_tokens\<close> meets the opening parenthesis, and appends a
  new nil after every element; \<open>lone_parse_list_arena\<close> is its loop.
\<close>

function (domintros)
  lone_parse_tokens_arena ::
    "lone_lisp \<Rightarrow> lone_tree list \<Rightarrow> error + (lone_lisp \<times> lone_tree \<times> lone_tree list)" and
  lone_parse_list_arena ::
    "lone_lisp \<Rightarrow> lone_tree list \<Rightarrow> lone_tree list \<Rightarrow>
     error + (lone_lisp \<times> lone_tree \<times> lone_tree list)"
where
  "lone_parse_tokens_arena lone [] = Inr (lone, nil, [])"
| "lone_parse_tokens_arena lone (token # rest) =
     (if kind_of_token token = Opening then
        (case lone_list_create_nil lone of
           Inl e \<Rightarrow> Inl e
         | Inr (lone1, cell) \<Rightarrow> lone_parse_list_arena lone1 rest [])
      else if kind_of_token token = Closing then Inl ParseFailed
      else if kind_of_token token = Atom then Inr (lone, token, rest)
      else (case kind_of_token token of Failed e \<Rightarrow> Inl e | _ \<Rightarrow> Inl ParseFailed))"
| "lone_parse_list_arena lone [] acc = Inr (lone, TNull, [])"
| "lone_parse_list_arena lone (current # rest) acc =
     (if closes_list current = Inr True then Inr (lone, list_of acc, rest)
      else if closes_list current \<noteq> Inr False
      then (case closes_list current of Inl e \<Rightarrow> Inl e | Inr b \<Rightarrow> Inl ParseFailed)
      else (case lone_parse_tokens_arena lone (current # rest) of
              Inl e \<Rightarrow> Inl e
            | Inr (lone1, v, tokens') \<Rightarrow>
                (case lone_list_create_nil lone1 of
                   Inl e \<Rightarrow> Inl e
                 | Inr (lone2, cell) \<Rightarrow> lone_parse_list_arena lone2 tokens' (acc @ [v]))))"
  by pat_completeness auto

lemma lone_parse_arena_length:
  "lone_parse_tokens_arena_lone_parse_list_arena_dom (Inl (lone, tokens)) \<Longrightarrow>
     lone_parse_tokens_arena lone tokens = Inr (lone', v, tokens') \<Longrightarrow> tokens \<noteq> [] \<Longrightarrow>
     length tokens' < length tokens"
  "lone_parse_tokens_arena_lone_parse_list_arena_dom (Inr (lone, tokens, acc)) \<Longrightarrow>
     lone_parse_list_arena lone tokens acc = Inr (lone', v, tokens') \<Longrightarrow>
     length tokens' \<le> length tokens"
proof (induction lone tokens and lone tokens acc arbitrary: lone' v tokens' and lone' v tokens'
       rule: lone_parse_tokens_arena_lone_parse_list_arena.pinduct)
  case (1 lone)
  then show ?case by simp
next
  case (2 lone token rest)
  show ?case
  proof (cases "kind_of_token token = Opening")
    case True
    with 2(1,3) obtain lone1 cell where
      c: "lone_list_create_nil lone = Inr (lone1, cell)" and
      p: "lone_parse_list_arena lone1 rest [] = Inr (lone', v, tokens')"
      by (auto simp: lone_parse_tokens_arena.psimps split: sum.splits)
    from 2(2)[OF True c refl p] show ?thesis by simp
  next
    case False
    with 2(1,3) show ?thesis
      by (auto simp: lone_parse_tokens_arena.psimps split: if_splits token_kind.splits)
  qed
next
  case (3 lone acc)
  then show ?case by (simp add: lone_parse_list_arena.psimps)
next
  case (4 lone current rest acc)
  show ?case
  proof (cases "closes_list current = Inr False")
    case False
    with 4(1,4) show ?thesis
      by (auto simp: lone_parse_list_arena.psimps split: if_splits sum.splits)
  next
    case True
    with 4(1,4) obtain lone1 v1 tokens1 lone2 cell where
      p: "lone_parse_tokens_arena lone (current # rest) = Inr (lone1, v1, tokens1)" and
      c: "lone_list_create_nil lone1 = Inr (lone2, cell)" and
      l: "lone_parse_list_arena lone2 tokens1 (acc @ [v1]) = Inr (lone', v, tokens')"
      by (auto simp: lone_parse_list_arena.psimps split: sum.splits)
    have c1: "closes_list current \<noteq> Inr True" using True by simp
    have c2: "\<not> closes_list current \<noteq> Inr False" using True by simp
    from 4(2)[OF c1 c2 p] have "length tokens1 < length (current # rest)" by simp
    moreover from 4(3)[OF c1 c2 p refl refl c refl l] have "length tokens' \<le> length tokens1" .
    ultimately show ?thesis by simp
  qed
qed

termination lone_parse_tokens_arena
proof (relation "measure (\<lambda>x. case x of Inl (lone, tokens) \<Rightarrow> 2 * length tokens
                                   | Inr (lone, tokens, acc) \<Rightarrow> 2 * length tokens + 1)",
       goal_cases)
  case 1
  show ?case by simp
next
  case 2
  then show ?case by simp
next
  case 3
  then show ?case by simp
next
  case (4 lone current rest acc r lone1 t v tokens' s lone2 cell)
  from 4(3-5) have "lone_parse_tokens_arena lone (current # rest) = Inr (lone1, v, tokens')"
    by simp
  from lone_parse_arena_length(1)[OF 4(8) this] show ?case by simp
qed

text \<open>
  \<^verbatim>\<open>lone_parse\<close> on the bytes of the value it is given, which the caller has made with
  \<^verbatim>\<open>lone_bytes_create\<close>.
\<close>

definition lone_parse_arena ::
  "lone_lisp \<Rightarrow> byte list \<Rightarrow> lone_tree list \<Rightarrow>
   error + (lone_lisp \<times> lone_tree \<times> lone_tree list)" where
  "lone_parse_arena lone bytes remainder =
     (case lone_lex_arena lone \<lparr>input = bytes, position = 0\<rparr> of
        Inl e \<Rightarrow> Inl e
      | Inr (lone1, lexed) \<Rightarrow>
          let tokens = (if remainder \<noteq> [] then remainder @ lexed else lexed)
          in lone_parse_tokens_arena lone1 tokens)"

subsection \<open>The reader in the arena\<close>

text \<open>
  \<^verbatim>\<open>lone_reader_initialize\<close> allocates the buffer.
\<close>

definition lone_reader_initialize ::
  "lone_lisp \<Rightarrow> nat \<Rightarrow> linux_file \<Rightarrow> error + (lone_lisp \<times> lone_reader)" where
  "lone_reader_initialize lone buffer_size fd =
     (case lone_allocate lone buffer_size of
        Inl e \<Rightarrow> Inl e
      | Inr (lone1, pointer) \<Rightarrow>
          Inr (lone1, \<lparr>file_descriptor = fd, buffer_pointer = pointer,
                       buffer = replicate buffer_size (CHR 0x00),
                       reader_position = 0, remaining_tokens = [], finished = False\<rparr>))"

text \<open>
  \<^verbatim>\<open>lone_reallocate\<close> of the block at \<open>pointer\<close> that holds \<open>bytes\<close>: the new block is
  allocated first, the bytes are moved, then the old block is freed.
\<close>

definition lone_reallocate ::
  "lone_lisp \<Rightarrow> addr \<Rightarrow> byte list \<Rightarrow> nat \<Rightarrow> error + (lone_lisp \<times> addr \<times> byte list)" where
  "lone_reallocate lone pointer bytes sz =
     (case lone_allocate lone sz of
        Inl e \<Rightarrow> Inl e
      | Inr (lone1, new) \<Rightarrow>
          if pointer \<noteq> 0 then
            (case lone_deallocate lone1 pointer of
               Inl e \<Rightarrow> Inl e
             | Inr lone2 \<Rightarrow> Inr (lone2, new, moved_bytes bytes sz))
          else Inr (lone1, new, replicate sz (CHR 0x00)))"

text \<open>
  The loop of \<^verbatim>\<open>lone_read_from_file_descriptor\<close>. The system call writes the bytes it
  read at \<^verbatim>\<open>buffer + position\<close>; when they do not fit in the \<open>allocated\<close> bytes of the
  buffer, it writes past its end. With \<open>sz = 0\<close> every read returns \<open>sz\<close> bytes.
\<close>

partial_function (option) read_loop ::
  "lone_lisp \<Rightarrow> linux_file \<Rightarrow> addr \<Rightarrow> byte list \<Rightarrow> nat \<Rightarrow> nat \<Rightarrow> nat \<Rightarrow> nat \<Rightarrow>
   (error + (lone_lisp \<times> linux_file \<times> addr \<times> byte list \<times> nat \<times> nat \<times> nat)) option" where
  "read_loop lone fd pointer buf sz pos allocated total_read =
     (case linux_read fd sz of
        None \<Rightarrow> Some (Inl ReadFailed)
      | Some (bytes, fd') \<Rightarrow>
          if pos + length bytes > length buf then Some (Inl (OutOfBounds (length buf)))
          else
            let buf' = take pos buf @ bytes @ drop (pos + length bytes) buf;
                bytes_read = length bytes;
                total_read' = total_read + bytes_read;
                pos' = pos + bytes_read
            in if bytes_read = sz
               then (case lone_reallocate lone pointer buf' (allocated + sz) of
                       Inl e \<Rightarrow> Some (Inl e)
                     | Inr (lone1, pointer1, buf1) \<Rightarrow>
                         read_loop lone1 fd' pointer1 buf1 sz pos' (allocated + sz) total_read')
               else Some (Inr (lone, fd', pointer, buf', pos', allocated, total_read')))"

definition lone_read_from_file_descriptor ::
  "lone_lisp \<Rightarrow> lone_reader \<Rightarrow> (error + (lone_lisp \<times> lone_reader \<times> nat)) option" where
  "lone_read_from_file_descriptor lone reader =
     (case read_loop lone (file_descriptor reader) (buffer_pointer reader) (buffer reader)
             (length (buffer reader)) (reader_position reader) (length (buffer reader)) 0 of
        None \<Rightarrow> None
      | Some (Inl e) \<Rightarrow> Some (Inl e)
      | Some (Inr (lone1, fd', pointer', buf', pos', allocated, total_read)) \<Rightarrow>
          Some (Inr (lone1,
                     reader\<lparr>file_descriptor := fd', buffer_pointer := pointer', buffer := buf',
                            reader_position := pos'\<rparr>,
                     total_read)))"

text \<open>
  \<^verbatim>\<open>lone_read\<close>: every round of the loop copies the bytes read so far into a new bytes
  value and parses it. The value is \<open>TNull\<close> when the source returns the null pointer.
\<close>

partial_function (option) lone_read ::
  "lone_lisp \<Rightarrow> lone_reader \<Rightarrow> (error + (lone_lisp \<times> lone_reader \<times> lone_tree)) option" where
  "lone_read lone reader =
     (case lone_read_from_file_descriptor lone reader of
        None \<Rightarrow> None
      | Some (Inl e) \<Rightarrow> Some (Inl e)
      | Some (Inr (lone1, reader1, bytes_read)) \<Rightarrow>
          (case lone_bytes_create lone1 (buffer reader1) (reader_position reader1) of
             Inl e \<Rightarrow> Some (Inl e)
           | Inr (lone2, bytes_value) \<Rightarrow>
               (case lone_parse_arena lone2 (take (reader_position reader1) (buffer reader1))
                       (remaining_tokens reader1) of
                  Inl e \<Rightarrow> Some (Inl e)
                | Inr (lone3, v, remainder) \<Rightarrow>
                    let reader2 = reader1\<lparr>remaining_tokens := remainder\<rparr> in
                    if bytes_read = 0 \<and> v = TNull then Some (Inr (lone3, reader2, TNull))
                    else
                      let reader3 = (if bytes_read = 0 \<and> lone_is_nil v
                                     then reader2\<lparr>finished := True\<rparr> else reader2)
                      in if v = TNull then lone_read lone3 reader3
                         else Some (Inr (lone3, reader3\<lparr>reader_position := 0\<rparr>, v)))))"


section \<open>Properties\<close>

subsection \<open>The printer on Bytes values\<close>

lemma nib_low: "drop_bit 0 ((n::nat) AND 0x0F) = n mod 16"
proof -
  have "n AND 15 = take_bit 4 n" using take_bit_eq_mask[of 4 n] by (simp add: mask_eq_exp_minus_1)
  then show ?thesis by (simp add: take_bit_eq_mod)
qed

lemma nib_high: "n < 256 \<Longrightarrow> drop_bit 4 ((n::nat) AND 0xF0) = n div 16"
proof -
  assume "n < 256"
  have "drop_bit 4 (n AND 0xF0) = drop_bit 4 n AND drop_bit 4 (0xF0::nat)" by (rule drop_bit_and)
  also have "drop_bit 4 (0xF0::nat) = 15" by (simp add: drop_bit_eq_div)
  also have "drop_bit 4 n AND 15 = take_bit 4 (drop_bit 4 n)" using take_bit_eq_mask[of 4 "drop_bit 4 n"] by (simp add: mask_eq_exp_minus_1)
  also have "\<dots> = drop_bit 4 n" using \<open>n < 256\<close> by (simp add: take_bit_eq_mod drop_bit_eq_div)
  finally show ?thesis by (simp add: drop_bit_eq_div)
qed

lemma step_eq: "i < length bytes \<Longrightarrow> print_bytes_step bytes i text = text[2 + 2*i := hex_pair (bytes ! i) ! 0, 3 + 2 * i := hex_pair (bytes ! i) ! 1]"
proof -
  have h: "drop_bit 4 ((of_char (bytes ! i)::nat) AND 0xF0) = of_char (bytes ! i) div 16"
    by (rule nib_high) simp
  have e: "2 + (2 * i + 1) = 3 + 2 * i" "2 + (2 * i + 0) = 2 + 2 * i" by simp_all
  show ?thesis
    unfolding print_bytes_step_def Let_def nib_low h e hexadecimal_def hex_pair_def
    by simp
qed

lemma upd2: "2 \<le> length xs \<Longrightarrow> xs[0 := a, Suc 0 := b] = a # b # drop 2 xs"
  by (cases xs; cases "tl xs") auto

lemma fold_step:
  "n \<le> length bytes \<Longrightarrow> length text0 = 2 + 2 * length bytes \<Longrightarrow>
   fold (print_bytes_step bytes) [0..<n] text0 = take 2 text0 @ concat (map hex_pair (take n bytes)) @ drop (2 + 2 * n) text0"
proof (induction n)
  case 0 then show ?case by simp
next
  case (Suc n)
  let ?C = "concat (map hex_pair (take n bytes))"
  let ?D = "drop (2 + 2 * n) text0"
  have len: "length ?C = 2 * n" using Suc.prems
    by (induction n) (auto simp: take_Suc_conv_app_nth hex_pair_def)
  have lenD: "2 \<le> length ?D" using Suc.prems by simp
  have n: "n < length bytes" using Suc.prems by simp
  have "fold (print_bytes_step bytes) [0..<Suc n] text0
        = print_bytes_step bytes n (take 2 text0 @ ?C @ ?D)"
    using Suc by simp
  also have "\<dots> = (take 2 text0 @ ?C @ ?D)[2 + 2 * n := hex_pair (bytes ! n) ! 0, 3 + 2 * n := hex_pair (bytes ! n) ! 1]"
    using n by (rule step_eq)
  also have "\<dots> = take 2 text0 @ ?C @ ?D[0 := hex_pair (bytes ! n) ! 0, Suc 0 := hex_pair (bytes ! n) ! 1]"
    using Suc.prems by (simp add: list_update_append len)
  also have "?D[0 := hex_pair (bytes ! n) ! 0, Suc 0 := hex_pair (bytes ! n) ! 1]
        = hex_pair (bytes ! n) @ drop (2 + 2 * Suc n) text0"
    using upd2[OF lenD] by (simp add: hex_pair_def)
  finally show ?case using n by (simp add: take_Suc_conv_app_nth)
qed

lemma first_fit_less: "first_fit bs n = Some k \<Longrightarrow> k < length bs"
  by (auto simp: first_fit_def find_Some_iff)

lemma length_lone_memory_split: "length bs \<le> length (lone_memory_split bs k used)"
  by (auto simp: lone_memory_split_def Let_def min_def)

lemma lone_allocate_error: "lone_allocate lone n = Inl e \<Longrightarrow> e = OutOfMemory"
  by (auto simp: lone_allocate_def Let_def split: option.splits)

lemma lone_allocate_deallocate:
  assumes "lone_allocate lone n = Inr (lone1, p)"
  shows "\<exists>lone2. lone_deallocate lone1 p = Inr lone2"
proof -
  from assms obtain k where k: "first_fit (memory lone) (n + sizeof_lone_memory) = Some k"
    and m: "memory lone1 = lone_memory_split ((memory lone)[k := (memory lone ! k)\<lparr>block_free := False\<rparr>]) k (n + sizeof_lone_memory)"
    and p: "p = block_pointer (memory lone1) k"
    by (auto simp: lone_allocate_def Let_def split: option.splits)
  have "k < length (memory lone1)"
    using first_fit_less[OF k] length_lone_memory_split[of "(memory lone)[k := (memory lone ! k)\<lparr>block_free := False\<rparr>]" k "n + sizeof_lone_memory"] m
    by simp
  then have "block_of_pointer (memory lone1) p \<noteq> None"
    using p by (auto simp: block_of_pointer_def find_None_iff)
  then show ?thesis
    by (auto simp: lone_deallocate_def Let_def)
qed

text \<open>
  Claim C10. For every Bytes value the printer writes \<^verbatim>\<open>bytes[0x\<close>, then two upper-case
  hexadecimal digits for each byte of the content, the high nibble first, then \<^verbatim>\<open>]\<close>;
  a Bytes value with no content is written as \<^verbatim>\<open>bytes[]\<close>. The only other outcome is
  the exit of \<^verbatim>\<open>lone_allocate\<close> when the arena has no room for the scratch buffer.
\<close>

theorem lone_print_bytes_format:
  "lone_print lone (TBytes bytes) fd = Inl OutOfMemory \<or>
   (\<exists>lone'. lone_print lone (TBytes bytes) fd =
      Inr (lone', fd @ (if bytes = [] then ''bytes[]''
                        else ''bytes[0x'' @ concat (map hex_pair bytes) @ [CHR '']''])))"
proof (cases "bytes = []")
  case True
  then show ?thesis by (simp add: lone_print_bytes_def linux_write_def)
next
  case False
  let ?sz = "2 + length bytes * 2"
  let ?text0 = "(replicate ?sz (CHR 0x00))[0 := CHR ''0'', 1 := CHR ''x'']"
  have folded: "fold (print_bytes_step bytes) [0..<length bytes] ?text0
              = ''0x'' @ concat (map hex_pair bytes)"
    by (subst fold_step) (simp_all add: numeral_2_eq_2)
  have len: "length (concat (map hex_pair bytes)) = length bytes * 2"
    by (induction bytes) (simp_all add: hex_pair_def)
  show ?thesis
  proof (cases "lone_allocate lone ?sz")
    case (Inl e)
    then show ?thesis using False lone_allocate_error[OF Inl]
      by (simp add: lone_print_bytes_def Let_def)
  next
    case (Inr r)
    obtain lone1 p where r: "r = (lone1, p)" by (cases r)
    from Inr r have "lone_allocate lone ?sz = Inr (lone1, p)" by simp
    from lone_allocate_deallocate[OF this] obtain lone2
      where "lone_deallocate lone1 p = Inr lone2" by blast
    then show ?thesis using False Inr r folded len
      by (simp add: lone_print_bytes_def Let_def linux_write_def)
  qed
qed

theorem lone_print_bytes_format_witness:
  "\<exists>lone'. lone_print (lone_lisp_initialize 65536) (TBytes [CHR 0xAB, CHR ''a'']) [] = 
      Inr (lone', ''bytes[0xAB61]'')"
proof -
  have "lone_print (lone_lisp_initialize 65536) (TBytes [CHR 0xAB, CHR ''a'']) [] \<noteq> Inl OutOfMemory"
    by (simp add: lone_print_bytes_def Let_def lone_allocate_def lone_lisp_initialize_def first_fit_def
         sizeof_lone_memory_def lone_memory_split_def lone_deallocate_def block_of_pointer_def)
  then show ?thesis
    using lone_print_bytes_format[of "lone_lisp_initialize 65536" "[CHR 0xAB, CHR ''a'']" "[]"]
    by (simp add: hex_pair_def)
qed


subsection \<open>Evaluation of the definitions\<close>

declare find_index_loop.simps [simp del] resize_loop.simps [simp del]
  print_integer_loop.simps [simp del]

lemmas alloc_eval = lone_allocate_def lone_deallocate_def first_fit_def block_of_pointer_def
  lone_memory_split_def lone_memory_coalesce_def block_prev_def sizeof_lone_memory_def
  sizeof_lone_values_def sizeof_lone_table_entry_def offsetof_value_def lone_value_create_def
  lone_lisp_initialize_def Let_def

lemma lone_bytes_equals_iff: "lone_bytes_equals x y \<longleftrightarrow> x = y"
  by (auto simp: lone_bytes_equals_def list_all_iff intro: nth_equalityI)

lemmas table_eval = lone_table_create_def lone_symbol_create_def lone_bytes_create_def
  lone_integer_create_def lone_table_set_def lone_table_entry_set_def
  lone_table_entry_find_index_for_def lone_table_compute_hash_for_def value_bytes_def
  fnv_1a_def FNV_PRIME_def FNV_OFFSET_BASIS_def lone_bytes_equals_iff lone_table_resize_def
  lone_list_create_nil_def lone_list_create_def find_index_loop.simps resize_loop.simps

lemma replicate_2: "replicate 2 x = [x, x]"
  by (simp add: numeral_2_eq_2)

lemma replicate_4: "replicate 4 x = [x, x, x, x]"
  by (simp add: eval_nat_numeral)



subsection \<open>The allocator\<close>

lemma total_size_append [simp]: "total_size (xs @ ys) = total_size xs + total_size ys"
  by (simp add: total_size_def)

lemma total_size_Nil [simp]: "total_size [] = 0"
  by (simp add: total_size_def)

lemma total_size_Cons [simp]:
  "total_size (b # bs) = sizeof_lone_memory + block_size b + total_size bs"
  by (simp add: total_size_def)

lemma block_pointer_total:
  "k \<le> length bs \<Longrightarrow> block_pointer bs k = total_size (take k bs) + sizeof_lone_memory"
proof (induction bs k rule: block_pointer.induct)
  case (1 bs) then show ?case by simp
next
  case (2 k) then show ?case by simp
next
  case (3 b bs k) then show ?case by simp
qed

lemma total_size_take_mono:
  assumes "j < k" "k \<le> length bs"
  shows "total_size (take j bs) < total_size (take k bs)"
proof -
  have "take k bs = take j (take k bs) @ drop j (take k bs)"
    by (rule append_take_drop_id[symmetric])
  moreover have "take j (take k bs) = take j bs"
    using assms by (simp add: min_def)
  ultimately have "total_size (take k bs) = total_size (take j bs) + total_size (drop j (take k bs))"
    by (metis total_size_append)
  moreover have "drop j (take k bs) \<noteq> []"
    using assms by simp
  then have "0 < total_size (drop j (take k bs))"
    by (cases "drop j (take k bs)") (simp_all add: sizeof_lone_memory_def)
  ultimately show ?thesis by simp
qed

lemma block_pointer_less:
  "j < k \<Longrightarrow> k \<le> length bs \<Longrightarrow> block_pointer bs j < block_pointer bs k"
  by (simp add: block_pointer_total total_size_take_mono)

lemma block_pointer_inj:
  assumes "j < length bs" "k < length bs" "block_pointer bs j = block_pointer bs k"
  shows "j = k"
proof (rule ccontr)
  assume "j \<noteq> k"
  then consider "j < k" | "k < j" by linarith
  then show False
    using assms block_pointer_less[of j k bs] block_pointer_less[of k j bs] by cases auto
qed

lemma block_of_pointer_iff:
  "block_of_pointer bs p = Some k \<longleftrightarrow> k < length bs \<and> block_pointer bs k = p"
proof
  assume "block_of_pointer bs p = Some k"
  then show "k < length bs \<and> block_pointer bs k = p"
    by (auto simp: block_of_pointer_def find_Some_iff)
next
  assume k: "k < length bs \<and> block_pointer bs k = p"
  have "block_pointer bs j \<noteq> p" if "j < k" for j
    using block_pointer_less[OF that, of bs] k by simp
  with k show "block_of_pointer bs p = Some k"
    unfolding block_of_pointer_def find_Some_iff
    by (intro exI[of _ k]) simp
qed

lemma block_of_pointer_None:
  "block_of_pointer bs p = None \<longleftrightarrow> (\<forall>k<length bs. block_pointer bs k \<noteq> p)"
  by (simp add: block_of_pointer_def find_None_iff)

lemma is_allocated_iff:
  "is_allocated lone p \<longleftrightarrow>
     (\<exists>k<length (memory lone). block_pointer (memory lone) k = p \<and> \<not> block_free (memory lone ! k))"
proof (cases "block_of_pointer (memory lone) p")
  case None
  then show ?thesis
    using block_of_pointer_None[of "memory lone" p] by (auto simp add: is_allocated_def)
next
  case (Some k)
  then have k: "k < length (memory lone)" "block_pointer (memory lone) k = p"
    by (simp_all add: block_of_pointer_iff)
  have "is_allocated lone p \<longleftrightarrow> \<not> block_free (memory lone ! k)"
    using Some by (simp add: is_allocated_def)
  moreover have "j = k" if "j < length (memory lone)" "block_pointer (memory lone) j = p" for j
    using block_pointer_inj[OF that(1) k(1)] that(2) k(2) by simp
  ultimately show ?thesis using k by blast
qed

text \<open>
  The set of the pointers in use, from the blocks alone: the payload of every block
  that is not free, the first header being at address \<open>a\<close>.
\<close>

lemma used_pointers_Nil [simp]: "used_pointers a [] = {}"
  by (simp add: used_pointers_def)

lemma used_pointers_Cons [simp]:
  "used_pointers a (b # bs) =
     (if block_free b then {} else {a + sizeof_lone_memory})
     \<union> used_pointers (a + sizeof_lone_memory + block_size b) bs"
proof -
  have "{a + block_pointer (b # bs) k |k. k < Suc (length bs) \<and> \<not> block_free ((b # bs) ! k)}
        = (if block_free b then {} else {a + sizeof_lone_memory})
          \<union> {a + sizeof_lone_memory + block_size b + block_pointer bs k |k.
               k < length bs \<and> \<not> block_free (bs ! k)}" (is "?L = ?A \<union> ?B")
  proof (intro set_eqI iffI)
    fix x assume "x \<in> ?L"
    then obtain k where k: "x = a + block_pointer (b # bs) k" "k < Suc (length bs)"
      "\<not> block_free ((b # bs) ! k)" by blast
    show "x \<in> ?A \<union> ?B"
    proof (cases k)
      case 0 with k show ?thesis by simp
    next
      case (Suc k') with k show ?thesis by auto
    qed
  next
    fix x assume "x \<in> ?A \<union> ?B"
    then consider "x \<in> ?A" | "x \<in> ?B" by blast
    then show "x \<in> ?L"
    proof cases
      case 1
      then have "x = a + block_pointer (b # bs) 0 \<and> \<not> block_free ((b # bs) ! 0)"
        by (simp split: if_splits)
      then show ?thesis by blast
    next
      case 2
      then obtain k where "x = a + sizeof_lone_memory + block_size b + block_pointer bs k"
        "k < length bs" "\<not> block_free (bs ! k)" by blast
      then have "x = a + block_pointer (b # bs) (Suc k) \<and> Suc k < Suc (length bs)
                 \<and> \<not> block_free ((b # bs) ! Suc k)" by simp
      then show ?thesis by blast
    qed
  qed
  then show ?thesis by (simp add: used_pointers_def)
qed

lemma used_pointers_append:
  "used_pointers a (xs @ ys) = used_pointers a xs \<union> used_pointers (a + total_size xs) ys"
  by (induction xs arbitrary: a) (auto simp: ac_simps)

lemma is_allocated_used_pointers:
  "is_allocated lone p \<longleftrightarrow> p \<in> used_pointers 0 (memory lone)"
  by (auto simp: is_allocated_iff used_pointers_def)

lemma used_pointers_ge:
  "p \<in> used_pointers a bs \<Longrightarrow> a + sizeof_lone_memory \<le> p \<and> p < a + total_size bs + sizeof_lone_memory"
proof (induction bs arbitrary: a)
  case Nil
  then show ?case by simp
next
  case (Cons b bs)
  from Cons.prems consider "p = a + sizeof_lone_memory"
    | "p \<in> used_pointers (a + sizeof_lone_memory + block_size b) bs"
    by (auto split: if_splits)
  then show ?case
  proof cases
    case 1
    then show ?thesis by (simp add: sizeof_lone_memory_def)
  next
    case 2
    from Cons.IH[OF 2] show ?thesis by simp
  qed
qed

lemma bs_split_at:
  "k < length bs \<Longrightarrow> bs = take k bs @ (bs ! k) # drop (Suc k) bs"
  by (simp add: id_take_nth_drop)

lemma used_pointers_coalesce:
  "used_pointers a (lone_memory_coalesce bs block) = used_pointers a bs"
proof (cases block)
  case None
  then show ?thesis by (simp add: lone_memory_coalesce_def)
next
  case (Some k)
  show ?thesis
  proof (cases "block_free (bs ! k) \<and> Suc k < length bs \<and> block_free (bs ! Suc k)")
    case False
    then show ?thesis using Some by (auto simp: lone_memory_coalesce_def)
  next
    case True
    then have k: "k < length bs" "Suc k < length bs" by simp_all
    have bs: "bs = take k bs @ [bs ! k, bs ! Suc k] @ drop (Suc (Suc k)) bs"
      using k by (metis Cons_nth_drop_Suc append_Cons append_Nil id_take_nth_drop)
    have c: "lone_memory_coalesce bs block = take k bs @
        [(bs ! k)\<lparr>block_size := block_size (bs ! k) + (block_size (bs ! Suc k) + sizeof_lone_memory)\<rparr>]
        @ drop (Suc (Suc k)) bs"
      using True Some by (simp add: lone_memory_coalesce_def)
    have "used_pointers a (take k bs @
        [(bs ! k)\<lparr>block_size := block_size (bs ! k) + (block_size (bs ! Suc k) + sizeof_lone_memory)\<rparr>]
        @ drop (Suc (Suc k)) bs)
       = used_pointers a (take k bs @ [bs ! k, bs ! Suc k] @ drop (Suc (Suc k)) bs)"
      using True by (simp add: used_pointers_append ac_simps)
    also have "\<dots> = used_pointers a bs"
      by (rule arg_cong[OF bs[symmetric]])
    finally show ?thesis unfolding c .
  qed
qed

lemma used_pointers_at:
  assumes "k < length bs"
  shows "used_pointers 0 (take k bs @ b # drop (Suc k) bs) - {total_size (take k bs) + sizeof_lone_memory}
         = used_pointers 0 (take k bs)
           \<union> used_pointers (total_size (take k bs) + sizeof_lone_memory + block_size b) (drop (Suc k) bs)"
    and "total_size (take k bs) + sizeof_lone_memory \<notin> used_pointers 0 (take k bs)"
    and "total_size (take k bs) + sizeof_lone_memory
           \<notin> used_pointers (total_size (take k bs) + sizeof_lone_memory + block_size b) (drop (Suc k) bs)"
proof -
  let ?p = "total_size (take k bs) + sizeof_lone_memory"
  show 2: "?p \<notin> used_pointers 0 (take k bs)"
    using used_pointers_ge[of ?p 0 "take k bs"] by auto
  show 3: "?p \<notin> used_pointers (?p + block_size b) (drop (Suc k) bs)"
    using used_pointers_ge[of ?p "?p + block_size b" "drop (Suc k) bs"]
    by (auto simp: sizeof_lone_memory_def)
  show "used_pointers 0 (take k bs @ b # drop (Suc k) bs) - {?p}
         = used_pointers 0 (take k bs) \<union> used_pointers (?p + block_size b) (drop (Suc k) bs)"
    using 2 3 by (auto simp: used_pointers_append split: if_splits)
qed

lemma lone_allocate_used_pointers:
  assumes "lone_allocate lone n = Inr (lone1, p)"
  shows "used_pointers 0 (memory lone1) = insert p (used_pointers 0 (memory lone))"
    and "p \<notin> used_pointers 0 (memory lone)"
proof -
  let ?bs = "memory lone"
  let ?needed = "n + sizeof_lone_memory"
  from assms obtain k where k: "first_fit ?bs ?needed = Some k"
    and m: "memory lone1 = lone_memory_split (?bs[k := (?bs ! k)\<lparr>block_free := False\<rparr>]) k ?needed"
    and p: "p = block_pointer (memory lone1) k"
    by (auto simp: lone_allocate_def Let_def split: option.splits)
  from k have kl: "k < length ?bs" and free: "block_free (?bs ! k)"
    and fits: "?needed \<le> block_size (?bs ! k)"
    by (auto simp: first_fit_def find_Some_iff)
  let ?T = "total_size (take k ?bs)"
  let ?u = "(?bs ! k)\<lparr>block_free := False\<rparr>"
  let ?excess = "block_size (?bs ! k) - ?needed"
  have bs: "?bs = take k ?bs @ (?bs ! k) # drop (Suc k) ?bs"
    using kl by (rule bs_split_at)
  have old: "used_pointers 0 ?bs
      = used_pointers 0 (take k ?bs)
        \<union> used_pointers (?T + sizeof_lone_memory + block_size (?bs ! k)) (drop (Suc k) ?bs)"
  proof -
    have "used_pointers 0 ?bs = used_pointers 0 (take k ?bs @ (?bs ! k) # drop (Suc k) ?bs)"
      by (rule arg_cong[OF bs])
    then show ?thesis using free by (simp add: used_pointers_append)
  qed
  have m': "memory lone1 = take k ?bs @ [?u] @ drop (Suc k) ?bs \<or>
        memory lone1 = take k ?bs @ [?u\<lparr>block_size := ?needed\<rparr>,
              \<lparr>block_free = True, block_size = ?excess - sizeof_lone_memory\<rparr>] @ drop (Suc k) ?bs
        \<and> sizeof_lone_memory + 1 \<le> ?excess"
  proof -
    let ?bs1 = "?bs[k := ?u]"
    have 1: "?bs1 ! k = ?u" "take k ?bs1 = take k ?bs" "drop (Suc k) ?bs1 = drop (Suc k) ?bs"
      using kl by simp_all
    have 2: "?bs1 = take k ?bs @ [?u] @ drop (Suc k) ?bs"
      using kl by (simp add: upd_conv_take_nth_drop)
    have 3: "block_size ?u - ?excess = ?needed"
      using fits by simp
    show ?thesis
    proof (cases "sizeof_lone_memory + 1 \<le> ?excess")
      case True
      then have "memory lone1 = take k ?bs @ [?u\<lparr>block_size := ?needed\<rparr>,
              \<lparr>block_free = True, block_size = ?excess - sizeof_lone_memory\<rparr>] @ drop (Suc k) ?bs"
        unfolding m lone_memory_split_def Let_def 1 using 3 by simp
      with True show ?thesis by blast
    next
      case False
      then have "memory lone1 = ?bs1"
        unfolding m lone_memory_split_def Let_def 1 by simp
      with 2 show ?thesis by simp
    qed
  qed
  have tk: "take k (memory lone1) = take k ?bs" and kl1: "k \<le> length (memory lone1)"
    using m' kl by auto
  have p': "p = ?T + sizeof_lone_memory"
    unfolding p using block_pointer_total[OF kl1] tk by simp
  have new: "used_pointers 0 (memory lone1)
      = insert p (used_pointers 0 (take k ?bs)
        \<union> used_pointers (?T + sizeof_lone_memory + block_size (?bs ! k)) (drop (Suc k) ?bs))"
    using m'
  proof
    assume "memory lone1 = take k ?bs @ [?u] @ drop (Suc k) ?bs"
    then show ?thesis by (simp add: used_pointers_append p')
  next
    assume a: "memory lone1 = take k ?bs @ [?u\<lparr>block_size := ?needed\<rparr>,
              \<lparr>block_free = True, block_size = ?excess - sizeof_lone_memory\<rparr>] @ drop (Suc k) ?bs
        \<and> sizeof_lone_memory + 1 \<le> ?excess"
    then have "?T + (sizeof_lone_memory + ?needed + (sizeof_lone_memory + (?excess - sizeof_lone_memory)))
               = ?T + sizeof_lone_memory + block_size (?bs ! k)"
      using fits by (auto simp: sizeof_lone_memory_def)
    with a show ?thesis by (simp add: used_pointers_append p' ac_simps)
  qed
  show "used_pointers 0 (memory lone1) = insert p (used_pointers 0 (memory lone))"
    using new old by simp
  show "p \<notin> used_pointers 0 (memory lone)"
    using used_pointers_at(2)[OF kl] used_pointers_at(3)[OF kl, of "?bs ! k"] old p' by simp
qed

lemma lone_deallocate_used_pointers:
  assumes "lone_deallocate lone p = Inr lone1"
  shows "used_pointers 0 (memory lone1) = used_pointers 0 (memory lone) - {p}"
proof -
  let ?bs = "memory lone"
  from assms obtain k where k: "block_of_pointer ?bs p = Some k"
    and m: "memory lone1 = lone_memory_coalesce
              (lone_memory_coalesce (?bs[k := (?bs ! k)\<lparr>block_free := True\<rparr>]) (Some k))
              (block_prev k)"
    by (auto simp: lone_deallocate_def Let_def split: option.splits)
  from k have kl: "k < length ?bs" and p: "p = block_pointer ?bs k"
    by (simp_all add: block_of_pointer_iff)
  let ?T = "total_size (take k ?bs)"
  have p': "p = ?T + sizeof_lone_memory"
    using p block_pointer_total[of k ?bs] kl by simp
  have bs: "?bs = take k ?bs @ (?bs ! k) # drop (Suc k) ?bs"
    using kl by (rule bs_split_at)
  have "used_pointers 0 ?bs - {p}
        = used_pointers 0 (take k ?bs @ (?bs ! k) # drop (Suc k) ?bs) - {p}"
    by (rule arg_cong[where f = "\<lambda>x. used_pointers 0 x - {p}", OF bs])
  also have "\<dots> = used_pointers 0 (take k ?bs)
        \<union> used_pointers (?T + sizeof_lone_memory + block_size (?bs ! k)) (drop (Suc k) ?bs)"
    unfolding p' by (rule used_pointers_at(1)[OF kl])
  also have "\<dots> = used_pointers 0 (?bs[k := (?bs ! k)\<lparr>block_free := True\<rparr>])"
    using kl by (simp add: upd_conv_take_nth_drop used_pointers_append)
  finally show ?thesis
    unfolding m used_pointers_coalesce by simp
qed

lemma lone_allocate_is_allocated:
  assumes "lone_allocate lone n = Inr (lone1, p)"
  shows "\<not> is_allocated lone p" and "is_allocated lone1 q \<longleftrightarrow> q = p \<or> is_allocated lone q"
  using lone_allocate_used_pointers[OF assms] by (auto simp: is_allocated_used_pointers)

lemma lone_deallocate_is_allocated:
  assumes "lone_deallocate lone p = Inr lone1"
  shows "is_allocated lone1 q \<longleftrightarrow> q \<noteq> p \<and> is_allocated lone q"
  using lone_deallocate_used_pointers[OF assms] by (auto simp: is_allocated_used_pointers)

lemma lone_allocate_frame:
  assumes "lone_allocate lone n = Inr (lone1, p)"
  shows "cells lone1 = cells lone" "arrays lone1 = arrays lone" "buffers lone1 = buffers lone"
    "lone_values lone1 = lone_values lone"
  using assms by (auto simp: lone_allocate_def Let_def split: option.splits)

lemma lone_deallocate_frame:
  assumes "lone_deallocate lone p = Inr lone1"
  shows "cells lone1 = cells lone" "arrays lone1 = arrays lone" "buffers lone1 = buffers lone"
    "lone_values lone1 = lone_values lone"
  using assms by (auto simp: lone_deallocate_def Let_def split: option.splits)


subsection \<open>Teardown of the value store\<close>

text \<open>
  Claim C9: at shutdown \<^verbatim>\<open>lone_deallocate_all\<close> frees, for every value created, its node
  and every buffer the value owns, the entry arrays of tables included.

  On the code this fails for tables. In a fresh arena of 65536 bytes, after a symbol
  and a table of capacity 2 are created and \<^verbatim>\<open>lone_deallocate_all\<close> has run, the nodes of
  both values and the buffer of the symbol are free, and the entry array of the table
  is still allocated: the \<^verbatim>\<open>switch\<close> of \<^verbatim>\<open>lone_deallocate_all\<close> has no case for
  \<^verbatim>\<open>LONE_TABLE\<close>.
\<close>

theorem lone_deallocate_all_table_entries:
  "\<exists>lone1 symbol count pointer lone2 table capacity entries prototype lone3.
     lone_symbol_create (lone_lisp_initialize 65536) ''abc'' 3 = Inr (lone1, symbol) \<and>
     cells lone1 symbol = Some (LONE_SYMBOL count pointer) \<and>
     lone_table_create lone1 2 0 = Inr (lone2, table) \<and>
     cells lone2 table = Some (LONE_TABLE 0 capacity entries prototype) \<and>
     lone_values lone2 = [table - offsetof_value, symbol - offsetof_value] \<and>
     is_allocated lone2 (symbol - offsetof_value) \<and> is_allocated lone2 pointer \<and>
     is_allocated lone2 (table - offsetof_value) \<and> is_allocated lone2 entries \<and>
     lone_deallocate_all lone2 = Inr lone3 \<and>
     \<not> is_allocated lone3 (symbol - offsetof_value) \<and> \<not> is_allocated lone3 pointer \<and>
     \<not> is_allocated lone3 (table - offsetof_value) \<and>
     is_allocated lone3 entries"
  by (simp add: lone_table_create_def lone_symbol_create_def lone_bytes_create_def alloc_eval
        lone_deallocate_all_def is_allocated_def)


subsection \<open>The probe sequence\<close>

text \<open>
  Claim C3: for every key and every table of capacity at least 1, the probe sequence
  starts at the hash of the key modulo the capacity and advances linearly, wrapping
  around at the capacity, so that every index it accesses is less than the capacity.

  On the code this fails. A table of capacity 2 holds the symbol \<^verbatim>\<open>b\<close>, whose hash is 1
  modulo 2, in slot 1. The symbol \<^verbatim>\<open>d\<close> has the same hash modulo 2: the probe for it
  reads slot 1, finds another key, and since \<^verbatim>\<open>1 < capacity\<close> steps to index 2, the
  capacity itself, and reads \<^verbatim>\<open>entries[2]\<close>. The step \<^verbatim>\<open>i = i < capacity ? i + 1 : 0\<close>
  wraps one index too late.
\<close>

theorem find_index_out_of_bounds:
  "\<exists>lone1 table lone2 b lone3 d lone4 v lone5 entries.
     lone_table_create (lone_lisp_initialize 65536) 2 0 = Inr (lone1, table) \<and>
     lone_symbol_create lone1 ''b'' 1 = Inr (lone2, b) \<and>
     lone_symbol_create lone2 ''d'' 1 = Inr (lone3, d) \<and>
     lone_integer_create lone3 1 = Inr (lone4, v) \<and>
     lone_table_set lone4 table b v = Inr lone5 \<and>
     cells lone5 table = Some (LONE_TABLE 1 2 entries 0) \<and>
     map_option length (arrays lone5 entries) = Some 2 \<and>
     lone_table_compute_hash_for lone5 d 2 = Inr 1 \<and>
     lone_table_entry_find_index_for lone5 d entries 2 = Inl (OutOfBounds 2) \<and>
     lone_table_get lone5 table d = Some (Inl (OutOfBounds 2))"
  by (simp add: table_eval alloc_eval lone_table_get.simps)


subsection \<open>Lookup after insertion\<close>

text \<open>
  Claim C1: a lookup of a key immediately after \<^verbatim>\<open>lone_table_set\<close> set it returns the
  value set, also when the insertion made the table grow.

  On the code this fails when the table grows. A table of capacity 2 holds the symbol
  \<^verbatim>\<open>a\<close>. Setting \<^verbatim>\<open>b\<close> finds the count at half the capacity and resizes: the table gets
  a new entry array of capacity 4 with \<^verbatim>\<open>a\<close> rehashed into it, and the old array is
  freed. \<^verbatim>\<open>lone_table_set\<close> then inserts into \<^verbatim>\<open>entries\<close> with \<^verbatim>\<open>capacity\<close>, the locals
  it read before the resize: \<^verbatim>\<open>b\<close> is written into the freed array, the count of the
  table is incremented, and the lookup of \<^verbatim>\<open>b\<close> in the table misses and returns a
  fresh nil.
\<close>

theorem lone_table_set_resize_loses_key:
  "\<exists>lone1 table lone2 a lone3 b lone4 v lone5 w lone6 lone7 old new lone8 r.
     lone_table_create (lone_lisp_initialize 65536) 2 0 = Inr (lone1, table) \<and>
     lone_symbol_create lone1 ''a'' 1 = Inr (lone2, a) \<and>
     lone_symbol_create lone2 ''b'' 1 = Inr (lone3, b) \<and>
     lone_integer_create lone3 1 = Inr (lone4, v) \<and>
     lone_integer_create lone4 2 = Inr (lone5, w) \<and>
     lone_table_set lone5 table a v = Inr lone6 \<and>
     cells lone6 table = Some (LONE_TABLE 1 2 old 0) \<and>
     lone_table_set lone6 table b w = Inr lone7 \<and>
     cells lone7 table = Some (LONE_TABLE 2 4 new 0) \<and>
     new \<noteq> old \<and>
     \<not> is_allocated lone7 old \<and>
     arrays lone7 old = Some [\<lparr>entry_key = a, entry_value = v\<rparr>, \<lparr>entry_key = b, entry_value = w\<rparr>] \<and>
     map entry_key (the (arrays lone7 new)) = [a, 0, 0, 0] \<and>
     lone_table_get lone7 table b = Some (Inr (lone8, r)) \<and>
     r \<noteq> w \<and>
     cells lone8 r = Some (LONE_LIST 0 0)"
  by (simp add: table_eval alloc_eval lone_table_get.simps is_allocated_def replicate_2 replicate_4)


subsection \<open>The load factor of a table\<close>

lemma find_index_loop_result:
  "find_index_loop lone kb es capacity i0 = Inr i \<Longrightarrow>
     i0 \<le> i \<and> i < capacity \<and> i < length es \<and>
     (entry_key (es ! i) = 0 \<or> value_bytes lone (entry_key (es ! i)) = Some kb) \<and>
     (\<forall>j. i0 \<le> j \<and> j < i \<longrightarrow> entry_key (es ! j) \<noteq> 0 \<and> value_bytes lone (entry_key (es ! j)) \<noteq> Some kb)"
proof (induction lone kb es capacity i0 rule: find_index_loop.induct)
  case (1 lone kb es capacity i0)
  show ?case
  proof (cases "i0 < capacity \<and> i0 < length es")
    case False
    with "1.prems" show ?thesis by (simp add: find_index_loop.simps)
  next
    case inb: True
    show ?thesis
    proof (cases "entry_key (es ! i0) = 0")
      case True
      with inb "1.prems" show ?thesis by (auto simp: find_index_loop.simps)
    next
      case occ: False
      show ?thesis
      proof (cases "value_bytes lone (entry_key (es ! i0))")
        case None
        with inb occ "1.prems" show ?thesis by (simp add: find_index_loop.simps)
      next
        case (Some eb)
        show ?thesis
        proof (cases "eb = kb")
          case True
          with inb occ Some "1.prems" show ?thesis
            by (auto simp: lone_bytes_equals_iff find_index_loop.simps)
        next
          case False
          with inb occ Some "1.prems"
          have r: "find_index_loop lone kb es capacity (i0 + 1) = Inr i"
            by (simp add: lone_bytes_equals_iff find_index_loop.simps[of lone kb es capacity i0])
          have "\<not> lone_bytes_equals eb kb" using False by (simp add: lone_bytes_equals_iff)
          from "1.IH"[OF _ occ Some this] inb r
          have IH: "i0 + 1 \<le> i \<and> i < capacity \<and> i < length es \<and>
            (entry_key (es ! i) = 0 \<or> value_bytes lone (entry_key (es ! i)) = Some kb) \<and>
            (\<forall>j. i0 + 1 \<le> j \<and> j < i \<longrightarrow> entry_key (es ! j) \<noteq> 0 \<and> value_bytes lone (entry_key (es ! j)) \<noteq> Some kb)"
            by simp
          have "entry_key (es ! j) \<noteq> 0 \<and> value_bytes lone (entry_key (es ! j)) \<noteq> Some kb"
            if "i0 \<le> j \<and> j < i" for j
          proof (cases "j = i0")
            case True
            then show ?thesis using occ Some False by simp
          next
            case False
            with that IH show ?thesis by simp
          qed
          with IH show ?thesis by simp
        qed
      qed
    qed
  qed
qed

lemma find_index_loop_frame:
  assumes vb: "value_bytes lone1 = value_bytes lone"
  shows "find_index_loop lone1 kb es capacity i = find_index_loop lone kb es capacity i"
proof (induction "capacity - i" arbitrary: i)
  case 0
  then show ?case
    by (simp add: find_index_loop.simps[of lone1 kb es capacity i]
                  find_index_loop.simps[of lone kb es capacity i])
next
  case (Suc n)
  from Suc.hyps(2) have i: "i < capacity" and n: "n = capacity - (i + 1)" by simp_all
  from Suc.hyps(1)[OF n]
  have "find_index_loop lone1 kb es capacity (i + 1) = find_index_loop lone kb es capacity (i + 1)" .
  then show ?case
    using i
    by (auto simp: find_index_loop.simps[of lone1 kb es capacity i]
                   find_index_loop.simps[of lone kb es capacity i] vb
             split: option.splits)
qed

text \<open>
  The probe looks at the slots from its start to its result only: it gives the same
  result on an array that agrees on the slots before the result and holds the key, or
  nothing, in the slot of the result.
\<close>

lemma find_index_loop_stable:
  "find_index_loop lone kb es capacity i0 = Inr i \<Longrightarrow> length es' = length es \<Longrightarrow>
   (\<And>j. i0 \<le> j \<Longrightarrow> j < i \<Longrightarrow> es' ! j = es ! j) \<Longrightarrow>
   entry_key (es' ! i) = 0 \<or> value_bytes lone (entry_key (es' ! i)) = Some kb \<Longrightarrow>
   find_index_loop lone kb es' capacity i0 = Inr i"
proof (induction lone kb es capacity i0 rule: find_index_loop.induct)
  case (1 lone kb es capacity i0)
  note res = find_index_loop_result[OF "1.prems"(1)]
  from res have bounds: "i0 \<le> i" "i < capacity" "i < length es" by simp_all
  show ?case
  proof (cases "i0 = i")
    case True
    with bounds "1.prems"(2,4) show ?thesis
      by (auto simp: find_index_loop.simps[of lone kb es' capacity i] lone_bytes_equals_iff)
  next
    case False
    with bounds have lt: "i0 < i" by simp
    with res have occ: "entry_key (es ! i0) \<noteq> 0"
      and ne: "value_bytes lone (entry_key (es ! i0)) \<noteq> Some kb" by simp_all
    from lt bounds have inb: "i0 < capacity \<and> i0 < length es" by simp
    from "1.prems"(1) inb occ obtain eb where
      eb: "value_bytes lone (entry_key (es ! i0)) = Some eb"
      by (cases "value_bytes lone (entry_key (es ! i0))")
         (simp_all add: find_index_loop.simps[of lone kb es capacity i0])
    with ne have neq: "\<not> lone_bytes_equals eb kb" by (simp add: lone_bytes_equals_iff)
    from "1.prems"(1) inb occ eb neq
    have r: "find_index_loop lone kb es capacity (if i0 < capacity then i0 + 1 else 0) = Inr i"
      by (simp add: find_index_loop.simps[of lone kb es capacity i0])
    have same: "es' ! i0 = es ! i0" using "1.prems"(3)[of i0] lt by simp
    have "find_index_loop lone kb es' capacity (if i0 < capacity then i0 + 1 else 0) = Inr i"
    proof (rule "1.IH"[OF _ occ eb neq r "1.prems"(2) _ "1.prems"(4)])
      show "\<not> \<not> (i0 < capacity \<and> i0 < length es)" using inb by simp
      fix j
      assume "(if i0 < capacity then i0 + 1 else 0) \<le> j" "j < i"
      with inb show "es' ! j = es ! j" using "1.prems"(3)[of j] by simp
    qed
    with inb occ eb neq same "1.prems"(2) show ?thesis
      by (simp add: find_index_loop.simps[of lone kb es' capacity i0])
  qed
qed

text \<open>Every occupied slot of an array is found by the probe for its key.\<close>

definition findable :: "lone_lisp \<Rightarrow> nat \<Rightarrow> lone_table_entry list \<Rightarrow> bool" where
  "findable lone capacity es =
     (\<forall>m < length es. entry_key (es ! m) \<noteq> 0 \<longrightarrow>
        (\<exists>kb. value_bytes lone (entry_key (es ! m)) = Some kb \<and> capacity \<noteq> 0 \<and>
              find_index_loop lone kb es capacity (unat (fnv_1a kb) mod capacity) = Inr m))"

lemma findable_frame:
  "value_bytes lone1 = value_bytes lone \<Longrightarrow> findable lone1 capacity es = findable lone capacity es"
  using find_index_loop_frame[of lone1 lone] by (simp add: findable_def)

lemma probed_findable:
  assumes "arrays lone entries = Some es"
  shows "probed lone entries capacity \<longleftrightarrow> findable lone capacity es"
proof -
  have fi: "(lone_table_entry_find_index_for lone (entry_key (es ! m)) entries capacity = Inr m) \<longleftrightarrow>
        (\<exists>kb. value_bytes lone (entry_key (es ! m)) = Some kb \<and> capacity \<noteq> 0 \<and>
              find_index_loop lone kb es capacity (unat (fnv_1a kb) mod capacity) = Inr m)" for m
    using assms
    by (auto simp: lone_table_entry_find_index_for_def lone_table_compute_hash_for_def
             split: option.splits)
  have "probed lone entries capacity \<longleftrightarrow>
        (\<forall>m < length es. entry_key (es ! m) = 0 \<or>
           lone_table_entry_find_index_for lone (entry_key (es ! m)) entries capacity = Inr m)"
    using assms by (simp add: probed_def list_all_iff Ball_def)
  then show ?thesis
    unfolding findable_def by (simp only: fi disj_imp)
qed

lemma findable_insert:
  assumes f: "findable lone capacity es"
    and loop: "find_index_loop lone kb es capacity (unat (fnv_1a kb) mod capacity) = Inr i"
    and empty: "entry_key (es ! i) = 0"
    and kb: "value_bytes lone key = Some kb"
  shows "findable lone capacity (es[i := \<lparr>entry_key = key, entry_value = v\<rparr>])"
  unfolding findable_def
proof (intro allI impI)
  let ?es' = "es[i := \<lparr>entry_key = key, entry_value = v\<rparr>]"
  fix m
  assume m: "m < length ?es'" and occ: "entry_key (?es' ! m) \<noteq> 0"
  note res = find_index_loop_result[OF loop]
  from res have i: "i < capacity" "i < length es" by simp_all
  show "\<exists>kb. value_bytes lone (entry_key (?es' ! m)) = Some kb \<and> capacity \<noteq> 0 \<and>
          find_index_loop lone kb ?es' capacity (unat (fnv_1a kb) mod capacity) = Inr m"
  proof (cases "m = i")
    case True
    have "find_index_loop lone kb ?es' capacity (unat (fnv_1a kb) mod capacity) = Inr i"
    proof (rule find_index_loop_stable[OF loop])
      show "length ?es' = length es" by simp
      show "entry_key (?es' ! i) = 0 \<or> value_bytes lone (entry_key (?es' ! i)) = Some kb"
        using i kb by simp
      fix j assume "j < i"
      then show "?es' ! j = es ! j" by simp
    qed
    with True i kb show ?thesis by auto
  next
    case False
    with m occ have occ0: "entry_key (es ! m) \<noteq> 0" and m0: "m < length es" by simp_all
    with f obtain mb where mb: "value_bytes lone (entry_key (es ! m)) = Some mb"
      and c: "capacity \<noteq> 0"
      and l: "find_index_loop lone mb es capacity (unat (fnv_1a mb) mod capacity) = Inr m"
      by (auto simp: findable_def)
    note r = find_index_loop_result[OF l]
    have outside: "\<not> (unat (fnv_1a mb) mod capacity \<le> i \<and> i < m)"
      using r empty by auto
    have "find_index_loop lone mb ?es' capacity (unat (fnv_1a mb) mod capacity) = Inr m"
    proof (rule find_index_loop_stable[OF l])
      show "length ?es' = length es" by simp
      show "entry_key (?es' ! m) = 0 \<or> value_bytes lone (entry_key (?es' ! m)) = Some mb"
        using False mb by simp
      fix j assume "unat (fnv_1a mb) mod capacity \<le> j" "j < m"
      with outside have "j \<noteq> i" by auto
      then show "?es' ! j = es ! j" by simp
    qed
    with False mb c show ?thesis by auto
  qed
qed

lemma lone_table_entry_set_probe:
  assumes "lone_table_entry_set lone entries capacity key v = Inr (lone1, r)"
    and "arrays lone entries = Some es"
  obtains i kb where
    "value_bytes lone key = Some kb" "capacity \<noteq> 0"
    "find_index_loop lone kb es capacity (unat (fnv_1a kb) mod capacity) = Inr i"
    "r \<longleftrightarrow> entry_key (es ! i) = 0"
    "lone1 = lone\<lparr>arrays := (arrays lone)(entries \<mapsto>
        es[i := (if r then \<lparr>entry_key = key, entry_value = v\<rparr> else (es ! i)\<lparr>entry_value := v\<rparr>)])\<rparr>"
proof -
  from assms(1) obtain i where i: "lone_table_entry_find_index_for lone key entries capacity = Inr i"
    by (auto simp: lone_table_entry_set_def split: sum.splits)
  with assms(2) obtain kb where kb: "value_bytes lone key = Some kb"
    and cap: "capacity \<noteq> 0"
    and loop: "find_index_loop lone kb es capacity (unat (fnv_1a kb) mod capacity) = Inr i"
    by (auto simp: lone_table_entry_find_index_for_def lone_table_compute_hash_for_def
             split: sum.splits option.splits if_splits)
  from assms i have
    "r \<longleftrightarrow> entry_key (es ! i) = 0"
    "lone1 = lone\<lparr>arrays := (arrays lone)(entries \<mapsto>
        es[i := (if r then \<lparr>entry_key = key, entry_value = v\<rparr> else (es ! i)\<lparr>entry_value := v\<rparr>)])\<rparr>"
    by (auto simp: lone_table_entry_set_def split: if_splits)
  with that[OF kb cap loop] show thesis by blast
qed

lemma lone_table_entry_set_result:
  assumes "lone_table_entry_set lone entries capacity key v = Inr (lone1, r)"
  obtains es i kb where
    "arrays lone entries = Some es" "value_bytes lone key = Some kb" "capacity \<noteq> 0"
    "unat (fnv_1a kb) mod capacity \<le> i" "i < capacity" "i < length es"
    "r \<longleftrightarrow> entry_key (es ! i) = 0"
    "entry_key (es ! i) \<noteq> 0 \<Longrightarrow> value_bytes lone (entry_key (es ! i)) = Some kb"
    "\<And>j. unat (fnv_1a kb) mod capacity \<le> j \<Longrightarrow> j < i \<Longrightarrow>
        entry_key (es ! j) \<noteq> 0 \<and> value_bytes lone (entry_key (es ! j)) \<noteq> Some kb"
    "lone1 = lone\<lparr>arrays := (arrays lone)(entries \<mapsto>
        es[i := (if r then \<lparr>entry_key = key, entry_value = v\<rparr> else (es ! i)\<lparr>entry_value := v\<rparr>)])\<rparr>"
proof -
  from assms obtain i where i: "lone_table_entry_find_index_for lone key entries capacity = Inr i"
    by (auto simp: lone_table_entry_set_def split: sum.splits)
  then obtain es kb where es: "arrays lone entries = Some es" and kb: "value_bytes lone key = Some kb"
    and cap: "capacity \<noteq> 0"
    and loop: "find_index_loop lone kb es capacity (unat (fnv_1a kb) mod capacity) = Inr i"
    by (auto simp: lone_table_entry_find_index_for_def lone_table_compute_hash_for_def
             split: sum.splits option.splits if_splits)
  note res = find_index_loop_result[OF loop]
  from assms i es have
    "r \<longleftrightarrow> entry_key (es ! i) = 0"
    "lone1 = lone\<lparr>arrays := (arrays lone)(entries \<mapsto>
        es[i := (if r then \<lparr>entry_key = key, entry_value = v\<rparr> else (es ! i)\<lparr>entry_value := v\<rparr>)])\<rparr>"
    by (auto simp: lone_table_entry_set_def split: if_splits)
  with that[OF es kb cap] res show thesis by blast
qed

lemma lone_table_entry_set_update:
  assumes e: "lone_table_entry_set lone entries capacity key v = Inr (lone1, r)"
    and es: "arrays lone entries = Some es"
  shows "\<exists>i x. i < length es \<and> i < capacity \<and> capacity \<noteq> 0 \<and>
           (r \<longleftrightarrow> entry_key (es ! i) = 0) \<and> (\<not> r \<longrightarrow> entry_key x \<noteq> 0) \<and>
           (r \<longrightarrow> x = \<lparr>entry_key = key, entry_value = v\<rparr>) \<and>
           lone1 = lone\<lparr>arrays := (arrays lone)(entries \<mapsto> es[i := x])\<rparr>"
proof -
  from e obtain es0 i kb where E:
    "arrays lone entries = Some es0" "capacity \<noteq> 0" "i < capacity" "i < length es0"
    "r \<longleftrightarrow> entry_key (es0 ! i) = 0"
    "lone1 = lone\<lparr>arrays := (arrays lone)(entries \<mapsto>
        es0[i := (if r then \<lparr>entry_key = key, entry_value = v\<rparr> else (es0 ! i)\<lparr>entry_value := v\<rparr>)])\<rparr>"
    by (rule lone_table_entry_set_result)
  from E(1) es have "es0 = es" by simp
  let ?x = "if r then \<lparr>entry_key = key, entry_value = v\<rparr> else (es ! i)\<lparr>entry_value := v\<rparr>"
  show ?thesis
    by (rule exI[of _ i], rule exI[of _ ?x]) (use E(2-6) \<open>es0 = es\<close> in simp)
qed

lemma length_filter_update:
  "i < length xs \<Longrightarrow>
   length (filter P (xs[i := x])) + (if P (xs ! i) then 1 else 0)
     = length (filter P xs) + (if P x then 1 else 0)"
proof (induction xs arbitrary: i)
  case Nil
  then show ?case by simp
next
  case (Cons a xs)
  show ?case
  proof (cases i)
    case 0
    then show ?thesis by simp
  next
    case (Suc i')
    with Cons.prems have "i' < length xs" by simp
    from Cons.IH[OF this] Suc show ?thesis by simp
  qed
qed

lemma set_filter_update:
  "i < length xs \<Longrightarrow> \<not> P (xs ! i) \<Longrightarrow>
   set (filter P (xs[i := x])) = (if P x then {x} else {}) \<union> set (filter P xs)"
proof (induction xs arbitrary: i)
  case Nil
  then show ?case by simp
next
  case (Cons a xs)
  show ?case
  proof (cases i)
    case 0
    with Cons.prems show ?thesis by auto
  next
    case (Suc i')
    with Cons.prems have "i' < length xs" "\<not> P (xs ! i')" by simp_all
    from Cons.IH[OF this] Suc show ?thesis by auto
  qed
qed

lemma distinct_map_filter_nth:
  "distinct (map f (filter P xs)) \<Longrightarrow> i < length xs \<Longrightarrow> j < length xs \<Longrightarrow> i \<noteq> j \<Longrightarrow>
   P (xs ! i) \<Longrightarrow> P (xs ! j) \<Longrightarrow> f (xs ! i) \<noteq> f (xs ! j)"
proof (induction xs arbitrary: i j)
  case Nil
  then show ?case by simp
next
  case (Cons a xs)
  show ?case
  proof (cases i)
    case i0: 0
    with Cons.prems obtain j' where j: "j = Suc j'" "j' < length xs" "P (xs ! j')"
      by (cases j) auto
    then have "xs ! j' \<in> set (filter P xs)" by simp
    with Cons.prems i0 j show ?thesis by (auto simp: image_iff)
  next
    case i: (Suc i')
    show ?thesis
    proof (cases j)
      case 0
      from Cons.prems i have "xs ! i' \<in> set (filter P xs)" by simp
      with Cons.prems i 0 show ?thesis by (auto simp: image_iff)
    next
      case (Suc j')
      with Cons.prems i have "distinct (map f (filter P xs))" "i' < length xs" "j' < length xs"
        "i' \<noteq> j'" "P (xs ! i')" "P (xs ! j')"
        by (auto split: if_splits)
      from Cons.IH[OF this] i Suc show ?thesis by simp
    qed
  qed
qed

lemma distinct_keys_nth:
  assumes "distinct_keys lone es" "i < length es" "j < length es" "i \<noteq> j"
    "entry_key (es ! i) \<noteq> 0" "entry_key (es ! j) \<noteq> 0"
  shows "value_bytes lone (entry_key (es ! i)) \<noteq> value_bytes lone (entry_key (es ! j))"
  using distinct_map_filter_nth[of "\<lambda>e. value_bytes lone (entry_key e)" "\<lambda>e. entry_key e \<noteq> 0" es i j]
    assms by (simp add: distinct_keys_def occupied_def)

lemma value_bytes_frame:
  "cells lone1 = cells lone \<Longrightarrow> buffers lone1 = buffers lone \<Longrightarrow>
   value_bytes lone1 = value_bytes lone"
  by (rule ext) (simp add: value_bytes_def)

lemma distinct_keys_frame:
  "cells lone1 = cells lone \<Longrightarrow> buffers lone1 = buffers lone \<Longrightarrow>
   distinct_keys lone1 es = distinct_keys lone es"
  using value_bytes_frame[of lone1 lone] by (simp add: distinct_keys_def)

lemma occupied_drop:
  "i < length es \<Longrightarrow>
   occupied (drop i es) = (if entry_key (es ! i) \<noteq> 0 then [es ! i] else []) @ occupied (drop (Suc i) es)"
  by (subst Cons_nth_drop_Suc[symmetric]) (simp_all add: occupied_def)

lemma occupied_take_Suc:
  "i < length es \<Longrightarrow>
   occupied (take (Suc i) es) = occupied (take i es) @ (if entry_key (es ! i) \<noteq> 0 then [es ! i] else [])"
  by (simp add: occupied_def take_Suc_conv_app_nth)

lemma resize_loop_result:
  assumes "resize_loop lone old new ncap ocap i = Inr lone'"
    and "old \<noteq> new" "arrays lone old = Some es" "length es = ocap" "arrays lone new = Some N"
  shows "cells lone' = cells lone \<and> buffers lone' = buffers lone \<and> memory lone' = memory lone \<and>
     lone_values lone' = lone_values lone \<and>
     (\<forall>p. p \<noteq> new \<longrightarrow> arrays lone' p = arrays lone p) \<and>
     (\<exists>N'. arrays lone' new = Some N' \<and> length N' = length N \<and>
        length (occupied N') \<le> length (occupied N) + length (occupied (drop i es)) \<and>
        (distinct_keys lone es \<and> set (occupied N) \<subseteq> set (occupied (take i es)) \<longrightarrow>
           set (occupied N') = set (occupied N) \<union> set (occupied (drop i es))))"
  using assms
proof (induction "ocap - i" arbitrary: i lone N)
  case 0
  then have le: "ocap \<le> i" by simp
  with 0(2) have "lone' = lone" by (simp add: resize_loop.simps[of lone old new ncap ocap i])
  with 0(4-6) le show ?case by (simp add: occupied_def)
next
  case (Suc n)
  from Suc.hyps(2) Suc.prems(4) have i: "i < ocap" "i < length es" by simp_all
  note loop = Suc.prems(1)[unfolded resize_loop.simps[of lone old new ncap ocap i]]
  show ?case
  proof (cases "entry_key (es ! i) = 0")
    case True
    with loop i Suc.prems have r: "resize_loop lone old new ncap ocap (i + 1) = Inr lone'"
      by simp
    have n: "n = ocap - (i + 1)" using Suc.hyps(2) by simp
    from Suc.hyps(1)[OF n r Suc.prems(2,3,4,5)] True i
    show ?thesis by (simp add: occupied_drop[of i es] occupied_take_Suc)
  next
    case occ: False
    with loop i Suc.prems obtain lone1 r where
      set: "lone_table_entry_set lone new ncap (entry_key (es ! i)) (entry_value (es ! i)) = Inr (lone1, r)"
      and r: "resize_loop lone1 old new ncap ocap (i + 1) = Inr lone'"
      by (auto split: sum.splits)
    from set Suc.prems(5) obtain idx kb where
      kb: "value_bytes lone (entry_key (es ! i)) = Some kb"
      and idx: "idx < length N"
      and rr: "r \<longleftrightarrow> entry_key (N ! idx) = 0"
      and eq: "entry_key (N ! idx) \<noteq> 0 \<Longrightarrow> value_bytes lone (entry_key (N ! idx)) = Some kb"
      and lone1: "lone1 = lone\<lparr>arrays := (arrays lone)(new \<mapsto>
        N[idx := (if r then \<lparr>entry_key = entry_key (es ! i), entry_value = entry_value (es ! i)\<rparr>
                  else (N ! idx)\<lparr>entry_value := entry_value (es ! i)\<rparr>)])\<rparr>"
      by (elim lone_table_entry_set_result) auto
    let ?x = "if r then \<lparr>entry_key = entry_key (es ! i), entry_value = entry_value (es ! i)\<rparr>
                  else (N ! idx)\<lparr>entry_value := entry_value (es ! i)\<rparr>"
    let ?N1 = "N[idx := ?x]"
    have f1: "cells lone1 = cells lone" "buffers lone1 = buffers lone" "memory lone1 = memory lone"
      "lone_values lone1 = lone_values lone" "arrays lone1 old = Some es" "arrays lone1 new = Some ?N1"
      "\<And>p. p \<noteq> new \<Longrightarrow> arrays lone1 p = arrays lone p"
      using lone1 Suc.prems(2,3) by simp_all
    have n: "n = ocap - (i + 1)" using Suc.hyps(2) by simp
    from Suc.hyps(1)[OF n r Suc.prems(2) f1(5) Suc.prems(4) f1(6)]
    obtain N' where IH: "cells lone' = cells lone1" "buffers lone' = buffers lone1"
      "memory lone' = memory lone1" "lone_values lone' = lone_values lone1"
      "\<forall>p. p \<noteq> new \<longrightarrow> arrays lone' p = arrays lone1 p"
      "arrays lone' new = Some N'" "length N' = length ?N1"
      "length (occupied N') \<le> length (occupied ?N1) + length (occupied (drop (i + 1) es))"
      "distinct_keys lone1 es \<and> set (occupied ?N1) \<subseteq> set (occupied (take (i + 1) es)) \<longrightarrow>
           set (occupied N') = set (occupied ?N1) \<union> set (occupied (drop (i + 1) es))"
      by (elim conjE exE) (rule that, assumption+)
    have xocc: "entry_key ?x \<noteq> 0" using occ rr by simp
    have len1: "length (occupied ?N1) \<le> length (occupied N) + 1"
      using length_filter_update[OF idx, of "\<lambda>e. entry_key e \<noteq> 0" ?x]
      by (simp add: occupied_def split: if_splits)
    have A: "length (occupied N') \<le> length (occupied N) + length (occupied (drop i es))"
      using IH(8) len1 occ i by (simp add: occupied_drop[of i es])
    have B: "set (occupied N') = set (occupied N) \<union> set (occupied (drop i es))"
      if d: "distinct_keys lone es" and sub: "set (occupied N) \<subseteq> set (occupied (take i es))"
    proof -
      have empty: "entry_key (N ! idx) = 0"
      proof (rule ccontr)
        assume o: "entry_key (N ! idx) \<noteq> 0"
        then have "N ! idx \<in> set (occupied N)" using idx by (simp add: occupied_def)
        with sub have "N ! idx \<in> set (take i es)" by (auto simp: occupied_def)
        then obtain j where j: "j < i" "j < length es" "N ! idx = es ! j"
          by (auto simp: in_set_conv_nth)
        from distinct_keys_nth[OF d j(2) i(2)] j o occ
        have "value_bytes lone (entry_key (es ! j)) \<noteq> value_bytes lone (entry_key (es ! i))"
          by simp
        with eq[OF o] kb j show False by simp
      qed
      then have x: "?x = es ! i" using rr by simp
      have s1: "set (occupied ?N1) = {es ! i} \<union> set (occupied N)"
        using set_filter_update[OF idx, of "\<lambda>e. entry_key e \<noteq> 0" ?x] empty xocc
        unfolding occupied_def x by simp
      have "set (occupied ?N1) \<subseteq> set (occupied (take (i + 1) es))"
        using s1 sub occ i by (auto simp: occupied_take_Suc)
      moreover have "distinct_keys lone1 es"
        using d distinct_keys_frame[of lone1 lone es] f1(1,2) by simp
      ultimately have "set (occupied N') = set (occupied ?N1) \<union> set (occupied (drop (i + 1) es))"
        using IH(9) by blast
      then show ?thesis using s1 occ i by (auto simp: occupied_drop[of i es])
    qed
    show ?thesis
      using IH(1-7) f1 A B by auto
  qed
qed

text \<open>
  The loop of \<^verbatim>\<open>lone_table_resize\<close> puts every entry in the slot that the probe with the
  new capacity reaches for its key.
\<close>

lemma resize_loop_findable:
  assumes "resize_loop lone old new ncap ocap i = Inr lone'"
    and "old \<noteq> new" "arrays lone old = Some es" "length es = ocap" "arrays lone new = Some N"
    and "distinct_keys lone es" "set (occupied N) \<subseteq> set (occupied (take i es))"
    and "findable lone ncap N"
  shows "\<exists>N'. arrays lone' new = Some N' \<and> findable lone ncap N'"
  using assms
proof (induction "ocap - i" arbitrary: i lone N)
  case 0
  then have le: "ocap \<le> i" by simp
  with 0(2) have "lone' = lone" by (simp add: resize_loop.simps[of lone old new ncap ocap i])
  with 0(6,9) show ?case by simp
next
  case (Suc n)
  from Suc.hyps(2) Suc.prems(4) have i: "i < ocap" "i < length es" by simp_all
  note loop = Suc.prems(1)[unfolded resize_loop.simps[of lone old new ncap ocap i]]
  have n: "n = ocap - (i + 1)" using Suc.hyps(2) by simp
  show ?case
  proof (cases "entry_key (es ! i) = 0")
    case True
    with loop i Suc.prems have r: "resize_loop lone old new ncap ocap (i + 1) = Inr lone'"
      by simp
    have "set (occupied N) \<subseteq> set (occupied (take (i + 1) es))"
      using Suc.prems(7) i by (auto simp: occupied_take_Suc)
    from Suc.hyps(1)[OF n r Suc.prems(2,3,4,5,6) this Suc.prems(8)]
    show ?thesis .
  next
    case occ: False
    with loop i Suc.prems obtain lone1 r where
      set: "lone_table_entry_set lone new ncap (entry_key (es ! i)) (entry_value (es ! i)) = Inr (lone1, r)"
      and r: "resize_loop lone1 old new ncap ocap (i + 1) = Inr lone'"
      by (auto split: sum.splits)
    from set Suc.prems(5) obtain idx kb where
      kb: "value_bytes lone (entry_key (es ! i)) = Some kb"
      and probe: "find_index_loop lone kb N ncap (unat (fnv_1a kb) mod ncap) = Inr idx"
      and rr: "r \<longleftrightarrow> entry_key (N ! idx) = 0"
      and lone1: "lone1 = lone\<lparr>arrays := (arrays lone)(new \<mapsto>
        N[idx := (if r then \<lparr>entry_key = entry_key (es ! i), entry_value = entry_value (es ! i)\<rparr>
                  else (N ! idx)\<lparr>entry_value := entry_value (es ! i)\<rparr>)])\<rparr>"
      by (elim lone_table_entry_set_probe) auto
    note res = find_index_loop_result[OF probe]
    from res have idx: "idx < length N" by simp
    have empty: "entry_key (N ! idx) = 0"
    proof (rule ccontr)
      assume o: "entry_key (N ! idx) \<noteq> 0"
      then have "N ! idx \<in> set (occupied N)" using idx by (simp add: occupied_def)
      with Suc.prems(7) have "N ! idx \<in> set (take i es)" by (auto simp: occupied_def)
      then obtain j where j: "j < i" "j < length es" "N ! idx = es ! j"
        by (auto simp: in_set_conv_nth)
      from distinct_keys_nth[OF Suc.prems(6) j(2) i(2)] j o occ
      have "value_bytes lone (entry_key (es ! j)) \<noteq> value_bytes lone (entry_key (es ! i))"
        by simp
      with res o kb j show False by simp
    qed
    let ?x = "\<lparr>entry_key = entry_key (es ! i), entry_value = entry_value (es ! i)\<rparr>"
    let ?N1 = "N[idx := ?x]"
    have x: "?x = es ! i" by simp
    from empty rr lone1 have lone1': "lone1 = lone\<lparr>arrays := (arrays lone)(new \<mapsto> ?N1)\<rparr>"
      by simp
    have f1: "arrays lone1 old = Some es" "arrays lone1 new = Some ?N1"
      using lone1' Suc.prems(2,3) by simp_all
    have vb: "value_bytes lone1 = value_bytes lone"
      using lone1' by (intro value_bytes_frame) simp_all
    have d1: "distinct_keys lone1 es"
      using Suc.prems(6) distinct_keys_frame[of lone1 lone es] lone1' by simp
    have s1: "set (occupied ?N1) = {es ! i} \<union> set (occupied N)"
      using set_filter_update[OF idx, of "\<lambda>e. entry_key e \<noteq> 0" ?x] empty occ
      unfolding occupied_def x by simp
    have sub1: "set (occupied ?N1) \<subseteq> set (occupied (take (i + 1) es))"
      using s1 Suc.prems(7) occ i by (auto simp: occupied_take_Suc)
    have "findable lone ncap ?N1"
      by (rule findable_insert[OF Suc.prems(8) probe empty kb])
    then have fn1: "findable lone1 ncap ?N1"
      using findable_frame[OF vb] by simp
    from Suc.hyps(1)[OF n r Suc.prems(2) f1(1) Suc.prems(4) f1(2) d1 sub1 fn1]
    obtain N' where "arrays lone' new = Some N'" "findable lone1 ncap N'" by blast
    then show ?thesis using findable_frame[OF vb] by auto
  qed
qed

lemma is_allocated_memory:
  "memory lone1 = memory lone \<Longrightarrow> is_allocated lone1 q = is_allocated lone q"
  by (simp add: is_allocated_used_pointers)

lemma occupied_replicate_empty [simp]:
  "occupied (replicate n \<lparr>entry_key = 0, entry_value = 0\<rparr>) = []"
  by (simp add: occupied_def)

lemma lone_table_resize_result:
  assumes r: "lone_table_resize lone table ncap = Inr lone'"
    and t: "cells lone table = Some (LONE_TABLE count cap old prototype)"
    and es: "arrays lone old = Some es" "length es = cap"
    and live: "is_allocated lone old"
  shows "\<exists>new N'.
     cells lone' = (cells lone)(table \<mapsto> LONE_TABLE count ncap new prototype) \<and>
     buffers lone' = buffers lone \<and> lone_values lone' = lone_values lone \<and>
     new \<noteq> old \<and> \<not> is_allocated lone new \<and> is_allocated lone' new \<and>
     \<not> is_allocated lone' old \<and>
     (\<forall>q. is_allocated lone' q \<longleftrightarrow> (q = new \<or> is_allocated lone q) \<and> q \<noteq> old) \<and>
     (\<forall>p. p \<noteq> new \<longrightarrow> arrays lone' p = arrays lone p) \<and>
     arrays lone' new = Some N' \<and> length N' = ncap \<and>
     length (occupied N') \<le> length (occupied es) \<and>
     (distinct_keys lone es \<longrightarrow>
        set (occupied N') = set (occupied es) \<and> probed lone' new ncap)"
proof -
  let ?empty = "replicate ncap \<lparr>entry_key = 0, entry_value = 0\<rparr>"
  from r t obtain lone1 new lone3 lone4 where
    a: "lone_allocate lone (ncap * sizeof_lone_table_entry) = Inr (lone1, new)"
    and l: "resize_loop (lone1\<lparr>arrays := (arrays lone1)(new \<mapsto> ?empty)\<rparr>) old new ncap cap 0 = Inr lone3"
    and d: "lone_deallocate lone3 old = Inr lone4"
    and c: "lone' = lone4\<lparr>cells := (cells lone4)(table \<mapsto> LONE_TABLE count ncap new prototype)\<rparr>"
    by (auto simp: lone_table_resize_def Let_def split: sum.splits)
  let ?lone2 = "lone1\<lparr>arrays := (arrays lone1)(new \<mapsto> ?empty)\<rparr>"
  note fa = lone_allocate_frame[OF a]
  note ia = lone_allocate_is_allocated[OF a]
  from ia(1) live have ne: "old \<noteq> new" by auto
  have es2: "arrays ?lone2 old = Some es" "arrays ?lone2 new = Some ?empty"
    using ne es fa by simp_all
  from resize_loop_result[OF l ne es2(1) es(2) es2(2)]
  obtain N' where L: "cells lone3 = cells ?lone2" "buffers lone3 = buffers ?lone2"
    "memory lone3 = memory ?lone2" "lone_values lone3 = lone_values ?lone2"
    "\<forall>p. p \<noteq> new \<longrightarrow> arrays lone3 p = arrays ?lone2 p"
    "arrays lone3 new = Some N'" "length N' = length ?empty"
    "length (occupied N') \<le> length (occupied ?empty) + length (occupied (drop 0 es))"
    "distinct_keys ?lone2 es \<and> set (occupied ?empty) \<subseteq> set (occupied (take 0 es)) \<longrightarrow>
       set (occupied N') = set (occupied ?empty) \<union> set (occupied (drop 0 es))"
    by (elim conjE exE) (rule that, assumption+)
  note fd = lone_deallocate_frame[OF d]
  note idd = lone_deallocate_is_allocated[OF d]
  have m3: "\<And>q. is_allocated lone3 q = is_allocated lone1 q"
    using L(3) by (simp add: is_allocated_used_pointers)
  have m4: "\<And>q. is_allocated lone' q = is_allocated lone4 q"
    using c by (simp add: is_allocated_used_pointers)
  have alloc: "\<And>q. is_allocated lone' q \<longleftrightarrow> (q = new \<or> is_allocated lone q) \<and> q \<noteq> old"
    using idd m3 m4 ia(2) by auto
  have dk: "distinct_keys ?lone2 es = distinct_keys lone es"
    using distinct_keys_frame[of ?lone2 lone es] fa by simp
  have "cells lone' = (cells lone)(table \<mapsto> LONE_TABLE count ncap new prototype)"
    using c fd(1) L(1) fa by simp
  moreover have "buffers lone' = buffers lone" "lone_values lone' = lone_values lone"
    using c fd L(2,4) fa by simp_all
  moreover have "\<forall>p. p \<noteq> new \<longrightarrow> arrays lone' p = arrays lone p"
    using c fd(2) L(5) fa by simp
  moreover have "arrays lone' new = Some N'" "length N' = ncap"
    using c fd(2) L(6,7) by simp_all
  moreover have "length (occupied N') \<le> length (occupied es)"
    using L(8) by simp
  moreover have "distinct_keys lone es \<longrightarrow> set (occupied N') = set (occupied es)"
    using L(9) dk by simp
  moreover have "probed lone' new ncap" if dist: "distinct_keys lone es"
  proof -
    have "findable ?lone2 ncap ?empty" by (simp add: findable_def)
    from resize_loop_findable[OF l ne es2(1) es(2) es2(2) _ _ this] dist dk
    obtain N2 where N2: "arrays lone3 new = Some N2" "findable ?lone2 ncap N2"
      by (auto simp: occupied_def)
    with L(6) have "N2 = N'" by simp
    have "value_bytes lone' = value_bytes ?lone2"
    proof (rule ext)
      fix q
      show "value_bytes lone' q = value_bytes ?lone2 q"
        using c fd L(1,2) fa t by (simp add: value_bytes_def)
    qed
    from findable_frame[OF this] N2(2) \<open>N2 = N'\<close> have "findable lone' ncap N'" by simp
    moreover have "arrays lone' new = Some N'" using c fd(2) L(6) by simp
    ultimately show ?thesis using probed_findable by simp
  qed
  moreover have "new \<noteq> old" "\<not> is_allocated lone new" "is_allocated lone' new"
    "\<not> is_allocated lone' old"
    using ne ia(1) alloc by auto
  ultimately show ?thesis using alloc by blast
qed

lemma load_invariantI:
  "cells lone table = Some (LONE_TABLE count capacity entries prototype) \<Longrightarrow>
   arrays lone entries = Some es \<Longrightarrow> length es = capacity \<Longrightarrow>
   length (occupied es) \<le> count \<Longrightarrow> count \<le> capacity div 2 \<Longrightarrow>
   is_allocated lone entries \<Longrightarrow> load_invariant lone table"
  by (simp add: load_invariant_def)

lemma load_invariantE:
  assumes "load_invariant lone table"
  obtains count capacity entries prototype es where
    "cells lone table = Some (LONE_TABLE count capacity entries prototype)"
    "arrays lone entries = Some es" "length es = capacity"
    "length (occupied es) \<le> count" "count \<le> capacity div 2" "is_allocated lone entries"
  using assms by (auto simp: load_invariant_def split: option.splits lone_value.splits)

lemma lone_table_create_load_invariant:
  assumes "lone_table_create lone capacity prototype = Inr (lone', table)"
  shows "load_invariant lone' table"
proof -
  from assms obtain lone1 lone2 entries where
    v: "lone_value_create lone = Inr (lone1, table)"
    and a: "lone_allocate lone1 (capacity * sizeof_lone_table_entry) = Inr (lone2, entries)"
    and l: "lone' = lone2\<lparr>arrays := (arrays lone2)
                            (entries \<mapsto> replicate capacity \<lparr>entry_key = 0, entry_value = 0\<rparr>),
                          cells := (cells lone2)(table \<mapsto> LONE_TABLE 0 capacity entries prototype)\<rparr>"
    by (auto simp: lone_table_create_def split: sum.splits)
  have "is_allocated lone2 entries"
    using lone_allocate_is_allocated(2)[OF a, of entries] by simp
  then have "is_allocated lone' entries"
    using l by (simp add: is_allocated_used_pointers)
  moreover have "cells lone' table = Some (LONE_TABLE 0 capacity entries prototype)"
    using l by simp
  moreover have "arrays lone' entries = Some (replicate capacity \<lparr>entry_key = 0, entry_value = 0\<rparr>)"
    using l by simp
  ultimately show ?thesis
    by (simp add: load_invariant_def)
qed

lemma lone_table_set_result:
  assumes s: "lone_table_set lone table key v = Inr lone'"
    and t: "cells lone table = Some (LONE_TABLE count capacity entries prototype)"
    and es: "arrays lone entries = Some es" "length es = capacity"
    and occ: "length (occupied es) \<le> count"
    and half: "count \<le> capacity div 2"
    and live: "is_allocated lone entries"
  shows "\<exists>count' capacity' entries' es'.
     cells lone' table = Some (LONE_TABLE count' capacity' entries' prototype) \<and>
     arrays lone' entries' = Some es' \<and> length es' = capacity' \<and>
     length (occupied es') \<le> count' \<and> count' \<le> capacity' div 2 \<and>
     is_allocated lone' entries' \<and> count' \<le> count + 1 \<and>
     (count < capacity div 2 \<longrightarrow> capacity' = capacity \<and> entries' = entries) \<and>
     (capacity div 2 \<le> count \<longrightarrow>
        capacity' = capacity * 2 \<and> entries' \<noteq> entries \<and>
        \<not> is_allocated lone entries' \<and> \<not> is_allocated lone' entries \<and>
        length (occupied es') \<le> length (occupied es) \<and>
        (distinct_keys lone es \<longrightarrow>
           set (occupied es') = set (occupied es) \<and> probed lone' entries' (capacity * 2)))"
proof (cases "capacity div 2 \<le> count")
  case False
  with s t obtain lone2 r where
    e: "lone_table_entry_set lone entries capacity key v = Inr (lone2, r)"
    and l: "lone' = (if r then lone2\<lparr>cells := (cells lone2)
              (table \<mapsto> (case cells lone2 table of
                   Some (LONE_TABLE count2 capacity2 entries2 prototype2) \<Rightarrow>
                     LONE_TABLE (count2 + 1) capacity2 entries2 prototype2))\<rparr> else lone2)"
    by (auto simp: lone_table_set_def split: sum.splits if_splits option.splits lone_value.splits)
  from lone_table_entry_set_update[OF e es(1)] obtain i x where i: "i < length es"
    and rr: "r \<longleftrightarrow> entry_key (es ! i) = 0"
    and x: "\<not> r \<longrightarrow> entry_key x \<noteq> 0"
    and lone2: "lone2 = lone\<lparr>arrays := (arrays lone)(entries \<mapsto> es[i := x])\<rparr>"
    by blast
  have len: "length (occupied (es[i := x])) \<le> length (occupied es) + (if r then 1 else 0)"
    using length_filter_update[OF i, of "\<lambda>e. entry_key e \<noteq> 0" x] rr x
    by (auto simp: occupied_def split: if_splits)
  have c2: "cells lone2 table = Some (LONE_TABLE count capacity entries prototype)"
    using lone2 t by simp
  have "cells lone' table = Some (LONE_TABLE (count + (if r then 1 else 0)) capacity entries prototype)"
    using l c2 by simp
  moreover have "arrays lone' entries = Some (es[i := x])"
    using l lone2 by simp
  moreover have "is_allocated lone' entries"
    using l lone2 live by (simp add: is_allocated_used_pointers)
  moreover have "length (occupied (es[i := x])) \<le> count + (if r then 1 else 0)"
    using len occ by simp
  moreover have "count + (if r then 1 else 0) \<le> capacity div 2"
    using False by simp
  ultimately show ?thesis using False es(2) by auto
next
  case True
  with s t obtain lone1 lone2 r where
    rs: "lone_table_resize lone table (capacity * 2) = Inr lone1"
    and e: "lone_table_entry_set lone1 entries capacity key v = Inr (lone2, r)"
    and l: "lone' = (if r then lone2\<lparr>cells := (cells lone2)
              (table \<mapsto> (case cells lone2 table of
                   Some (LONE_TABLE count2 capacity2 entries2 prototype2) \<Rightarrow>
                     LONE_TABLE (count2 + 1) capacity2 entries2 prototype2))\<rparr> else lone2)"
    by (auto simp: lone_table_set_def split: sum.splits if_splits option.splits lone_value.splits)
  from lone_table_resize_result[OF rs t es live]
  obtain new N' where R:
    "cells lone1 = (cells lone)(table \<mapsto> LONE_TABLE count (capacity * 2) new prototype)"
    "new \<noteq> entries" "\<not> is_allocated lone new" "is_allocated lone1 new"
    "\<not> is_allocated lone1 entries"
    "\<forall>p. p \<noteq> new \<longrightarrow> arrays lone1 p = arrays lone p"
    "arrays lone1 new = Some N'" "length N' = capacity * 2"
    "length (occupied N') \<le> length (occupied es)"
    "distinct_keys lone es \<longrightarrow>
       set (occupied N') = set (occupied es) \<and> probed lone1 new (capacity * 2)"
    by blast
  have es1: "arrays lone1 entries = Some es" using R(2,6) es by simp
  from lone_table_entry_set_update[OF e es1] obtain i x where cap: "capacity \<noteq> 0"
    and lone2: "lone2 = lone1\<lparr>arrays := (arrays lone1)(entries \<mapsto> es[i := x])\<rparr>"
    by blast
  have c2: "cells lone2 table = Some (LONE_TABLE count (capacity * 2) new prototype)"
    using lone2 R(1) by simp
  have "cells lone' table
        = Some (LONE_TABLE (count + (if r then 1 else 0)) (capacity * 2) new prototype)"
    using l c2 by simp
  moreover have "arrays lone' new = Some N'"
    using l lone2 R(2,7) by simp
  moreover have "is_allocated lone' new" "\<not> is_allocated lone' entries"
    using l lone2 R(4,5) by (simp_all add: is_allocated_used_pointers)
  moreover have "length (occupied N') \<le> count + (if r then 1 else 0)"
    using R(9) occ by simp
  moreover have "count + (if r then 1 else 0) \<le> (capacity * 2) div 2"
    using True half cap by auto
  moreover have "probed lone' new (capacity * 2)" if "distinct_keys lone es"
  proof -
    from that R(10) have p1: "probed lone1 new (capacity * 2)" by simp
    have vb: "value_bytes lone' = value_bytes lone1"
    proof (rule ext)
      fix q
      show "value_bytes lone' q = value_bytes lone1 q"
        using l lone2 c2 R(1) by (simp add: value_bytes_def)
    qed
    have a1: "arrays lone1 new = Some N'" by (rule R(7))
    have a': "arrays lone' new = Some N'" using l lone2 R(2,7) by simp
    from p1 have "findable lone1 (capacity * 2) N'"
      using probed_findable[OF a1] by simp
    then have "findable lone' (capacity * 2) N'"
      using findable_frame[OF vb] by simp
    then show ?thesis using probed_findable[OF a'] by simp
  qed
  ultimately show ?thesis using True R(2,3,4,5,8,9,10) by auto
qed


subsection \<open>Deletion\<close>

lemma no_wrap_nth:
  assumes "no_wrap lone capacity es" "m < length es" "entry_key (es ! m) \<noteq> 0"
  shows "\<exists>k. lone_table_compute_hash_for lone (entry_key (es ! m)) capacity = Inr k \<and> k \<le> m"
proof -
  have "m \<in> set [0..<length es]" using assms(2) by simp
  from assms(1)[unfolded no_wrap_def list_all_iff, THEN bspec, OF this] assms(3)
  have "case lone_table_compute_hash_for lone (entry_key (es ! m)) capacity of
          Inr k \<Rightarrow> k \<le> m | Inl e \<Rightarrow> False"
    by simp
  then show ?thesis
    by (cases "lone_table_compute_hash_for lone (entry_key (es ! m)) capacity") simp_all
qed

lemma no_wrapI:
  assumes "\<And>m. m < length es \<Longrightarrow> entry_key (es ! m) \<noteq> 0 \<Longrightarrow>
     \<exists>k. lone_table_compute_hash_for lone (entry_key (es ! m)) capacity = Inr k \<and> k \<le> m"
  shows "no_wrap lone capacity es"
  unfolding no_wrap_def list_all_iff
proof
  fix m assume "m \<in> set [0..<length es]"
  then have m: "m < length es" by simp
  show "entry_key (es ! m) = 0 \<or>
        (case lone_table_compute_hash_for lone (entry_key (es ! m)) capacity of
           Inr k \<Rightarrow> k \<le> m | Inl e \<Rightarrow> False)"
  proof (cases "entry_key (es ! m) = 0")
    case True then show ?thesis by simp
  next
    case False
    from assms[OF m False] show ?thesis by auto
  qed
qed

lemma delete_loop_result:
  assumes "delete_loop lone es capacity i j0 = Some y"
  shows "delete_loop_post lone es capacity i y"
proof (rule delete_loop.raw_induct[where P = "\<lambda>lone es capacity i j0 y.
    delete_loop_post lone es capacity i y", OF _ assms])
  fix rec :: "lone_lisp \<Rightarrow> lone_table_entry list \<Rightarrow> nat \<Rightarrow> nat \<Rightarrow> nat
               \<Rightarrow> (error + (lone_table_entry list \<times> nat)) option"
    and lone es capacity i j0 y
  assume IH: "\<And>lone es capacity i j0 y. rec lone es capacity i j0 = Some y \<Longrightarrow>
                delete_loop_post lone es capacity i y"
  assume body: "(let j = (j0 + 1) mod capacity
      in if \<not> j < length es then Some (Inl (OutOfBounds j))
         else if entry_key (es ! j) = 0 then Some (Inr (es, i))
              else case lone_table_compute_hash_for lone (entry_key (es ! j)) capacity of
                   Inl e \<Rightarrow> Some (Inl e)
                   | Inr k \<Rightarrow>
                       if i < j \<and> (k \<le> i \<or> j < k) \<or> j < i \<and> k \<le> i \<and> j < k
                       then rec lone (es[i := es ! j]) capacity j j
                       else rec lone es capacity i j) = Some y"
  define j where "j = (j0 + 1) mod capacity"
  show "delete_loop_post lone es capacity i y"
    unfolding delete_loop_post_def
  proof (intro allI impI)
    fix es' i'
    assume y: "y = Inr (es', i')" and i: "i < length es" and occ_i: "entry_key (es ! i) \<noteq> 0"
    have jl: "j < length es"
      using body y unfolding j_def[symmetric] Let_def by (auto split: if_splits)
    show "length es' = length es \<and> i' < length es \<and> entry_key (es' ! i') \<noteq> 0 \<and>
        length (occupied es') = length (occupied es) \<and>
        (\<forall>m<length es. m \<noteq> i' \<longrightarrow> entry_key (es' ! m) \<noteq> 0 \<longrightarrow>
           (\<exists>m'<length es. m' \<noteq> i \<and> es ! m' = es' ! m)) \<and>
        (no_wrap lone capacity es \<longrightarrow> i \<le> i' \<and> no_wrap lone capacity es')"
    proof (cases "entry_key (es ! j) = 0")
      case True
      with body y jl have "es' = es" "i' = i"
        unfolding j_def[symmetric] Let_def by simp_all
      with i occ_i show ?thesis by auto
    next
      case occ_j: False
      with body y jl obtain k where k: "lone_table_compute_hash_for lone (entry_key (es ! j)) capacity = Inr k"
        unfolding j_def[symmetric] Let_def by (auto split: sum.splits)
      show ?thesis
      proof (cases "i < j \<and> (k \<le> i \<or> j < k) \<or> j < i \<and> k \<le> i \<and> j < k")
        case False
        with body y jl occ_j k have "rec lone es capacity i j = Some y"
          unfolding j_def[symmetric] Let_def by simp
        from IH[OF this] y i occ_i show ?thesis
          unfolding delete_loop_post_def by blast
      next
        case move: True
        then have ne: "j \<noteq> i" by auto
        let ?es1 = "es[i := es ! j]"
        from move body y jl occ_j k have "rec lone ?es1 capacity j j = Some y"
          unfolding j_def[symmetric] Let_def by simp
        from IH[OF this] have post: "delete_loop_post lone ?es1 capacity j y" .
        have j1: "j < length ?es1" "entry_key (?es1 ! j) \<noteq> 0"
          using jl occ_j ne by simp_all
        from post[unfolded delete_loop_post_def, rule_format, OF y j1]
        have P: "length es' = length ?es1" "i' < length ?es1" "entry_key (es' ! i') \<noteq> 0"
          "length (occupied es') = length (occupied ?es1)"
          "\<forall>m<length ?es1. m \<noteq> i' \<longrightarrow> entry_key (es' ! m) \<noteq> 0 \<longrightarrow>
             (\<exists>m'<length ?es1. m' \<noteq> j \<and> ?es1 ! m' = es' ! m)"
          "no_wrap lone capacity ?es1 \<longrightarrow> j \<le> i' \<and> no_wrap lone capacity es'"
          by blast+
        have cnt: "length (occupied ?es1) = length (occupied es)"
          using length_filter_update[OF i, of "\<lambda>e. entry_key e \<noteq> 0" "es ! j"] occ_i occ_j
          by (simp add: occupied_def)
        have src: "\<exists>m'<length es. m' \<noteq> i \<and> es ! m' = es' ! m"
          if m: "m < length es" "m \<noteq> i'" "entry_key (es' ! m) \<noteq> 0" for m
        proof -
          from P(5) m obtain m' where m': "m' < length es" "m' \<noteq> j" "?es1 ! m' = es' ! m"
            by auto
          show ?thesis
          proof (cases "m' = i")
            case True
            with m' i have "es ! j = es' ! m" by simp
            with jl ne show ?thesis by blast
          next
            case False
            with m' have "es ! m' = es' ! m" by simp
            with m' False show ?thesis by blast
          qed
        qed
        have nw: "i \<le> i' \<and> no_wrap lone capacity es'" if w: "no_wrap lone capacity es"
        proof -
          from no_wrap_nth[OF w jl occ_j] k have kj: "k \<le> j" by simp
          with move have ij: "i < j" "k \<le> i" by auto
          have "no_wrap lone capacity ?es1"
          proof (rule no_wrapI)
            fix m assume m: "m < length ?es1" "entry_key (?es1 ! m) \<noteq> 0"
            show "\<exists>k. lone_table_compute_hash_for lone (entry_key (?es1 ! m)) capacity = Inr k \<and> k \<le> m"
            proof (cases "m = i")
              case True
              with i k ij show ?thesis by simp
            next
              case False
              with m no_wrap_nth[OF w, of m] show ?thesis by simp
            qed
          qed
          with P(6) ij show ?thesis by simp
        qed
        show ?thesis
          using P(1-4) cnt src nw by simp
      qed
    qed
  qed
qed

lemma lone_table_entry_find_index_for_result:
  assumes "lone_table_entry_find_index_for lone key entries capacity = Inr i"
  obtains es kb where "arrays lone entries = Some es" "value_bytes lone key = Some kb"
    "capacity \<noteq> 0"
    "lone_table_compute_hash_for lone key capacity = Inr (unat (fnv_1a kb) mod capacity)"
    "find_index_loop lone kb es capacity (unat (fnv_1a kb) mod capacity) = Inr i"
  using assms
  by (auto simp: lone_table_entry_find_index_for_def lone_table_compute_hash_for_def
           split: sum.splits option.splits if_splits)

lemma lone_table_delete_cases:
  assumes d: "lone_table_delete lone table key = Some (Inr lone')"
    and t: "cells lone table = Some (LONE_TABLE count capacity entries prototype)"
    and es: "arrays lone entries = Some es"
  obtains (absent) i where "lone_table_entry_find_index_for lone key entries capacity = Inr i"
      "entry_key (es ! i) = 0" "lone' = lone"
  | (present) i es1 i1 where "lone_table_entry_find_index_for lone key entries capacity = Inr i"
      "entry_key (es ! i) \<noteq> 0" "delete_loop lone es capacity i i = Some (Inr (es1, i1))"
      "lone' = lone\<lparr>arrays := (arrays lone)
                 (entries \<mapsto> es1[i1 := \<lparr>entry_key = 0, entry_value = 0\<rparr>]),
               cells := (cells lone)
                 (table \<mapsto> LONE_TABLE (if count = 0 then 2 ^ 64 - 1 else count - 1)
                                       capacity entries prototype)\<rparr>"
proof -
  from d t es obtain i where i: "lone_table_entry_find_index_for lone key entries capacity = Inr i"
    by (auto simp: lone_table_delete_def split: sum.splits)
  show thesis
  proof (cases "entry_key (es ! i) = 0")
    case True
    with d t es i have "lone' = lone" by (simp add: lone_table_delete_def)
    with i True show thesis by (rule absent)
  next
    case False
    with d t es i obtain es1 i1 where l: "delete_loop lone es capacity i i = Some (Inr (es1, i1))"
      by (auto simp: lone_table_delete_def split: option.splits sum.splits)
    with d t es i False have "lone' = lone\<lparr>arrays := (arrays lone)
                 (entries \<mapsto> es1[i1 := \<lparr>entry_key = 0, entry_value = 0\<rparr>]),
               cells := (cells lone)
                 (table \<mapsto> LONE_TABLE (if count = 0 then 2 ^ 64 - 1 else count - 1)
                                       capacity entries prototype)\<rparr>"
      by (simp add: lone_table_delete_def)
    with i False l show thesis by (rule present)
  qed
qed

lemma lone_table_delete_load_invariant:
  assumes inv: "load_invariant lone table"
    and d: "lone_table_delete lone table key = Some (Inr lone')"
  shows "load_invariant lone' table"
proof -
  from inv obtain count capacity entries prototype es where
    t: "cells lone table = Some (LONE_TABLE count capacity entries prototype)"
    and es: "arrays lone entries = Some es" "length es = capacity"
    and occ: "length (occupied es) \<le> count" and half: "count \<le> capacity div 2"
    and live: "is_allocated lone entries"
    by (rule load_invariantE)
  from d t es(1) show ?thesis
  proof (cases rule: lone_table_delete_cases)
    case (absent i)
    with inv show ?thesis by simp
  next
    case (present i es1 i1)
    from present(1) es(1) have i: "i < length es"
      by (elim lone_table_entry_find_index_for_result) (auto dest: find_index_loop_result)
    from delete_loop_result[OF present(3)] i present(2)
    have P: "length es1 = length es" "i1 < length es" "entry_key (es1 ! i1) \<noteq> 0"
      "length (occupied es1) = length (occupied es)"
      unfolding delete_loop_post_def by blast+
    let ?es2 = "es1[i1 := \<lparr>entry_key = 0, entry_value = 0\<rparr>]"
    have "length (occupied ?es2) + 1 = length (occupied es1)"
      using length_filter_update[of i1 es1 "\<lambda>e. entry_key e \<noteq> 0" "\<lparr>entry_key = 0, entry_value = 0\<rparr>"]
        P(1-3) by (simp add: occupied_def)
    with P(4) occ have c: "count \<noteq> 0" "length (occupied ?es2) \<le> count - 1" by simp_all
    have "cells lone' table = Some (LONE_TABLE (count - 1) capacity entries prototype)"
      using present(4) c by simp
    moreover have "arrays lone' entries = Some ?es2" using present(4) by simp
    moreover have "is_allocated lone' entries"
      using present(4) live by (simp add: is_allocated_used_pointers)
    ultimately show ?thesis
      using c half P(1) es(2) by (simp add: load_invariant_def)
  qed
qed


text \<open>
  Claim C2: immediately after any insertion the live count of a table is at most half
  its capacity; before an insertion that would push the count past half the capacity,
  the capacity is doubled and every live entry is rehashed into a fresh entry array,
  the old array being freed; the load factor is at most 0.5 at all times.

  The invariant \<open>load_invariant\<close> (at most \<open>count\<close> slots occupied, \<open>count\<close> at most half
  the capacity) holds of a table \<^verbatim>\<open>lone_table_create\<close> returns, and \<^verbatim>\<open>lone_table_set\<close>
  and \<^verbatim>\<open>lone_table_delete\<close> keep it whenever they return. When \<^verbatim>\<open>lone_table_set\<close> finds
  the count at half the capacity, the table has afterwards twice the capacity and a
  newly allocated entry array, the old array is no longer allocated, and (for keys
  different in content) the occupied slots of the new array hold the entries of the old
  one, each in the slot that the probe of \<^verbatim>\<open>lone_table_entry_find_index_for\<close> reaches
  for its key with the doubled capacity: every live entry has been rehashed.
\<close>

theorem table_load_factor:
  "(lone_table_create lone0 capacity0 prototype0 = Inr (lone1, table0) \<longrightarrow>
      load_invariant lone1 table0) \<and>
   (load_invariant lone table \<and> lone_table_set lone table key v = Inr lone' \<longrightarrow>
      load_invariant lone' table \<and>
      (\<forall>count capacity entries prototype es.
         cells lone table = Some (LONE_TABLE count capacity entries prototype) \<and>
         arrays lone entries = Some es \<and> capacity div 2 \<le> count \<longrightarrow>
         (\<exists>count' entries' es'.
            cells lone' table = Some (LONE_TABLE count' (capacity * 2) entries' prototype) \<and>
            arrays lone' entries' = Some es' \<and> length es' = capacity * 2 \<and>
            entries' \<noteq> entries \<and> \<not> is_allocated lone entries' \<and>
            is_allocated lone' entries' \<and> \<not> is_allocated lone' entries \<and>
            (distinct_keys lone es \<longrightarrow>
               set (occupied es') = set (occupied es) \<and>
               probed lone' entries' (capacity * 2))))) \<and>
   (load_invariant lone2 table2 \<and> lone_table_delete lone2 table2 key2 = Some (Inr lone3) \<longrightarrow>
      load_invariant lone3 table2)"
proof (intro conjI impI)
  assume "lone_table_create lone0 capacity0 prototype0 = Inr (lone1, table0)"
  then show "load_invariant lone1 table0" by (rule lone_table_create_load_invariant)
next
  assume "load_invariant lone2 table2 \<and> lone_table_delete lone2 table2 key2 = Some (Inr lone3)"
  then show "load_invariant lone3 table2"
    using lone_table_delete_load_invariant by blast
next
  assume a: "load_invariant lone table \<and> lone_table_set lone table key v = Inr lone'"
  then obtain count capacity entries prototype es where
    t: "cells lone table = Some (LONE_TABLE count capacity entries prototype)"
    and es: "arrays lone entries = Some es" "length es = capacity"
    and occ: "length (occupied es) \<le> count" and half: "count \<le> capacity div 2"
    and live: "is_allocated lone entries"
    by (blast elim: load_invariantE)
  from a have s: "lone_table_set lone table key v = Inr lone'" by simp
  from lone_table_set_result[OF s t es occ half live]
  obtain count' capacity' entries' es' where R:
    "cells lone' table = Some (LONE_TABLE count' capacity' entries' prototype)"
    "arrays lone' entries' = Some es'" "length es' = capacity'"
    "length (occupied es') \<le> count'" "count' \<le> capacity' div 2" "is_allocated lone' entries'"
    "capacity div 2 \<le> count \<longrightarrow>
        capacity' = capacity * 2 \<and> entries' \<noteq> entries \<and>
        \<not> is_allocated lone entries' \<and> \<not> is_allocated lone' entries \<and>
        length (occupied es') \<le> length (occupied es) \<and>
        (distinct_keys lone es \<longrightarrow>
               set (occupied es') = set (occupied es) \<and>
               probed lone' entries' (capacity * 2))"
    by blast
  from R(1-6) show "load_invariant lone' table"
    by (simp add: load_invariant_def)
  show "\<forall>count capacity entries prototype es.
         cells lone table = Some (LONE_TABLE count capacity entries prototype) \<and>
         arrays lone entries = Some es \<and> capacity div 2 \<le> count \<longrightarrow>
         (\<exists>count' entries' es'.
            cells lone' table = Some (LONE_TABLE count' (capacity * 2) entries' prototype) \<and>
            arrays lone' entries' = Some es' \<and> length es' = capacity * 2 \<and>
            entries' \<noteq> entries \<and> \<not> is_allocated lone entries' \<and>
            is_allocated lone' entries' \<and> \<not> is_allocated lone' entries \<and>
            (distinct_keys lone es \<longrightarrow>
               set (occupied es') = set (occupied es) \<and>
               probed lone' entries' (capacity * 2)))"
  proof (intro allI impI)
    fix count0 capacity0 entries0 prototype0 es0
    assume b: "cells lone table = Some (LONE_TABLE count0 capacity0 entries0 prototype0) \<and>
         arrays lone entries0 = Some es0 \<and> capacity0 div 2 \<le> count0"
    with t es have eq: "count0 = count" "capacity0 = capacity" "entries0 = entries"
      "prototype0 = prototype" "es0 = es" by simp_all
    from b eq R(7) have R7: "capacity' = capacity * 2" "entries' \<noteq> entries"
        "\<not> is_allocated lone entries'" "\<not> is_allocated lone' entries"
        "distinct_keys lone es \<longrightarrow>
           set (occupied es') = set (occupied es) \<and> probed lone' entries' (capacity * 2)"
      by simp_all
    show "\<exists>count' entries' es'.
            cells lone' table = Some (LONE_TABLE count' (capacity0 * 2) entries' prototype0) \<and>
            arrays lone' entries' = Some es' \<and> length es' = capacity0 * 2 \<and>
            entries' \<noteq> entries0 \<and> \<not> is_allocated lone entries' \<and>
            is_allocated lone' entries' \<and> \<not> is_allocated lone' entries0 \<and>
            (distinct_keys lone es0 \<longrightarrow>
               set (occupied es') = set (occupied es0) \<and>
               probed lone' entries' (capacity0 * 2))"
      unfolding eq
      by (rule exI[of _ count'], rule exI[of _ entries'], rule exI[of _ es'])
         (use R(1-3,6) R7 in simp)
  qed
qed

lemma table_scenario:
  "\<exists>lone1 table lone2 a lone3 b lone4 v lone5 lone6 lone7.
     lone_table_create (lone_lisp_initialize 65536) 2 0 = Inr (lone1, table) \<and>
     lone_symbol_create lone1 ''a'' 1 = Inr (lone2, a) \<and>
     lone_symbol_create lone2 ''b'' 1 = Inr (lone3, b) \<and>
     lone_integer_create lone3 1 = Inr (lone4, v) \<and>
     load_invariant lone4 table \<and>
     lone_table_set lone4 table a v = Inr lone5 \<and>
     lone_table_set lone5 table b v = Inr lone6 \<and>
     (\<exists>entries es. cells lone5 table = Some (LONE_TABLE 1 2 entries 0) \<and>
        arrays lone5 entries = Some es \<and> distinct_keys lone5 es) \<and>
     lone_table_delete lone6 table a = Some (Inr lone7)"
  by (simp add: table_eval alloc_eval replicate_2 replicate_4 lone_table_delete_def
        delete_loop.simps distinct_keys_def occupied_def load_invariant_def is_allocated_def)

theorem table_load_factor_witness:
  "\<exists>lone1 table lone4 a v lone5 b lone6 lone7.
     lone_table_create (lone_lisp_initialize 65536) 2 0 = Inr (lone1, table) \<and>
     load_invariant lone1 table \<and>
     load_invariant lone4 table \<and> lone_table_set lone4 table a v = Inr lone5 \<and>
     load_invariant lone5 table \<and> lone_table_set lone5 table b v = Inr lone6 \<and>
     load_invariant lone6 table \<and>
     (\<exists>entries es count' entries' es'.
        cells lone5 table = Some (LONE_TABLE 1 2 entries 0) \<and> arrays lone5 entries = Some es \<and>
        cells lone6 table = Some (LONE_TABLE count' 4 entries' 0) \<and>
        arrays lone6 entries' = Some es' \<and> \<not> is_allocated lone6 entries \<and>
        set (occupied es') = set (occupied es) \<and> probed lone6 entries' 4) \<and>
     lone_table_delete lone6 table a = Some (Inr lone7) \<and>
     load_invariant lone7 table"
proof -
  from table_scenario obtain lone1 table lone2 a lone3 b lone4 v lone5 lone6 lone7 entries es
    where S: "lone_table_create (lone_lisp_initialize 65536) 2 0 = Inr (lone1, table)"
      "load_invariant lone4 table"
      "lone_table_set lone4 table a v = Inr lone5"
      "lone_table_set lone5 table b v = Inr lone6"
      "cells lone5 table = Some (LONE_TABLE 1 2 entries 0)"
      "arrays lone5 entries = Some es" "distinct_keys lone5 es"
      "lone_table_delete lone6 table a = Some (Inr lone7)"
    by blast
  have i1: "load_invariant lone1 table"
    using table_load_factor[of "lone_lisp_initialize 65536" 2 0 lone1 table] S(1) by blast
  have i5: "load_invariant lone5 table"
    using table_load_factor[of _ _ _ _ _ lone4 table a v lone5] S(2,3) by blast
  have "load_invariant lone6 table \<and>
      (\<forall>count capacity entries prototype es.
         cells lone5 table = Some (LONE_TABLE count capacity entries prototype) \<and>
         arrays lone5 entries = Some es \<and> capacity div 2 \<le> count \<longrightarrow>
         (\<exists>count' entries' es'.
            cells lone6 table = Some (LONE_TABLE count' (capacity * 2) entries' prototype) \<and>
            arrays lone6 entries' = Some es' \<and> length es' = capacity * 2 \<and>
            entries' \<noteq> entries \<and> \<not> is_allocated lone5 entries' \<and>
            is_allocated lone6 entries' \<and> \<not> is_allocated lone6 entries \<and>
            (distinct_keys lone5 es \<longrightarrow>
               set (occupied es') = set (occupied es) \<and>
               probed lone6 entries' (capacity * 2))))"
    using table_load_factor[of _ _ _ _ _ lone5 table b v lone6] i5 S(4) by blast
  then have i6: "load_invariant lone6 table"
    and "\<exists>count' entries' es'.
            cells lone6 table = Some (LONE_TABLE count' (2 * 2) entries' 0) \<and>
            arrays lone6 entries' = Some es' \<and> length es' = 2 * 2 \<and>
            entries' \<noteq> entries \<and> \<not> is_allocated lone5 entries' \<and>
            is_allocated lone6 entries' \<and> \<not> is_allocated lone6 entries \<and>
            (distinct_keys lone5 es \<longrightarrow>
               set (occupied es') = set (occupied es) \<and>
               probed lone6 entries' (2 * 2))"
    using S(5,6) by auto
  then obtain count' entries' es' where R:
    "cells lone6 table = Some (LONE_TABLE count' 4 entries' 0)"
    "arrays lone6 entries' = Some es'" "\<not> is_allocated lone6 entries"
    "set (occupied es') = set (occupied es)" "probed lone6 entries' 4"
    using S(7) by auto
  have i7: "load_invariant lone7 table"
    using table_load_factor[of _ _ _ _ _ _ _ _ _ _ lone6 table a lone7] i6 S(8) by blast
  show ?thesis
    using S(1,3,4,5,6,8) S(2) i1 i5 i6 i7 R by blast
qed


subsection \<open>Lookup after deletion\<close>

lemma find_index_loop_reaches_empty:
  assumes "h \<le> e" "e < capacity" "e < length es" "entry_key (es ! e) = 0"
    and "\<And>m. h \<le> m \<Longrightarrow> m < e \<Longrightarrow> entry_key (es ! m) \<noteq> 0 \<Longrightarrow>
               value_bytes lone (entry_key (es ! m)) \<noteq> None"
  shows "\<exists>m. h \<le> m \<and> m \<le> e \<and> find_index_loop lone kb es capacity h = Inr m"
  using assms
proof (induction "e - h" arbitrary: h)
  case 0
  then have "h = e" by simp
  with 0 show ?case by (auto simp: find_index_loop.simps[of lone kb es capacity e])
next
  case (Suc n)
  from Suc.hyps(2) Suc.prems have h: "h < e" "h < capacity" "h < length es" by simp_all
  show ?case
  proof (cases "entry_key (es ! h) = 0")
    case True
    with h show ?thesis by (auto simp: find_index_loop.simps[of lone kb es capacity h])
  next
    case False
    with Suc.prems(5)[of h] h obtain eb where eb: "value_bytes lone (entry_key (es ! h)) = Some eb"
      by auto
    show ?thesis
    proof (cases "eb = kb")
      case True
      with h False eb show ?thesis
        by (auto simp: find_index_loop.simps[of lone kb es capacity h] lone_bytes_equals_iff)
    next
      case ne: False
      have n: "n = e - (h + 1)" using Suc.hyps(2) by simp
      have "\<exists>m. h + 1 \<le> m \<and> m \<le> e \<and> find_index_loop lone kb es capacity (h + 1) = Inr m"
      proof (rule Suc.hyps(1)[OF n])
        show "h + 1 \<le> e" using h by simp
        show "e < capacity" "e < length es" "entry_key (es ! e) = 0" by fact+
        show "value_bytes lone (entry_key (es ! m)) \<noteq> None"
          if "h + 1 \<le> m" "m < e" "entry_key (es ! m) \<noteq> 0" for m
          using Suc.prems(5)[of m] that by simp
      qed
      then obtain m where "h + 1 \<le> m" "m \<le> e" "find_index_loop lone kb es capacity (h + 1) = Inr m"
        by blast
      moreover have "find_index_loop lone kb es capacity h = find_index_loop lone kb es capacity (h + 1)"
        using h False eb ne
        by (simp add: find_index_loop.simps[of lone kb es capacity h] lone_bytes_equals_iff)
      ultimately show ?thesis
        by (intro exI[of _ m]) simp
    qed
  qed
qed

lemma lone_table_get_miss:
  assumes "cells lone table = Some (LONE_TABLE count capacity entries prototype)"
    and "lone_table_entry_find_index_for lone key entries capacity = Inr i"
    and "arrays lone entries = Some es" "entry_key (es ! i) = 0"
  shows "lone_table_get lone table key = prototype_lookup lone prototype key"
  using assms by (simp add: lone_table_get.simps[of lone table key] prototype_lookup_def)

lemma lone_table_get_after_delete:
  assumes t: "cells lone table = Some (LONE_TABLE count capacity entries prototype)"
    and es: "arrays lone entries = Some es" "length es = capacity"
    and nw: "no_wrap lone capacity es" and dk: "distinct_keys lone es"
    and d: "lone_table_delete lone table key = Some (Inr lone')"
  shows "lone_table_get lone' table key = prototype_lookup lone' prototype key"
  using d t es(1)
proof (cases rule: lone_table_delete_cases)
  case (absent i)
  with t es show ?thesis by (simp add: lone_table_get_miss)
next
  case (present i es1 i1)
  from present(1) obtain es0 kb where F: "arrays lone entries = Some es0"
    "value_bytes lone key = Some kb" "capacity \<noteq> 0"
    "lone_table_compute_hash_for lone key capacity = Inr (unat (fnv_1a kb) mod capacity)"
    "find_index_loop lone kb es0 capacity (unat (fnv_1a kb) mod capacity) = Inr i"
    by (rule lone_table_entry_find_index_for_result)
  let ?h = "unat (fnv_1a kb) mod capacity"
  from F(1) es have "es0 = es" by simp
  note R = find_index_loop_result[OF F(5)[unfolded \<open>es0 = es\<close>]]
  from R have i: "?h \<le> i" "i < length es" by simp_all
  from R present(2) have ikb: "value_bytes lone (entry_key (es ! i)) = Some kb" by simp
  from delete_loop_result[OF present(3)] i(2) present(2) nw
  have P: "length es1 = length es" "i1 < length es" "entry_key (es1 ! i1) \<noteq> 0"
    "\<forall>m<length es. m \<noteq> i1 \<longrightarrow> entry_key (es1 ! m) \<noteq> 0 \<longrightarrow>
         (\<exists>m'<length es. m' \<noteq> i \<and> es ! m' = es1 ! m)"
    "i \<le> i1" "no_wrap lone capacity es1"
    unfolding delete_loop_post_def by blast+
  let ?es2 = "es1[i1 := \<lparr>entry_key = 0, entry_value = 0\<rparr>]"
  have c': "cells lone' table
      = Some (LONE_TABLE (if count = 0 then 2 ^ 64 - 1 else count - 1) capacity entries prototype)"
    and a': "arrays lone' entries = Some ?es2"
    using present(4) by simp_all
  have vb: "value_bytes lone' = value_bytes lone"
  proof
    fix x show "value_bytes lone' x = value_bytes lone x"
      using present(4) t by (cases "x = table") (simp_all add: value_bytes_def)
  qed
  have valid: "value_bytes lone (entry_key (?es2 ! m)) \<noteq> None"
    if "?h \<le> m" "m < i1" "entry_key (?es2 ! m) \<noteq> 0" for m
  proof -
    from that P(1,2) have m: "m < length es1" "entry_key (es1 ! m) \<noteq> 0" "?es2 ! m = es1 ! m"
      by simp_all
    from no_wrap_nth[OF P(6) m(1,2)] m(3) show ?thesis
      by (auto simp: lone_table_compute_hash_for_def split: option.splits)
  qed
  have "\<exists>m. ?h \<le> m \<and> m \<le> i1 \<and> find_index_loop lone kb ?es2 capacity ?h = Inr m"
  proof (rule find_index_loop_reaches_empty)
    show "?h \<le> i1" using i(1) P(5) by simp
    show "i1 < capacity" "i1 < length ?es2" using P(1,2) es(2) by simp_all
    show "entry_key (?es2 ! i1) = 0" using P(1,2) by simp
  qed (rule valid)
  then obtain m where m: "find_index_loop lone kb ?es2 capacity ?h = Inr m" by blast
  note R2 = find_index_loop_result[OF m]
  have empty: "entry_key (?es2 ! m) = 0"
  proof (rule ccontr)
    assume o: "entry_key (?es2 ! m) \<noteq> 0"
    with R2 have mkb: "value_bytes lone (entry_key (?es2 ! m)) = Some kb" by simp
    from o P(1,2) have mi: "m \<noteq> i1" by auto
    with R2 P(1) have eq: "?es2 ! m = es1 ! m" "m < length es" by simp_all
    from P(4) eq o mi obtain m' where m': "m' < length es" "m' \<noteq> i" "es ! m' = es1 ! m"
      by auto
    from distinct_keys_nth[OF dk m'(1) i(2) m'(2)] m'(3) eq o present(2) mkb ikb
    show False by simp
  qed
  have "lone_table_entry_find_index_for lone' key entries capacity = Inr m"
    using m F(2,3) a' vb find_index_loop_frame[OF vb]
    by (simp add: lone_table_entry_find_index_for_def lone_table_compute_hash_for_def)
  from lone_table_get_miss[OF c' this a' empty] show ?thesis .
qed

lemma lone_list_create_nil_cell:
  "lone_list_create_nil lone = Inr (lone1, r) \<Longrightarrow> cells lone1 r = Some (LONE_LIST 0 0)"
  by (auto simp: lone_list_create_nil_def lone_list_create_def split: sum.splits)

lemma prototype_scenario:
  "\<exists>lone1 parent lone2 x lone3 one lone4 lone5 child.
     lone_table_create (lone_lisp_initialize 65536) 2 0 = Inr (lone1, parent) \<and>
     lone_symbol_create lone1 ''x'' 1 = Inr (lone2, x) \<and>
     lone_integer_create lone2 1 = Inr (lone3, one) \<and>
     lone_table_set lone3 parent x one = Inr lone4 \<and>
     lone_table_create lone4 2 parent = Inr (lone5, child) \<and>
     (\<exists>entries. cells lone5 child = Some (LONE_TABLE 0 2 entries parent) \<and>
        arrays lone5 entries = Some (replicate 2 \<lparr>entry_key = 0, entry_value = 0\<rparr>)) \<and>
     lone_table_get lone5 child x = Some (Inr (lone5, one)) \<and>
     lone_table_delete lone5 child x = Some (Inr lone5) \<and>
     lone_table_get lone5 parent x = Some (Inr (lone5, one))"
  by (simp add: table_eval alloc_eval replicate_2 lone_table_delete_def lone_table_get.simps)

text \<open>
  Claim C4: after a key is deleted from a table, a lookup of the key falls through to
  the prototype chain, or yields nil when the table has no prototype; in particular,
  with a child table that has no entries of its own and the prototype \<^verbatim>\<open>{x: 1}\<close>, the
  lookup of \<^verbatim>\<open>x\<close> in the child yields 1, and deleting \<^verbatim>\<open>x\<close> from the child changes
  nothing and leaves the \<^verbatim>\<open>x\<close> of the parent as it was.

  The table is one whose occupied keys differ in content and are at or after their
  hash positions, as the insertions of the source leave them. When
  \<^verbatim>\<open>lone_table_delete\<close> returns, \<^verbatim>\<open>lone_table_get\<close> on the key misses in the table itself
  and does what the lookup in the prototype does: \<open>prototype_lookup\<close>. With no
  prototype that is the result of \<^verbatim>\<open>lone_list_create_nil\<close>, a nil cell when it returns.
\<close>

theorem lone_table_get_after_delete_falls_through:
  "(cells lone table = Some (LONE_TABLE count capacity entries prototype) \<and>
    arrays lone entries = Some es \<and> length es = capacity \<and>
    no_wrap lone capacity es \<and> distinct_keys lone es \<and>
    lone_table_delete lone table key = Some (Inr lone') \<longrightarrow>
      lone_table_get lone' table key = prototype_lookup lone' prototype key \<and>
      (prototype = 0 \<longrightarrow>
         lone_table_get lone' table key = Some (lone_list_create_nil lone') \<and>
         (\<forall>lone'' r. lone_list_create_nil lone' = Inr (lone'', r) \<longrightarrow>
            cells lone'' r = Some (LONE_LIST 0 0)))) \<and>
   (\<exists>lone1 parent lone2 x lone3 one lone4 lone5 child.
     lone_table_create (lone_lisp_initialize 65536) 2 0 = Inr (lone1, parent) \<and>
     lone_symbol_create lone1 ''x'' 1 = Inr (lone2, x) \<and>
     lone_integer_create lone2 1 = Inr (lone3, one) \<and>
     lone_table_set lone3 parent x one = Inr lone4 \<and>
     lone_table_create lone4 2 parent = Inr (lone5, child) \<and>
     (\<exists>entries. cells lone5 child = Some (LONE_TABLE 0 2 entries parent) \<and>
        arrays lone5 entries = Some (replicate 2 \<lparr>entry_key = 0, entry_value = 0\<rparr>)) \<and>
     lone_table_get lone5 child x = Some (Inr (lone5, one)) \<and>
     lone_table_delete lone5 child x = Some (Inr lone5) \<and>
     lone_table_get lone5 parent x = Some (Inr (lone5, one)))"
proof (intro conjI impI)
  assume a: "cells lone table = Some (LONE_TABLE count capacity entries prototype) \<and>
    arrays lone entries = Some es \<and> length es = capacity \<and>
    no_wrap lone capacity es \<and> distinct_keys lone es \<and>
    lone_table_delete lone table key = Some (Inr lone')"
  then show g: "lone_table_get lone' table key = prototype_lookup lone' prototype key"
    using lone_table_get_after_delete[of lone table count capacity entries prototype es key lone']
    by blast
  assume "prototype = 0"
  with g show "lone_table_get lone' table key = Some (lone_list_create_nil lone')"
    by (simp add: prototype_lookup_def)
  show "\<forall>lone'' r. lone_list_create_nil lone' = Inr (lone'', r) \<longrightarrow>
            cells lone'' r = Some (LONE_LIST 0 0)"
    using lone_list_create_nil_cell by blast
next
  show "\<exists>lone1 parent lone2 x lone3 one lone4 lone5 child.
     lone_table_create (lone_lisp_initialize 65536) 2 0 = Inr (lone1, parent) \<and>
     lone_symbol_create lone1 ''x'' 1 = Inr (lone2, x) \<and>
     lone_integer_create lone2 1 = Inr (lone3, one) \<and>
     lone_table_set lone3 parent x one = Inr lone4 \<and>
     lone_table_create lone4 2 parent = Inr (lone5, child) \<and>
     (\<exists>entries. cells lone5 child = Some (LONE_TABLE 0 2 entries parent) \<and>
        arrays lone5 entries = Some (replicate 2 \<lparr>entry_key = 0, entry_value = 0\<rparr>)) \<and>
     lone_table_get lone5 child x = Some (Inr (lone5, one)) \<and>
     lone_table_delete lone5 child x = Some (Inr lone5) \<and>
     lone_table_get lone5 parent x = Some (Inr (lone5, one))"
    by (rule prototype_scenario)
qed

lemma delete_scenario:
  "\<exists>lone1 table lone2 a lone3 v lone4 entries es lone5 lone6 r.
     lone_table_create (lone_lisp_initialize 65536) 2 0 = Inr (lone1, table) \<and>
     lone_symbol_create lone1 ''a'' 1 = Inr (lone2, a) \<and>
     lone_integer_create lone2 1 = Inr (lone3, v) \<and>
     lone_table_set lone3 table a v = Inr lone4 \<and>
     cells lone4 table = Some (LONE_TABLE 1 2 entries 0) \<and>
     arrays lone4 entries = Some es \<and> length es = 2 \<and>
     no_wrap lone4 2 es \<and> distinct_keys lone4 es \<and>
     lone_table_get lone4 table a = Some (Inr (lone4, v)) \<and>
     lone_table_delete lone4 table a = Some (Inr lone5) \<and>
     lone_list_create_nil lone5 = Inr (lone6, r) \<and> r \<noteq> v"
  by (simp add: table_eval alloc_eval replicate_2 lone_table_delete_def lone_table_get.simps
        delete_loop.simps distinct_keys_def occupied_def no_wrap_def upt_rec[of 0] upt_rec[of 1])

theorem lone_table_get_after_delete_falls_through_witness:
  "\<exists>lone4 table a v lone5 lone6 r.
     lone_table_get lone4 table a = Some (Inr (lone4, v)) \<and>
     lone_table_delete lone4 table a = Some (Inr lone5) \<and>
     lone_table_get lone5 table a = Some (Inr (lone6, r)) \<and>
     cells lone6 r = Some (LONE_LIST 0 0) \<and> r \<noteq> v"
proof -
  from delete_scenario obtain lone4 table a v entries es lone5 lone6 r where
    S: "cells lone4 table = Some (LONE_TABLE 1 2 entries 0)"
      "arrays lone4 entries = Some es" "length es = 2"
      "no_wrap lone4 2 es" "distinct_keys lone4 es"
      "lone_table_get lone4 table a = Some (Inr (lone4, v))"
      "lone_table_delete lone4 table a = Some (Inr lone5)"
      "lone_list_create_nil lone5 = Inr (lone6, r)" "r \<noteq> v"
    by blast
  from lone_table_get_after_delete_falls_through[of lone4 table 1 2 entries 0 es a lone5] S(1-5,7)
  have "lone_table_get lone5 table a = Some (lone_list_create_nil lone5)"
    and "\<forall>lone'' r. lone_list_create_nil lone5 = Inr (lone'', r) \<longrightarrow>
            cells lone'' r = Some (LONE_LIST 0 0)"
    by blast+
  then have "lone_table_get lone5 table a = Some (Inr (lone6, r))"
    "cells lone6 r = Some (LONE_LIST 0 0)"
    using S(8) by simp_all
  with S(6,7,9) show ?thesis
    by (intro exI[of _ lone4] exI[of _ table] exI[of _ a] exI[of _ v] exI[of _ lone5]
              exI[of _ lone6] exI[of _ r]) simp
qed

subsection \<open>An unterminated text\<close>

lemma consume_text_bytes_unterminated:
  "(\<And>i. position lexer \<le> i \<Longrightarrow> i < length (input lexer) \<Longrightarrow> input lexer ! i \<noteq> CHR 0x22) \<Longrightarrow>
   \<exists>lexer' len'. consume_text_bytes lexer len = (lexer', len', None)"
proof (induction lexer len rule: consume_text_bytes.induct)
  case (1 lexer len)
  show ?case
  proof (cases "lone_lexer_peek lexer")
    case None
    then show ?thesis by (simp add: consume_text_bytes.simps[of lexer])
  next
    case (Some c)
    then have c: "c = position lexer" "c < length (input lexer)"
      by (auto simp: lone_lexer_peek_def lone_lexer_peek_k_def split: if_splits)
    with "1.prems"[of c] have ne: "input lexer ! c \<noteq> CHR 0x22" by simp
    have "\<exists>lexer' len'. consume_text_bytes (lone_lexer_consume lexer) (len + 1) = (lexer', len', None)"
    proof (rule "1.IH"[OF Some ne])
      fix i
      assume "position (lone_lexer_consume lexer) \<le> i" "i < length (input (lone_lexer_consume lexer))"
      then show "input (lone_lexer_consume lexer) ! i \<noteq> CHR 0x22"
        using "1.prems"[of i]
        by (simp add: lone_lexer_consume_def lone_lexer_consume_k_def)
    qed
    with Some ne show ?thesis by (simp add: consume_text_bytes.simps[of lexer])
  qed
qed

text \<open>
  Claim C7 (an opening double quote with no closing double quote is a fatal lex error).
  The source does not reach \<^verbatim>\<open>lex_failed\<close> on such an input. When the lexer stands on a
  double quote and no other double quote follows before the end of the input, the loop
  of \<^verbatim>\<open>lone_lexer_consume_text\<close> ends with \<^verbatim>\<open>current\<close> null, and the function increments
  and dereferences it: \<^verbatim>\<open>lone_lexer_consume_text\<close> and \<^verbatim>\<open>lone_lex\<close> end in the dereference
  of a pointer computed from the null pointer, not in the exit of \<^verbatim>\<open>lex_failed\<close>.
\<close>

theorem lone_lex_unterminated_text:
  assumes "position lexer < length (input lexer)"
    and "input lexer ! position lexer = CHR 0x22"
    and "CHR 0x22 \<notin> set (drop (Suc (position lexer)) (input lexer))"
  shows "lone_lexer_consume_text lexer = Inl NullDereference \<and>
         lex_loop lexer tokens = Inl NullDereference \<and>
         lex_loop lexer tokens \<noteq> Inl LexFailed"
proof -
  have later: "input lexer ! i \<noteq> CHR 0x22" if "position lexer < i" "i < length (input lexer)" for i
  proof -
    from that have "input lexer ! i = drop (Suc (position lexer)) (input lexer) ! (i - Suc (position lexer))"
      by simp
    moreover from that have "i - Suc (position lexer) < length (drop (Suc (position lexer)) (input lexer))"
      by simp
    ultimately have "input lexer ! i \<in> set (drop (Suc (position lexer)) (input lexer))"
      by (metis nth_mem)
    with assms(3) show ?thesis by auto
  qed
  have peek: "lone_lexer_peek lexer = Some (position lexer)"
    using assms(1) by (simp add: lone_lexer_peek_def lone_lexer_peek_k_def)
  have "\<exists>lexer' len'. consume_text_bytes (lone_lexer_consume lexer) 0 = (lexer', len', None)"
  proof (rule consume_text_bytes_unterminated)
    fix i
    assume "position (lone_lexer_consume lexer) \<le> i" "i < length (input (lone_lexer_consume lexer))"
    then show "input (lone_lexer_consume lexer) ! i \<noteq> CHR 0x22"
      using later[of i] by (simp add: lone_lexer_consume_def lone_lexer_consume_k_def)
  qed
  then obtain lexer' len' where
    "consume_text_bytes (lone_lexer_consume lexer) 0 = (lexer', len', None)" by blast
  with peek assms(2) have t: "lone_lexer_consume_text lexer = Inl NullDereference"
    by (simp add: lone_lexer_consume_text_def)
  have "lex_token lexer (CHR 0x22) = lone_lexer_consume_text lexer"
    by (simp add: lex_token_def)
  with t peek assms(2) have "lex_loop lexer tokens = Inl NullDereference"
    by (simp add: lex_loop.simps[of lexer] lone_lexer_match_byte_def)
  with t show ?thesis by simp
qed

theorem lone_lex_unterminated_text_witness:
  "lone_lex \<lparr>input = CHR 0x22 # ''abc'', position = 0\<rparr> = Inl NullDereference"
  using lone_lex_unterminated_text[of "\<lparr>input = CHR 0x22 # ''abc'', position = 0\<rparr>" "[]"]
  by (simp add: lone_lex_def)

subsection \<open>The arena and the values\<close>

text \<open>
  The functions that pass the arena along differ from those on bytes and trees in one
  way only: they may end in \<open>OutOfMemory\<close>. When they do not, they end as the functions
  on bytes and trees do, and every pointer that was allocated before is allocated
  after. Which allocation finds no block depends on the blocks of the arena; the
  statements on the reader leave it open and hold for every arena.
\<close>

definition grows :: "lone_lisp \<Rightarrow> lone_lisp \<Rightarrow> bool" where
  "grows lone lone' = (\<forall>q. is_allocated lone q \<longrightarrow> is_allocated lone' q)"

definition erases :: "lone_lisp \<Rightarrow> error + (lone_lisp \<times> 'a) \<Rightarrow> error + 'a \<Rightarrow> bool" where
  "erases lone heap pure =
     (heap = Inl OutOfMemory \<or>
      (case pure of
         Inl e \<Rightarrow> heap = Inl e
       | Inr x \<Rightarrow> (\<exists>lone1. heap = Inr (lone1, x) \<and> grows lone lone1)))"

lemma grows_refl: "grows lone lone"
  by (simp add: grows_def)

lemma grows_trans: "grows a b \<Longrightarrow> grows b c \<Longrightarrow> grows a c"
  by (simp add: grows_def)

lemma grows_memory: "grows a b \<Longrightarrow> memory c = memory b \<Longrightarrow> grows a c"
  by (simp add: grows_def is_allocated_used_pointers)

lemma block_pointer_positive: "0 < block_pointer bs k"
  by (induction bs k rule: block_pointer.induct) (simp_all add: sizeof_lone_memory_def)

lemma is_allocated_not_null: "is_allocated lone p \<Longrightarrow> p \<noteq> 0"
  using block_pointer_positive[of "memory lone"] by (auto simp: is_allocated_iff)

lemma lone_allocate_cases:
  "lone_allocate lone n = Inl OutOfMemory \<or>
   (\<exists>lone1 p. lone_allocate lone n = Inr (lone1, p) \<and> grows lone lone1 \<and> is_allocated lone1 p)"
proof (cases "lone_allocate lone n")
  case (Inl e)
  then show ?thesis by (auto simp: lone_allocate_def Let_def split: option.splits)
next
  case (Inr t)
  obtain lone1 p where t: "t = (lone1, p)" by (cases t)
  from lone_allocate_is_allocated(2)[OF Inr[unfolded t]] Inr t show ?thesis
    by (auto simp: grows_def)
qed

lemma lone_value_create_cases:
  "lone_value_create lone = Inl OutOfMemory \<or>
   (\<exists>lone1 v. lone_value_create lone = Inr (lone1, v) \<and> grows lone lone1)"
proof -
  from lone_allocate_cases[of lone sizeof_lone_values] show ?thesis
  proof
    assume "lone_allocate lone sizeof_lone_values = Inl OutOfMemory"
    then show ?thesis by (simp add: lone_value_create_def)
  next
    assume "\<exists>lone1 p. lone_allocate lone sizeof_lone_values = Inr (lone1, p) \<and>
              grows lone lone1 \<and> is_allocated lone1 p"
    then obtain lone1 p where a: "lone_allocate lone sizeof_lone_values = Inr (lone1, p)"
      and g: "grows lone lone1" by blast
    have "grows lone (lone1\<lparr>lone_values := p # lone_values lone1\<rparr>)"
      by (rule grows_memory[OF g]) simp
    with a show ?thesis by (simp add: lone_value_create_def)
  qed
qed

lemma lone_list_create_nil_cases:
  "lone_list_create_nil lone = Inl OutOfMemory \<or>
   (\<exists>lone1 v. lone_list_create_nil lone = Inr (lone1, v) \<and> grows lone lone1)"
proof -
  from lone_value_create_cases[of lone] show ?thesis
  proof
    assume "lone_value_create lone = Inl OutOfMemory"
    then show ?thesis by (simp add: lone_list_create_nil_def lone_list_create_def)
  next
    assume "\<exists>lone1 v. lone_value_create lone = Inr (lone1, v) \<and> grows lone lone1"
    then obtain lone1 v where a: "lone_value_create lone = Inr (lone1, v)"
      and g: "grows lone lone1" by blast
    have "grows lone (lone1\<lparr>cells := (cells lone1)(v \<mapsto> LONE_LIST 0 0)\<rparr>)"
      by (rule grows_memory[OF g]) simp
    with a show ?thesis by (simp add: lone_list_create_nil_def lone_list_create_def)
  qed
qed

lemma lone_integer_create_cases:
  "lone_integer_create lone n = Inl OutOfMemory \<or>
   (\<exists>lone1 v. lone_integer_create lone n = Inr (lone1, v) \<and> grows lone lone1)"
proof -
  from lone_value_create_cases[of lone] show ?thesis
  proof
    assume "lone_value_create lone = Inl OutOfMemory"
    then show ?thesis by (simp add: lone_integer_create_def)
  next
    assume "\<exists>lone1 v. lone_value_create lone = Inr (lone1, v) \<and> grows lone lone1"
    then obtain lone1 v where a: "lone_value_create lone = Inr (lone1, v)"
      and g: "grows lone lone1" by blast
    have "grows lone (lone1\<lparr>cells := (cells lone1)(v \<mapsto> LONE_INTEGER n)\<rparr>)"
      by (rule grows_memory[OF g]) simp
    with a show ?thesis by (simp add: lone_integer_create_def)
  qed
qed

lemma lone_bytes_create_cases:
  "lone_bytes_create lone bytes count = Inl OutOfMemory \<or>
   (\<exists>lone1 v copy. lone_bytes_create lone bytes count = Inr (lone1, v) \<and> grows lone lone1 \<and>
      cells lone1 v = Some (LONE_BYTES count copy))"
proof -
  from lone_value_create_cases[of lone] show ?thesis
  proof
    assume "lone_value_create lone = Inl OutOfMemory"
    then show ?thesis by (simp add: lone_bytes_create_def)
  next
    assume "\<exists>lone1 v. lone_value_create lone = Inr (lone1, v) \<and> grows lone lone1"
    then obtain lone1 v where a: "lone_value_create lone = Inr (lone1, v)"
      and g: "grows lone lone1" by blast
    from lone_allocate_cases[of lone1 count] show ?thesis
    proof
      assume "lone_allocate lone1 count = Inl OutOfMemory"
      with a show ?thesis by (simp add: lone_bytes_create_def)
    next
      assume "\<exists>lone2 p. lone_allocate lone1 count = Inr (lone2, p) \<and> grows lone1 lone2 \<and>
                is_allocated lone2 p"
      then obtain lone2 p where b: "lone_allocate lone1 count = Inr (lone2, p)"
        and g2: "grows lone1 lone2" by blast
      have "grows lone (lone2\<lparr>buffers := (buffers lone2)(p \<mapsto> take count bytes),
                               cells := (cells lone2)(v \<mapsto> LONE_BYTES count p)\<rparr>)"
        by (rule grows_memory[OF grows_trans[OF g g2]]) simp
      with a b show ?thesis by (simp add: lone_bytes_create_def)
    qed
  qed
qed

lemma lone_symbol_create_cases:
  "lone_symbol_create lone bytes count = Inl OutOfMemory \<or>
   (\<exists>lone1 v. lone_symbol_create lone bytes count = Inr (lone1, v) \<and> grows lone lone1)"
proof -
  from lone_bytes_create_cases[of lone bytes count] show ?thesis
  proof
    assume "lone_bytes_create lone bytes count = Inl OutOfMemory"
    then show ?thesis by (simp add: lone_symbol_create_def)
  next
    assume "\<exists>lone1 v copy. lone_bytes_create lone bytes count = Inr (lone1, v) \<and>
              grows lone lone1 \<and> cells lone1 v = Some (LONE_BYTES count copy)"
    then obtain lone1 v copy where a: "lone_bytes_create lone bytes count = Inr (lone1, v)"
      and g: "grows lone lone1" and c: "cells lone1 v = Some (LONE_BYTES count copy)" by blast
    have "grows lone (lone1\<lparr>cells := (cells lone1)(v \<mapsto> LONE_SYMBOL count copy)\<rparr>)"
      by (rule grows_memory[OF g]) simp
    with a c show ?thesis by (simp add: lone_symbol_create_def)
  qed
qed

lemma lone_text_create_cases:
  "lone_text_create lone bytes count = Inl OutOfMemory \<or>
   (\<exists>lone1 v. lone_text_create lone bytes count = Inr (lone1, v) \<and> grows lone lone1)"
proof -
  from lone_bytes_create_cases[of lone bytes count] show ?thesis
  proof
    assume "lone_bytes_create lone bytes count = Inl OutOfMemory"
    then show ?thesis by (simp add: lone_text_create_def)
  next
    assume "\<exists>lone1 v copy. lone_bytes_create lone bytes count = Inr (lone1, v) \<and>
              grows lone lone1 \<and> cells lone1 v = Some (LONE_BYTES count copy)"
    then obtain lone1 v copy where a: "lone_bytes_create lone bytes count = Inr (lone1, v)"
      and g: "grows lone lone1" and c: "cells lone1 v = Some (LONE_BYTES count copy)" by blast
    have "grows lone (lone1\<lparr>cells := (cells lone1)(v \<mapsto> LONE_TEXT count copy)\<rparr>)"
      by (rule grows_memory[OF g]) simp
    with a c show ?thesis by (simp add: lone_text_create_def)
  qed
qed

lemma token_create_cases:
  "token_create lone token = Inl OutOfMemory \<or>
   (\<exists>lone1. token_create lone token = Inr lone1 \<and> grows lone lone1)"
proof (cases token)
  case (TInteger n)
  with lone_integer_create_cases[of lone n] show ?thesis by auto
next
  case (TSymbol bs)
  with lone_symbol_create_cases[of lone bs "length bs"] show ?thesis by auto
next
  case (TText bs)
  with lone_text_create_cases[of lone bs "length bs"] show ?thesis by auto
qed (simp_all add: grows_refl)

text \<open>A step of the arena is a step on bytes and trees, or the end in \<open>OutOfMemory\<close>.\<close>

lemma erasesI:
  "heap = Inl OutOfMemory \<Longrightarrow> erases lone heap pure"
  "pure = Inl e \<Longrightarrow> heap = Inl e \<Longrightarrow> erases lone heap pure"
  "pure = Inr x \<Longrightarrow> heap = Inr (lone1, x) \<Longrightarrow> grows lone lone1 \<Longrightarrow> erases lone heap pure"
  by (auto simp: erases_def)

lemma erases_grows:
  "grows lone lone1 \<Longrightarrow> erases lone1 heap pure \<Longrightarrow> erases lone heap pure"
  by (auto simp: erases_def split: sum.splits intro: grows_trans)

lemma lex_token_arena_erases:
  "erases lone (lex_token_arena lone lexer c) (lex_token lexer c)"
proof (cases "lex_token lexer c")
  case (Inl e)
  then show ?thesis by (simp add: erases_def lex_token_arena_def)
next
  case (Inr t)
  obtain lexer1 token_option where t: "t = (lexer1, token_option)" by (cases t)
  show ?thesis
  proof (cases token_option)
    case None
    with Inr t show ?thesis by (simp add: erases_def lex_token_arena_def grows_refl)
  next
    case (Some token)
    from token_create_cases[of lone token] Inr t Some show ?thesis
      by (auto simp: erases_def lex_token_arena_def)
  qed
qed

lemma lex_loop_arena_erases:
  "erases lone (lex_loop_arena lone lexer tokens) (lex_loop lexer tokens)"
proof (induction lexer tokens arbitrary: lone rule: lex_loop.induct)
  case (1 lexer tokens)
  show ?case
  proof (cases "lone_lexer_peek lexer")
    case None
    then show ?thesis
      by (simp add: lex_loop.simps[of lexer] lex_loop_arena.simps[of lone lexer] erases_def
                    grows_refl)
  next
    case (Some c)
    show ?thesis
    proof (cases "lone_lexer_match_byte (input lexer ! c) CHR '' ''")
      case True
      from 1(1)[OF Some True, of lone] Some True show ?thesis
        by (simp add: lex_loop.simps[of lexer] lex_loop_arena.simps[of lone lexer])
    next
      case False
      note step = lex_token_arena_erases[of lone lexer "input lexer ! c"]
      show ?thesis
      proof (cases "lex_token lexer (input lexer ! c)")
        case (Inl e)
        with step Some False show ?thesis
          by (auto simp: lex_loop.simps[of lexer] lex_loop_arena.simps[of lone lexer] erases_def)
      next
        case (Inr t)
        obtain lexer1 token_option where t: "t = (lexer1, token_option)" by (cases t)
        show ?thesis
        proof (cases token_option)
          case None
          with step Inr t Some False show ?thesis
            by (auto simp: lex_loop.simps[of lexer] lex_loop_arena.simps[of lone lexer]
                           erases_def)
        next
          case token: (Some token)
          from step Inr t token
          consider "lex_token_arena lone lexer (input lexer ! c) = Inl OutOfMemory"
            | lone1 where "lex_token_arena lone lexer (input lexer ! c) =
                             Inr (lone1, lexer1, Some token)" "grows lone lone1"
            by (auto simp: erases_def)
          then show ?thesis
          proof cases
            case 1
            with Some False show ?thesis
              by (simp add: lex_loop_arena.simps[of lone lexer] erases_def)
          next
            case (2 lone1)
            from lone_list_create_nil_cases[of lone1]
            consider "lone_list_create_nil lone1 = Inl OutOfMemory"
              | lone2 cell where "lone_list_create_nil lone1 = Inr (lone2, cell)"
                  "grows lone1 lone2"
              by blast
            then show ?thesis
            proof cases
              case 1
              with 2 Some False show ?thesis
                by (simp add: lex_loop_arena.simps[of lone lexer] erases_def)
            next
              case (2 lone2 cell)
              note nil_cell = this
              have heap: "lex_loop_arena lone lexer tokens =
                          lex_loop_arena lone2 lexer1 (tokens @ [token])"
                using \<open>lex_token_arena lone lexer (input lexer ! c) =
                        Inr (lone1, lexer1, Some token)\<close> nil_cell(1) Some False
                by (simp add: lex_loop_arena.simps[of lone lexer])
              have pure: "lex_loop lexer tokens = lex_loop lexer1 (tokens @ [token])"
                using Inr t token Some False by (simp add: lex_loop.simps[of lexer])
              have "erases lone2 (lex_loop_arena lone2 lexer1 (tokens @ [token]))
                      (lex_loop lexer1 (tokens @ [token]))"
                using "1.IH"(2)[OF Some False Inr[unfolded t token] refl refl] .
              then have "erases lone (lex_loop_arena lone2 lexer1 (tokens @ [token]))
                      (lex_loop lexer1 (tokens @ [token]))"
                by (rule erases_grows[OF grows_trans[OF \<open>grows lone lone1\<close> nil_cell(2)]])
              with heap pure show ?thesis by simp
            qed
          qed
        qed
      qed
    qed
  qed
qed

lemma lone_lex_arena_erases:
  "erases lone (lone_lex_arena lone lexer) (lone_lex lexer)"
proof -
  from lone_list_create_nil_cases[of lone]
  consider "lone_list_create_nil lone = Inl OutOfMemory"
    | lone1 cell where "lone_list_create_nil lone = Inr (lone1, cell)" "grows lone lone1"
    by blast
  then show ?thesis
  proof cases
    case 1
    then show ?thesis by (simp add: lone_lex_arena_def erases_def)
  next
    case (2 lone1 cell)
    from erases_grows[OF 2(2) lex_loop_arena_erases[of lone1 lexer "[]"]] 2(1)
    show ?thesis by (simp add: lone_lex_arena_def lone_lex_def)
  qed
qed

lemma lone_parse_arena_erases_aux:
  "\<forall>lone. erases lone (lone_parse_tokens_arena lone tokens) (lone_parse_tokens tokens)"
  "\<forall>lone. erases lone (lone_parse_list_arena lone tokens acc) (lone_parse_list tokens acc)"
proof (induction tokens and tokens acc rule: lone_parse_tokens_lone_parse_list.induct)
  case 1
  show ?case by (simp add: erases_def grows_refl)
next
  case (2 token rest)
  show ?case
  proof (intro allI)
    fix lone
    show "erases lone (lone_parse_tokens_arena lone (token # rest))
            (lone_parse_tokens (token # rest))"
    proof (cases "kind_of_token token = Opening")
      case True
      from lone_list_create_nil_cases[of lone]
      consider "lone_list_create_nil lone = Inl OutOfMemory"
        | lone1 cell where "lone_list_create_nil lone = Inr (lone1, cell)" "grows lone lone1"
        by blast
      then show ?thesis
      proof cases
        case 1
        with True show ?thesis by (simp add: erases_def)
      next
        case (2 lone1 cell)
        from "2.IH"[OF True] have "erases lone1 (lone_parse_list_arena lone1 rest [])
                                    (lone_parse_list rest [])" by blast
        from erases_grows[OF 2(2) this] 2(1) True show ?thesis by simp
      qed
    next
      case False
      then show ?thesis
        by (cases "kind_of_token token") (simp_all add: erases_def grows_refl)
    qed
  qed
next
  case (3 acc)
  show ?case by (simp add: erases_def grows_refl)
next
  case (4 current rest acc)
  show ?case
  proof (intro allI)
    fix lone
    show "erases lone (lone_parse_list_arena lone (current # rest) acc)
            (lone_parse_list (current # rest) acc)"
    proof (cases "closes_list current = Inr False")
      case False
      then show ?thesis
        by (cases "closes_list current") (auto simp: erases_def grows_refl)
    next
      case True
      have c1: "closes_list current \<noteq> Inr True" using True by simp
      have c2: "\<not> closes_list current \<noteq> Inr False" using True by simp
      from "4.IH"(1)[OF c1 c2]
      have first: "erases lone (lone_parse_tokens_arena lone (current # rest))
                     (lone_parse_tokens (current # rest))" by blast
      show ?thesis
      proof (cases "lone_parse_tokens (current # rest)")
        case (Inl e)
        with first True show ?thesis by (auto simp: erases_def)
      next
        case (Inr t)
        obtain v tokens' where t: "t = (v, tokens')" by (cases t)
        from first Inr t
        consider "lone_parse_tokens_arena lone (current # rest) = Inl OutOfMemory"
          | lone1 where "lone_parse_tokens_arena lone (current # rest) = Inr (lone1, v, tokens')"
              "grows lone lone1"
          by (auto simp: erases_def)
        then show ?thesis
        proof cases
          case 1
          with True show ?thesis by (simp add: erases_def)
        next
          case (2 lone1)
          note parsed = this
          from lone_list_create_nil_cases[of lone1]
          consider "lone_list_create_nil lone1 = Inl OutOfMemory"
            | lone2 cell where "lone_list_create_nil lone1 = Inr (lone2, cell)"
                "grows lone1 lone2"
            by blast
          then show ?thesis
          proof cases
            case 1
            with parsed True show ?thesis by (simp add: erases_def)
          next
            case (2 lone2 cell)
            from "4.IH"(2)[OF c1 c2 Inr[unfolded t] refl]
            have "erases lone2 (lone_parse_list_arena lone2 tokens' (acc @ [v]))
                    (lone_parse_list tokens' (acc @ [v]))" by blast
            from erases_grows[OF grows_trans[OF parsed(2) 2(2)] this] parsed(1) 2(1) True Inr t
            show ?thesis by simp
          qed
        qed
      qed
    qed
  qed
qed

lemma lone_parse_arena_erases:
  "erases lone (lone_parse_arena lone bytes remainder) (lone_parse bytes remainder)"
proof (cases "lone_lex \<lparr>input = bytes, position = 0\<rparr>")
  case (Inl e)
  with lone_lex_arena_erases[of lone "\<lparr>input = bytes, position = 0\<rparr>"] show ?thesis
    by (auto simp: erases_def lone_parse_arena_def lone_parse_def)
next
  case (Inr lexed)
  with lone_lex_arena_erases[of lone "\<lparr>input = bytes, position = 0\<rparr>"]
  consider "lone_lex_arena lone \<lparr>input = bytes, position = 0\<rparr> = Inl OutOfMemory"
    | lone1 where "lone_lex_arena lone \<lparr>input = bytes, position = 0\<rparr> = Inr (lone1, lexed)"
        "grows lone lone1"
    by (auto simp: erases_def)
  then show ?thesis
  proof cases
    case 1
    then show ?thesis by (simp add: erases_def lone_parse_arena_def)
  next
    case (2 lone1)
    from lone_parse_arena_erases_aux(1)
    have "erases lone1 (lone_parse_tokens_arena lone1
                          (if remainder \<noteq> [] then remainder @ lexed else lexed))
            (lone_parse_tokens (if remainder \<noteq> [] then remainder @ lexed else lexed))"
      by blast
    from erases_grows[OF 2(2) this] 2(1) Inr show ?thesis
      by (simp add: lone_parse_arena_def lone_parse_def Let_def)
  qed
qed

text \<open>
  \<^verbatim>\<open>lone_reallocate\<close> of an allocated block: the new block is allocated, the old one is
  not, and the other blocks are as before.
\<close>

lemma lone_reallocate_cases:
  assumes "is_allocated lone pointer"
  shows "lone_reallocate lone pointer bytes sz = Inl OutOfMemory \<or>
         (\<exists>lone1 new. lone_reallocate lone pointer bytes sz =
                         Inr (lone1, new, moved_bytes bytes sz) \<and>
            new \<noteq> pointer \<and> \<not> is_allocated lone new \<and>
            is_allocated lone1 new \<and> \<not> is_allocated lone1 pointer \<and>
            (\<forall>q. q \<noteq> pointer \<longrightarrow> is_allocated lone q \<longrightarrow> is_allocated lone1 q))"
proof (cases "lone_allocate lone sz")
  case (Inl e)
  then have "e = OutOfMemory" by (auto simp: lone_allocate_def Let_def split: option.splits)
  with Inl show ?thesis by (simp add: lone_reallocate_def)
next
  case (Inr t)
  obtain lone1 new where t: "t = (lone1, new)" by (cases t)
  note a = lone_allocate_is_allocated[OF Inr[unfolded t]]
  from a(1) assms have ne: "new \<noteq> pointer" by auto
  from a(2) assms have "is_allocated lone1 pointer" by simp
  then obtain k where "block_of_pointer (memory lone1) pointer = Some k"
    by (auto simp: is_allocated_def split: option.splits)
  then obtain lone2 where d: "lone_deallocate lone1 pointer = Inr lone2"
    by (simp add: lone_deallocate_def Let_def)
  note b = lone_deallocate_is_allocated[OF d]
  have "lone_reallocate lone pointer bytes sz = Inr (lone2, new, moved_bytes bytes sz)"
    using Inr t d is_allocated_not_null[OF assms] by (simp add: lone_reallocate_def)
  moreover have "is_allocated lone2 new" using a(2)[of new] b[of new] ne by simp
  moreover have "\<not> is_allocated lone2 pointer" using b[of pointer] by simp
  moreover have "\<forall>q. q \<noteq> pointer \<longrightarrow> is_allocated lone q \<longrightarrow> is_allocated lone2 q"
    using a(2) b by simp
  ultimately show ?thesis using ne a(1) by blast
qed


text \<open>
  The loop of \<^verbatim>\<open>lone_read_from_file_descriptor\<close> in the arena, on a buffer that is
  allocated: it ends in \<open>OutOfMemory\<close> or as the loop on the bytes does, with a buffer
  that is allocated; the blocks other than the buffer stay allocated.
\<close>

definition read_loop_follows ::
  "linux_file \<Rightarrow> byte list \<Rightarrow> nat \<Rightarrow> nat \<Rightarrow> nat \<Rightarrow> nat \<Rightarrow>
   error + (linux_file \<times> byte list \<times> nat \<times> nat \<times> nat) \<Rightarrow> bool" where
  "read_loop_follows fd buf sz pos allocated total_read r =
     (\<forall>lone pointer. is_allocated lone pointer \<longrightarrow>
     (read_loop lone fd pointer buf sz pos allocated total_read = Some (Inl OutOfMemory) \<or>
      (\<forall>e. r = Inl e \<longrightarrow>
         read_loop lone fd pointer buf sz pos allocated total_read = Some (Inl e)) \<and>
      (\<forall>fd' buf' pos' allocated' total_read'.
         r = Inr (fd', buf', pos', allocated', total_read') \<longrightarrow>
         (\<exists>lone1 pointer1.
            read_loop lone fd pointer buf sz pos allocated total_read =
              Some (Inr (lone1, fd', pointer1, buf', pos', allocated', total_read')) \<and>
            is_allocated lone1 pointer1 \<and>
            (\<forall>q. q \<noteq> pointer \<longrightarrow> is_allocated lone q \<longrightarrow> is_allocated lone1 q)))))"

lemma read_loop_erases:
  assumes "read_loop_pure fd buf sz pos allocated total_read = Some r"
  shows "read_loop_follows fd buf sz pos allocated total_read r"
proof (rule read_loop_pure.raw_induct[where P = read_loop_follows, rotated, OF assms])
  fix f fd buf sz pos allocated total_read r
  assume IH: "\<And>fd buf sz pos allocated total_read r.
                f fd buf sz pos allocated total_read = Some r \<Longrightarrow>
                read_loop_follows fd buf sz pos allocated total_read r"
  assume step: "(case linux_read fd sz of
        None \<Rightarrow> Some (Inl ReadFailed)
      | Some (bytes, fd') \<Rightarrow>
          if pos + length bytes > length buf then Some (Inl (OutOfBounds (length buf)))
          else
            let buf' = take pos buf @ bytes @ drop (pos + length bytes) buf;
                bytes_read = length bytes;
                total_read' = total_read + bytes_read;
                pos' = pos + bytes_read
            in if bytes_read = sz
               then f fd' (moved_bytes buf' (allocated + sz)) sz pos'
                      (allocated + sz) total_read'
               else Some (Inr (fd', buf', pos', allocated, total_read'))) = Some r"
  show "read_loop_follows fd buf sz pos allocated total_read r"
    unfolding read_loop_follows_def
  proof (intro allI impI)
    fix lone pointer
    assume al: "is_allocated lone pointer"
    show "read_loop lone fd pointer buf sz pos allocated total_read = Some (Inl OutOfMemory) \<or>
      (\<forall>e. r = Inl e \<longrightarrow>
         read_loop lone fd pointer buf sz pos allocated total_read = Some (Inl e)) \<and>
      (\<forall>fd' buf' pos' allocated' total_read'.
         r = Inr (fd', buf', pos', allocated', total_read') \<longrightarrow>
         (\<exists>lone1 pointer1.
            read_loop lone fd pointer buf sz pos allocated total_read =
              Some (Inr (lone1, fd', pointer1, buf', pos', allocated', total_read')) \<and>
            is_allocated lone1 pointer1 \<and>
            (\<forall>q. q \<noteq> pointer \<longrightarrow> is_allocated lone q \<longrightarrow> is_allocated lone1 q)))"
    proof (cases "linux_read fd sz")
      case None
      with step show ?thesis by (auto simp: read_loop.simps[of lone fd])
    next
      case (Some a)
      obtain bytes fd1 where a: "a = (bytes, fd1)" by (cases a)
      show ?thesis
      proof (cases "length buf < pos + length bytes")
        case True
        with Some a step show ?thesis by (auto simp: read_loop.simps[of lone fd])
      next
        case fits: False
        show ?thesis
        proof (cases "length bytes = sz")
          case False
          with Some a fits step al show ?thesis
            by (auto simp: read_loop.simps[of lone fd] Let_def)
        next
          case True
          let ?buf' = "take pos buf @ bytes @ drop (pos + length bytes) buf"
          from Some a fits True step
          have rec: "f fd1 (moved_bytes ?buf' (allocated + sz)) sz (pos + length bytes)
                       (allocated + sz) (total_read + length bytes) = Some r"
            by (simp add: Let_def)
          from lone_reallocate_cases[OF al, of ?buf' "allocated + sz"]
          consider "lone_reallocate lone pointer ?buf' (allocated + sz) = Inl OutOfMemory"
            | lone1 new where
                "lone_reallocate lone pointer ?buf' (allocated + sz) =
                   Inr (lone1, new, moved_bytes ?buf' (allocated + sz))"
                "\<not> is_allocated lone new" "is_allocated lone1 new"
                "\<forall>q. q \<noteq> pointer \<longrightarrow> is_allocated lone q \<longrightarrow> is_allocated lone1 q"
            by blast
          then show ?thesis
          proof cases
            case 1
            with Some a fits True show ?thesis
              by (simp add: read_loop.simps[of lone fd] Let_def)
          next
            case (2 lone1 new)
            have heap: "read_loop lone fd pointer buf sz pos allocated total_read =
                        read_loop lone1 fd1 new (moved_bytes ?buf' (allocated + sz)) sz
                          (pos + length bytes) (allocated + sz) (total_read + length bytes)"
              using Some a fits True 2(1) by (simp add: read_loop.simps[of lone fd] Let_def)
            from IH[OF rec, unfolded read_loop_follows_def] 2(3)
            have ih: "read_loop lone1 fd1 new (moved_bytes ?buf' (allocated + sz)) sz
                          (pos + length bytes) (allocated + sz) (total_read + length bytes) =
                        Some (Inl OutOfMemory) \<or>
              (\<forall>e. r = Inl e \<longrightarrow>
                 read_loop lone1 fd1 new (moved_bytes ?buf' (allocated + sz)) sz
                          (pos + length bytes) (allocated + sz) (total_read + length bytes) =
                   Some (Inl e)) \<and>
              (\<forall>fd' buf' pos' allocated' total_read'.
                 r = Inr (fd', buf', pos', allocated', total_read') \<longrightarrow>
                 (\<exists>lone2 pointer1.
                    read_loop lone1 fd1 new (moved_bytes ?buf' (allocated + sz)) sz
                          (pos + length bytes) (allocated + sz) (total_read + length bytes) =
                      Some (Inr (lone2, fd', pointer1, buf', pos', allocated', total_read')) \<and>
                    is_allocated lone2 pointer1 \<and>
                    (\<forall>q. q \<noteq> new \<longrightarrow> is_allocated lone1 q \<longrightarrow> is_allocated lone2 q)))"
              by blast
            have frame: "\<forall>q. q \<noteq> pointer \<longrightarrow> is_allocated lone q \<longrightarrow> is_allocated lone2 q"
              if "\<forall>q. q \<noteq> new \<longrightarrow> is_allocated lone1 q \<longrightarrow> is_allocated lone2 q" for lone2
              using that 2(2,4) by auto
            from ih show ?thesis unfolding heap using frame by blast
          qed
        qed
      qed
    qed
  qed
qed

lemma lone_read_from_file_descriptor_erases:
  assumes "lone_read_from_file_descriptor_pure reader = Some r"
    and "is_allocated lone pointer"
  shows "lone_read_from_file_descriptor lone (reader\<lparr>buffer_pointer := pointer\<rparr>) =
           Some (Inl OutOfMemory) \<or>
      (\<forall>e. r = Inl e \<longrightarrow>
         lone_read_from_file_descriptor lone (reader\<lparr>buffer_pointer := pointer\<rparr>) =
           Some (Inl e)) \<and>
      (\<forall>reader1 n.
         r = Inr (reader1, n) \<longrightarrow>
         (\<exists>lone1 pointer1.
            lone_read_from_file_descriptor lone (reader\<lparr>buffer_pointer := pointer\<rparr>) =
              Some (Inr (lone1, reader1\<lparr>buffer_pointer := pointer1\<rparr>, n)) \<and>
            is_allocated lone1 pointer1 \<and>
            (\<forall>q. q \<noteq> pointer \<longrightarrow> is_allocated lone q \<longrightarrow> is_allocated lone1 q)))"
proof -
  from assms(1) obtain r0 where
    r0: "read_loop_pure (file_descriptor reader) (buffer reader) (length (buffer reader))
           (reader_position reader) (length (buffer reader)) 0 = Some r0"
    by (auto simp: lone_read_from_file_descriptor_pure_def split: option.splits)
  note e = read_loop_erases[OF r0, unfolded read_loop_follows_def, rule_format, OF assms(2)]
  show ?thesis
  proof (cases r0)
    case (Inl e0)
    with r0 assms(1) have "r = Inl e0" by (simp add: lone_read_from_file_descriptor_pure_def)
    with e Inl show ?thesis by (auto simp: lone_read_from_file_descriptor_def)
  next
    case (Inr t)
    obtain fd' buf' pos' allocated' total_read' where
      t: "t = (fd', buf', pos', allocated', total_read')" by (cases t)
    from r0 Inr t assms(1)
    have r: "r = Inr (reader\<lparr>file_descriptor := fd', buffer := buf', reader_position := pos'\<rparr>,
                      total_read')"
      by (simp add: lone_read_from_file_descriptor_pure_def)
    from e Inr t
    consider "read_loop lone (file_descriptor reader) pointer (buffer reader)
                (length (buffer reader)) (reader_position reader) (length (buffer reader)) 0 =
                Some (Inl OutOfMemory)"
      | lone1 pointer1 where
          "read_loop lone (file_descriptor reader) pointer (buffer reader)
             (length (buffer reader)) (reader_position reader) (length (buffer reader)) 0 =
             Some (Inr (lone1, fd', pointer1, buf', pos', allocated', total_read'))"
          "is_allocated lone1 pointer1"
          "\<forall>q. q \<noteq> pointer \<longrightarrow> is_allocated lone q \<longrightarrow> is_allocated lone1 q"
      by blast
    then show ?thesis
    proof cases
      case 1
      then show ?thesis by (simp add: lone_read_from_file_descriptor_def)
    next
      case (2 lone1 pointer1)
      have "lone_read_from_file_descriptor lone (reader\<lparr>buffer_pointer := pointer\<rparr>) =
              Some (Inr (lone1,
                         (reader\<lparr>file_descriptor := fd', buffer := buf',
                                 reader_position := pos'\<rparr>)\<lparr>buffer_pointer := pointer1\<rparr>,
                         total_read'))"
        using 2(1) by (simp add: lone_read_from_file_descriptor_def)
      with r 2(2,3) show ?thesis by auto
    qed
  qed
qed

text \<open>
  \<^verbatim>\<open>lone_read\<close> in the arena, with a buffer that is allocated: it ends in \<open>OutOfMemory\<close> or
  as \<^verbatim>\<open>lone_read\<close> on the bytes does, and the buffer it leaves is allocated.
\<close>

definition lone_read_follows ::
  "lone_reader \<Rightarrow> error + (lone_reader \<times> lone_tree) \<Rightarrow> bool" where
  "lone_read_follows reader r =
     (\<forall>lone pointer. is_allocated lone pointer \<longrightarrow>
     (lone_read lone (reader\<lparr>buffer_pointer := pointer\<rparr>) = Some (Inl OutOfMemory) \<or>
      (\<forall>e. r = Inl e \<longrightarrow>
         lone_read lone (reader\<lparr>buffer_pointer := pointer\<rparr>) = Some (Inl e)) \<and>
      (\<forall>reader' v.
         r = Inr (reader', v) \<longrightarrow>
         (\<exists>lone1 pointer1.
            lone_read lone (reader\<lparr>buffer_pointer := pointer\<rparr>) =
              Some (Inr (lone1, reader'\<lparr>buffer_pointer := pointer1\<rparr>, v)) \<and>
            is_allocated lone1 pointer1))))"

lemma lone_read_erases:
  assumes "lone_read_pure reader = Some r"
  shows "lone_read_follows reader r"
proof (rule lone_read_pure.raw_induct[where P = lone_read_follows, rotated, OF assms])
  fix f reader r
  assume IH: "\<And>reader r. f reader = Some r \<Longrightarrow> lone_read_follows reader r"
  assume step: "(case lone_read_from_file_descriptor_pure reader of
        None \<Rightarrow> None
      | Some (Inl e) \<Rightarrow> Some (Inl e)
      | Some (Inr (reader1, bytes_read)) \<Rightarrow>
          (case lone_parse (take (reader_position reader1) (buffer reader1))
                  (remaining_tokens reader1) of
             Inl e \<Rightarrow> Some (Inl e)
           | Inr (v, remainder) \<Rightarrow>
               let reader2 = reader1\<lparr>remaining_tokens := remainder\<rparr> in
               if bytes_read = 0 \<and> v = TNull then Some (Inr (reader2, TNull))
               else
                 let reader3 = (if bytes_read = 0 \<and> lone_is_nil v
                                then reader2\<lparr>finished := True\<rparr> else reader2)
                 in if v = TNull then f reader3
                    else Some (Inr (reader3\<lparr>reader_position := 0\<rparr>, v)))) = Some r"
  show "lone_read_follows reader r"
    unfolding lone_read_follows_def
  proof (intro allI impI)
    fix lone pointer
    assume al: "is_allocated lone pointer"
    let ?heap = "lone_read lone (reader\<lparr>buffer_pointer := pointer\<rparr>)"
    from step obtain r0 where
      r0: "lone_read_from_file_descriptor_pure reader = Some r0"
      by (auto split: option.splits)
    note e = lone_read_from_file_descriptor_erases[OF r0 al]
    show "?heap = Some (Inl OutOfMemory) \<or>
      (\<forall>e. r = Inl e \<longrightarrow> ?heap = Some (Inl e)) \<and>
      (\<forall>reader' v.
         r = Inr (reader', v) \<longrightarrow>
         (\<exists>lone1 pointer1.
            ?heap = Some (Inr (lone1, reader'\<lparr>buffer_pointer := pointer1\<rparr>, v)) \<and>
            is_allocated lone1 pointer1))"
    proof (cases r0)
      case (Inl e0)
      with r0 step have "r = Inl e0" by simp
      with e Inl show ?thesis
        by (auto simp: lone_read.simps[of lone "reader\<lparr>buffer_pointer := pointer\<rparr>"])
    next
      case (Inr t)
      obtain reader1 n where t: "t = (reader1, n)" by (cases t)
      from e Inr t
      consider "lone_read_from_file_descriptor lone (reader\<lparr>buffer_pointer := pointer\<rparr>) =
                  Some (Inl OutOfMemory)"
        | lone1 pointer1 where
            "lone_read_from_file_descriptor lone (reader\<lparr>buffer_pointer := pointer\<rparr>) =
               Some (Inr (lone1, reader1\<lparr>buffer_pointer := pointer1\<rparr>, n))"
            "is_allocated lone1 pointer1"
        by blast
      then show ?thesis
      proof cases
        case 1
        then show ?thesis
          by (simp add: lone_read.simps[of lone "reader\<lparr>buffer_pointer := pointer\<rparr>"])
      next
        case (2 lone1 pointer1)
        note read = this
        let ?bytes = "take (reader_position reader1) (buffer reader1)"
        from lone_bytes_create_cases[of lone1 "buffer reader1" "reader_position reader1"]
        consider "lone_bytes_create lone1 (buffer reader1) (reader_position reader1) =
                    Inl OutOfMemory"
          | lone2 bytes_value where
              "lone_bytes_create lone1 (buffer reader1) (reader_position reader1) =
                 Inr (lone2, bytes_value)" "grows lone1 lone2"
          by blast
        then show ?thesis
        proof cases
          case 1
          with read show ?thesis
            by (simp add: lone_read.simps[of lone "reader\<lparr>buffer_pointer := pointer\<rparr>"])
        next
          case (2 lone2 bytes_value)
          note copy = this
          note p = lone_parse_arena_erases[of lone2 ?bytes "remaining_tokens reader1"]
          show ?thesis
          proof (cases "lone_parse ?bytes (remaining_tokens reader1)")
            case (Inl e1)
            with r0 Inr t step have "r = Inl e1" by simp
            with p Inl read copy show ?thesis
              by (auto simp: erases_def
                             lone_read.simps[of lone "reader\<lparr>buffer_pointer := pointer\<rparr>"])
          next
            case parsed: (Inr u)
            obtain v remainder where u: "u = (v, remainder)" by (cases u)
            from p parsed u
            consider "lone_parse_arena lone2 ?bytes (remaining_tokens reader1) = Inl OutOfMemory"
              | lone3 where
                  "lone_parse_arena lone2 ?bytes (remaining_tokens reader1) =
                     Inr (lone3, v, remainder)" "grows lone2 lone3"
              by (auto simp: erases_def)
            then show ?thesis
            proof cases
              case 1
              with read copy show ?thesis
                by (simp add: lone_read.simps[of lone "reader\<lparr>buffer_pointer := pointer\<rparr>"])
            next
              case (2 lone3)
              note heap_parsed = this
              have al3: "is_allocated lone3 pointer1"
                using read(2) copy(2) heap_parsed(2) by (simp add: grows_def)
              show ?thesis
              proof (cases "v = TNull \<and> n \<noteq> 0")
                case False
                with r0 Inr t parsed u step obtain reader' v' where
                  r: "r = Inr (reader', v')"
                  by (auto simp: Let_def split: if_splits)
                have "?heap = Some (Inr (lone3, reader'\<lparr>buffer_pointer := pointer1\<rparr>, v'))"
                  using r r0 Inr t parsed u step False read copy heap_parsed
                  by (auto simp: lone_read.simps[of lone "reader\<lparr>buffer_pointer := pointer\<rparr>"]
                                 Let_def split: if_splits)
                with r al3 show ?thesis by auto
              next
                case True
                let ?reader3 = "reader1\<lparr>remaining_tokens := remainder\<rparr>"
                from r0 Inr t parsed u True step have rec: "f ?reader3 = Some r"
                  by (simp add: Let_def)
                have swap: "reader1\<lparr>buffer_pointer := pointer1, remaining_tokens := remainder\<rparr> =
                            ?reader3\<lparr>buffer_pointer := pointer1\<rparr>"
                  by (cases reader1) simp
                have heap: "?heap = lone_read lone3 (?reader3\<lparr>buffer_pointer := pointer1\<rparr>)"
                  using read copy heap_parsed True
                  by (simp add: lone_read.simps[of lone "reader\<lparr>buffer_pointer := pointer\<rparr>"]
                                Let_def swap)
                from IH[OF rec, unfolded lone_read_follows_def] al3 show ?thesis
                  unfolding heap by blast
              qed
            qed
          qed
        qed
      qed
    qed
  qed
qed

subsection \<open>Growth of the input buffer\<close>

text \<open>
  A run of the loop of \<^verbatim>\<open>lone_read_from_file_descriptor\<close> on the bytes: \<open>fulls\<close> are the
  reads that return \<open>sz\<close> bytes, and the next read returns the fewer bytes \<open>short\<close>.
\<close>

lemma read_loop_run:
  assumes "0 < sz"
    and "\<forall>c \<in> set fulls. length c = sz"
    and "linux_read tail sz = Some (short, rest)"
    and "length short < sz"
    and "length buf = allocated"
    and "fulls \<noteq> [] \<longrightarrow> pos + sz \<le> allocated"
    and "pos + length short \<le> allocated"
  shows "\<exists>buf'. read_loop_pure (map Some fulls @ tail) buf sz pos allocated total_read =
           Some (Inr (rest, buf', pos + sz * length fulls + length short,
                      allocated + sz * length fulls,
                      total_read + sz * length fulls + length short)) \<and>
           length buf' = allocated + sz * length fulls \<and>
           take (pos + sz * length fulls + length short) buf' =
             take pos buf @ concat fulls @ short"
  using assms(2,5,6,7)
proof (induction fulls arbitrary: buf pos allocated total_read)
  case Nil
  let ?buf' = "take pos buf @ short @ drop (pos + length short) buf"
  from Nil assms(3,4)
  have "read_loop_pure tail buf sz pos allocated total_read =
          Some (Inr (rest, ?buf', pos + length short, allocated, total_read + length short))"
    by (simp add: read_loop_pure.simps[of tail] Let_def)
  moreover from Nil have "length ?buf' = allocated" by simp
  moreover from Nil have "take (pos + length short) ?buf' = take pos buf @ short" by simp
  ultimately show ?case by simp
next
  case (Cons c cs)
  from Cons.prems have c: "length c = sz" and cs: "\<forall>c \<in> set cs. length c = sz"
    and fit: "pos + sz \<le> allocated" and len: "length buf = allocated"
    by simp_all
  let ?buf1 = "moved_bytes (take pos buf @ c @ drop (pos + sz) buf) (allocated + sz)"
  have step: "read_loop_pure (map Some (c # cs) @ tail) buf sz pos allocated total_read =
              read_loop_pure (map Some cs @ tail) ?buf1 sz (pos + sz) (allocated + sz) (total_read + sz)"
    using c fit len
    by (simp add: read_loop_pure.simps[of "Some c # map Some cs @ tail"] Let_def)
  have l1: "length ?buf1 = allocated + sz" by (rule length_moved_bytes)
  have "\<exists>buf'. read_loop_pure (map Some cs @ tail) ?buf1 sz (pos + sz) (allocated + sz) (total_read + sz) =
           Some (Inr (rest, buf', pos + sz + sz * length cs + length short,
                      allocated + sz + sz * length cs,
                      total_read + sz + sz * length cs + length short)) \<and>
           length buf' = allocated + sz + sz * length cs \<and>
           take (pos + sz + sz * length cs + length short) buf' =
             take (pos + sz) ?buf1 @ concat cs @ short"
    using Cons.prems(4) fit
    by (intro Cons.IH[OF cs l1]) simp_all
  then obtain buf' where
    r: "read_loop_pure (map Some cs @ tail) ?buf1 sz (pos + sz) (allocated + sz) (total_read + sz) =
           Some (Inr (rest, buf', pos + sz + sz * length cs + length short,
                      allocated + sz + sz * length cs,
                      total_read + sz + sz * length cs + length short))"
    and l: "length buf' = allocated + sz + sz * length cs"
    and t: "take (pos + sz + sz * length cs + length short) buf' =
             take (pos + sz) ?buf1 @ concat cs @ short"
    by blast
  have "take (pos + sz) ?buf1 = take (pos + sz) (take pos buf @ c @ drop (pos + sz) buf)"
    using c fit len by (intro take_moved_bytes) simp_all
  also have "\<dots> = take pos buf @ c" using c fit len by simp
  finally have t1: "take (pos + sz) ?buf1 = take pos buf @ c" .
  show ?case
    apply (rule exI[of _ buf'])
    using step r l t t1 by (simp add: algebra_simps)
qed

text \<open>
  The same for \<^verbatim>\<open>lone_read_from_file_descriptor\<close> on the bytes of a reader.
\<close>

lemma lone_read_from_file_descriptor_bytes:
  assumes "0 < length (buffer reader)"
    and "file_descriptor reader = map Some fulls @ tail"
    and "\<forall>c \<in> set fulls. length c = length (buffer reader)"
    and "linux_read tail (length (buffer reader)) = Some (short, rest)"
    and "length short < length (buffer reader)"
    and "fulls \<noteq> [] \<longrightarrow> reader_position reader = 0"
    and "reader_position reader + length short \<le> length (buffer reader)"
  shows "\<exists>reader'.
     lone_read_from_file_descriptor_pure reader =
       Some (Inr (reader', length (buffer reader) * length fulls + length short)) \<and>
     length (buffer reader') = length (buffer reader) * (length fulls + 1) \<and>
     reader_position reader' =
       reader_position reader + length (buffer reader) * length fulls + length short \<and>
     take (reader_position reader') (buffer reader') =
       take (reader_position reader) (buffer reader) @ concat fulls @ short \<and>
     file_descriptor reader' = rest \<and>
     remaining_tokens reader' = remaining_tokens reader \<and>
     finished reader' = finished reader"
proof -
  define sz where "sz = length (buffer reader)"
  from read_loop_run[of sz fulls tail short rest "buffer reader" sz "reader_position reader" 0]
    assms
  obtain buf' where
    r: "read_loop_pure (map Some fulls @ tail) (buffer reader) sz (reader_position reader) sz 0 =
          Some (Inr (rest, buf', reader_position reader + sz * length fulls + length short,
                     sz + sz * length fulls, sz * length fulls + length short))"
    and l: "length buf' = sz + sz * length fulls"
    and t: "take (reader_position reader + sz * length fulls + length short) buf' =
              take (reader_position reader) (buffer reader) @ concat fulls @ short"
    unfolding sz_def by auto
  show ?thesis
    apply (rule exI[of _ "reader\<lparr>file_descriptor := rest, buffer := buf',
             reader_position := reader_position reader + sz * length fulls + length short\<rparr>"])
    using r l t assms(2)
    by (simp add: lone_read_from_file_descriptor_pure_def sz_def[symmetric])
qed

lemmas reader_eval =
  lone_reader_initialize_def lone_read_from_file_descriptor_def read_loop.simps
  lone_reallocate_def moved_bytes_def is_allocated_def

text \<open>
  The exit of \<^verbatim>\<open>lone_allocate\<close> in the reallocation: in an arena of 256 bytes with a buffer
  of 16 bytes, the second read that returns 16 bytes finds no block of 48 bytes.
\<close>

lemma read_buffer_exit:
  "\<exists>lone reader.
     lone_reader_initialize (lone_lisp_initialize 256) 16
       [Some ''0123456789abcdef'', Some ''0123456789abcdef''] = Inr (lone, reader) \<and>
     lone_read_from_file_descriptor lone reader = Some (Inl OutOfMemory)"
  by (simp add: reader_eval alloc_eval)

text \<open>
  Claim C8: whenever a read fills the buffer, the buffer is doubled by reallocation and
  the reading goes on; a read that returns fewer bytes than were asked for ends the
  reading of this call.

  The first part fails on the code. The arena has 65536 bytes, the buffer has 2 bytes
  and the reads return 2, 2 and 1 bytes: a buffer doubled at every full read would have
  8 bytes after the call; the source adds the 2 bytes of the first length at every
  full read and leaves a buffer of 6 bytes.
\<close>

theorem read_buffer_not_doubled:
  "\<exists>lone reader lone' reader'.
     lone_reader_initialize (lone_lisp_initialize 65536) 2
       [Some ''ab'', Some ''cd'', Some ''e''] = Inr (lone, reader) \<and>
     lone_read_from_file_descriptor lone reader = Some (Inr (lone', reader', 5)) \<and>
     take (reader_position reader') (buffer reader') = ''abcde'' \<and>
     file_descriptor reader' = [] \<and>
     length (buffer reader') = 6 \<and>
     length (buffer reader') \<noteq> 2 * (2 * 2)"
  by (simp add: reader_eval alloc_eval replicate_2)

text \<open>
  Claim C8 as the source has it. A call of \<^verbatim>\<open>lone_read_from_file_descriptor\<close> has a
  buffer of \<open>sz > 0\<close> bytes that is allocated in the arena, and every read asks for \<open>sz\<close>
  bytes. While the reads return \<open>sz\<close> bytes, the buffer is reallocated \<open>sz\<close> bytes longer
  each time (a new block is allocated, the bytes are moved, the old block is freed) and
  the reading goes on. When \<^verbatim>\<open>lone_allocate\<close> finds no block for one of these
  reallocations, the process exits. Otherwise, after \<open>k\<close> such reads the buffer has
  \<open>sz * (k + 1)\<close> bytes; the first read that returns fewer than \<open>sz\<close> bytes ends the call:
  nothing more is taken from the file descriptor, the bytes read stand in the buffer
  after those before the position, in the order of their arrival, their number is
  returned, the buffer is allocated and the blocks other than the buffer that were
  allocated before are allocated after. When the first read is the short one, nothing
  is allocated and the arena and the address of the buffer stay as they were. The
  position at the start is 0 when a read returns \<open>sz\<close> bytes, and the bytes of a first
  short read fit in the buffer.
\<close>

theorem read_buffer_growth:
  assumes "is_allocated lone (buffer_pointer reader)"
    and "0 < length (buffer reader)"
    and "file_descriptor reader = map Some fulls @ tail"
    and "\<forall>c \<in> set fulls. length c = length (buffer reader)"
    and "linux_read tail (length (buffer reader)) = Some (short, rest)"
    and "length short < length (buffer reader)"
    and "fulls \<noteq> [] \<longrightarrow> reader_position reader = 0"
    and "reader_position reader + length short \<le> length (buffer reader)"
  shows "(fulls \<noteq> [] \<and> lone_read_from_file_descriptor lone reader = Some (Inl OutOfMemory)) \<or>
    (\<exists>lone' reader'.
       lone_read_from_file_descriptor lone reader =
         Some (Inr (lone', reader', length (buffer reader) * length fulls + length short)) \<and>
       length (buffer reader') = length (buffer reader) * (length fulls + 1) \<and>
       reader_position reader' =
         reader_position reader + length (buffer reader) * length fulls + length short \<and>
       take (reader_position reader') (buffer reader') =
         take (reader_position reader) (buffer reader) @ concat fulls @ short \<and>
       file_descriptor reader' = rest \<and>
       remaining_tokens reader' = remaining_tokens reader \<and>
       finished reader' = finished reader \<and>
       is_allocated lone' (buffer_pointer reader') \<and>
       (\<forall>q. q \<noteq> buffer_pointer reader \<longrightarrow> is_allocated lone q \<longrightarrow> is_allocated lone' q) \<and>
       (fulls = [] \<longrightarrow> lone' = lone \<and> buffer_pointer reader' = buffer_pointer reader))"
proof -
  define sz where "sz = length (buffer reader)"
  define n where "n = sz * length fulls + length short"
  from lone_read_from_file_descriptor_bytes[OF assms(2-8)]
  obtain reader1 where
    pure: "lone_read_from_file_descriptor_pure reader = Some (Inr (reader1, n))"
    and facts: "length (buffer reader1) = sz * (length fulls + 1)"
      "reader_position reader1 = reader_position reader + sz * length fulls + length short"
      "take (reader_position reader1) (buffer reader1) =
         take (reader_position reader) (buffer reader) @ concat fulls @ short"
      "file_descriptor reader1 = rest"
      "remaining_tokens reader1 = remaining_tokens reader"
      "finished reader1 = finished reader"
    unfolding sz_def n_def by blast
  have same: "reader\<lparr>buffer_pointer := buffer_pointer reader\<rparr> = reader" by simp
  note e = lone_read_from_file_descriptor_erases[OF pure assms(1), unfolded same]
  show ?thesis
  proof (cases "fulls = []")
    case True
    with assms(3,5,6,8)
    have "lone_read_from_file_descriptor lone reader =
            Some (Inr (lone,
                       reader\<lparr>file_descriptor := rest,
                              buffer_pointer := buffer_pointer reader,
                              buffer := take (reader_position reader) (buffer reader) @ short @
                                        drop (reader_position reader + length short) (buffer reader),
                              reader_position := reader_position reader + length short\<rparr>,
                       length short))"
      by (simp add: lone_read_from_file_descriptor_def
                    read_loop.simps[of lone tail] Let_def)
    with True assms(1,8) show ?thesis by simp
  next
    case False
    from e consider
      "lone_read_from_file_descriptor lone reader = Some (Inl OutOfMemory)"
      | lone1 pointer1 where
          "lone_read_from_file_descriptor lone reader =
             Some (Inr (lone1, reader1\<lparr>buffer_pointer := pointer1\<rparr>, n))"
          "is_allocated lone1 pointer1"
          "\<forall>q. q \<noteq> buffer_pointer reader \<longrightarrow> is_allocated lone q \<longrightarrow> is_allocated lone1 q"
      by blast
    then show ?thesis
    proof cases
      case 1
      with False show ?thesis by simp
    next
      case (2 lone1 pointer1)
      show ?thesis
        apply (rule disjI2)
        apply (rule exI[of _ lone1])
        apply (rule exI[of _ "reader1\<lparr>buffer_pointer := pointer1\<rparr>"])
        using 2 facts False by (simp add: sz_def n_def)
    qed
  qed
qed

theorem read_buffer_growth_witness:
  "\<exists>lone reader lone' reader'.
     lone_reader_initialize (lone_lisp_initialize 65536) 3
       [Some ''abc'', Some ''def'', Some ''ghi'', Some ''j'', Some ''k''] = Inr (lone, reader) \<and>
     is_allocated lone (buffer_pointer reader) \<and>
     lone_read_from_file_descriptor lone reader = Some (Inr (lone', reader', 10)) \<and>
     length (buffer reader') = 12 \<and>
     reader_position reader' = 10 \<and>
     take (reader_position reader') (buffer reader') = ''abcdefghij'' \<and>
     file_descriptor reader' = [Some ''k''] \<and>
     remaining_tokens reader' = [] \<and> \<not> finished reader' \<and>
     is_allocated lone' (buffer_pointer reader')"
proof -
  define fd where "fd = [Some ''abc'', Some ''def'', Some ''ghi'', Some ''j'', Some ''k'']"
  obtain lone reader where
    init: "lone_reader_initialize (lone_lisp_initialize 65536) 3 fd = Inr (lone, reader)"
    and reader: "reader = \<lparr>file_descriptor = fd, buffer_pointer = 32,
                           buffer = replicate 3 (CHR 0x00), reader_position = 0,
                           remaining_tokens = [], finished = False\<rparr>"
    and al: "is_allocated lone 32"
    by (simp add: reader_eval alloc_eval)
  have run: "lone_read_from_file_descriptor lone reader \<noteq> Some (Inl OutOfMemory)"
    using init by (auto simp: reader fd_def reader_eval alloc_eval)
  from read_buffer_growth[of lone reader "[''abc'', ''def'', ''ghi'']" "[Some ''j'', Some ''k'']"
         "''j''" "[Some ''k'']"] al run
  obtain lone' reader' where
    "lone_read_from_file_descriptor lone reader = Some (Inr (lone', reader', 10))"
    "length (buffer reader') = 12" "reader_position reader' = 10"
    "take (reader_position reader') (buffer reader') = ''abcdefghij''"
    "file_descriptor reader' = [Some ''k'']"
    "remaining_tokens reader' = []" "\<not> finished reader'"
    "is_allocated lone' (buffer_pointer reader')"
    by (auto simp: reader fd_def)
  with init al show ?thesis
    unfolding fd_def by (auto simp: reader)
qed

subsection \<open>Reading in one piece and in several\<close>

lemmas lex_eval =
  lone_lex_def lex_loop.simps lex_token_def
  lone_lexer_peek_def lone_lexer_peek_k_def lone_lexer_consume_def lone_lexer_consume_k_def
  lone_lexer_match_byte_def
  lone_lexer_consume_number_def lone_lexer_consume_symbol_def lone_lexer_consume_text_def
  lone_lexer_consume_parenthesis_def
  consume_digits.simps consume_symbol_bytes.simps consume_text_bytes.simps
  lone_integer_parse_def Let_def

lemmas arena_eval =
  lone_read.simps lone_parse_arena_def lone_lex_arena_def lex_loop_arena.simps
  lex_token_arena_def lone_text_create_def lone_symbol_create_def lone_bytes_create_def
  lone_integer_create_def lone_list_create_nil_def lone_list_create_def nil_def

lemma lone_parse_need_more:
  "lone_parse_tokens tokens = Inr (TNull, remainder) \<Longrightarrow> remainder = []"
  "lone_parse_list tokens acc = Inr (TNull, remainder) \<Longrightarrow> remainder = []"
proof (induction tokens and tokens acc rule: lone_parse_tokens_lone_parse_list.induct)
  case 1
  then show ?case by (simp add: nil_def)
next
  case (2 token rest)
  show ?case
  proof (cases "kind_of_token token = Opening")
    case True
    with 2(2) have "lone_parse_list rest [] = Inr (TNull, remainder)" by simp
    from 2(1)[OF True this] show ?thesis .
  next
    case False
    with 2(2) show ?thesis
      by (auto split: if_splits token_kind.splits)
  qed
next
  case (3 acc)
  then show ?case by simp
next
  case (4 current rest acc)
  show ?case
  proof (cases "closes_list current = Inr False")
    case False
    with 4(3) show ?thesis
      by (auto simp: list_of_not_null split: if_splits sum.splits)
  next
    case True
    with 4(3) obtain v1 tokens1 where
      p: "lone_parse_tokens (current # rest) = Inr (v1, tokens1)" and
      l: "lone_parse_list tokens1 (acc @ [v1]) = Inr (TNull, remainder)"
      by (auto split: sum.splits)
    have c1: "closes_list current \<noteq> Inr True" using True by simp
    have c2: "\<not> closes_list current \<noteq> Inr False" using True by simp
    from 4(2)[OF c1 c2 p refl l] show ?thesis .
  qed
qed

lemma lone_parse_remainder:
  "lone_parse bytes tokens = Inr (TNull, remainder) \<Longrightarrow> remainder = []"
  by (auto simp: lone_parse_def Let_def lone_parse_need_more(1) split: sum.splits)

text \<open>A read that returns fewer bytes than the buffer has, and that fit.\<close>

lemma lone_read_from_file_descriptor_short:
  assumes "file_descriptor reader = Some c # rest"
    and "length c < length (buffer reader)"
    and "reader_position reader + length c \<le> length (buffer reader)"
  shows "lone_read_from_file_descriptor_pure reader =
         Some (Inr (reader\<lparr>file_descriptor := rest,
                            buffer := take (reader_position reader) (buffer reader) @ c @
                                      drop (reader_position reader + length c) (buffer reader),
                            reader_position := reader_position reader + length c\<rparr>,
                    length c))"
  using assms
  by (simp add: lone_read_from_file_descriptor_pure_def
                read_loop_pure.simps[of "Some c # rest"] Let_def)

text \<open>
  After \<^verbatim>\<open>lone_read_from_file_descriptor\<close>, \<^verbatim>\<open>lone_read\<close> looks at the state of the reader
  and at whether bytes were read.
\<close>

lemma lone_read_after:
  assumes "lone_read_from_file_descriptor_pure reader = Some (Inr (reader1, n))"
    and "lone_read_from_file_descriptor_pure reader' = Some (Inr (reader1, n'))"
    and "n = 0 \<longleftrightarrow> n' = 0"
  shows "lone_read_pure reader = lone_read_pure reader'"
  using assms
  by (cases "n = 0")
     (simp_all add: lone_read_pure.simps[of reader] lone_read_pure.simps[of reader'] Let_def
               split: sum.splits prod.splits)

lemma lone_read_pieces:
  assumes "\<forall>c \<in> set (c0 # chunks). c \<noteq> []"
    and "remaining_tokens reader = []"
    and "reader_position reader + length (concat (c0 # chunks)) \<le> length (buffer reader)"
    and "length (concat (c0 # chunks)) < length (buffer reader)"
    and "file_descriptor reader = map Some (c0 # chunks) @ rest"
    and "\<forall>k. 0 < k \<and> k \<le> length chunks \<longrightarrow>
           (\<exists>remainder. lone_parse (take (reader_position reader) (buffer reader) @
                                     concat (take k (c0 # chunks))) [] =
                         Inr (TNull, remainder))"
  shows "lone_read_pure reader =
         lone_read_pure (reader\<lparr>file_descriptor := Some (concat (c0 # chunks)) # rest\<rparr>)"
  using assms
proof (induction chunks arbitrary: c0 reader)
  case Nil
  then have "reader\<lparr>file_descriptor := Some (concat [c0]) # rest\<rparr> = reader" by simp
  then show ?case by simp
next
  case (Cons c1 cs)
  define p where "p = reader_position reader"
  define buf where "buf = buffer reader"
  define X where "X = concat (c1 # cs)"
  define B1 where "B1 = take p buf @ c0 @ drop (p + length c0) buf"
  define r1 where "r1 = reader\<lparr>file_descriptor := map Some (c1 # cs) @ rest, buffer := B1,
                               reader_position := p + length c0\<rparr>"
  have c0: "c0 \<noteq> []" and c1: "c1 \<noteq> []" and ne: "\<forall>c \<in> set (c1 # cs). c \<noteq> []"
    using Cons.prems(1) by simp_all
  have X: "X \<noteq> []" using c1 by (simp add: X_def)
  have fit: "p + length c0 + length X \<le> length buf" and short: "length c0 + length X < length buf"
    using Cons.prems(3,4) by (simp_all add: p_def buf_def X_def)
  have lB1: "length B1 = length buf" using fit by (simp add: B1_def)
  have tB1: "take (p + length c0) B1 = take p buf @ c0" using fit by (simp add: B1_def)
  have read0: "lone_read_from_file_descriptor_pure reader = Some (Inr (r1, length c0))"
    using lone_read_from_file_descriptor_short[of reader c0 "map Some (c1 # cs) @ rest"]
      Cons.prems(5) fit short
    by (simp add: r1_def B1_def p_def buf_def)
  from Cons.prems(6)[rule_format, of 1] obtain remainder where
    "lone_parse (take p buf @ c0) [] = Inr (TNull, remainder)"
    by (auto simp: p_def buf_def)
  with lone_parse_remainder[of "take p buf @ c0" "[]" remainder]
  have parse0: "lone_parse (take p buf @ c0) [] = Inr (TNull, [])" by simp
  have r1_tokens: "r1\<lparr>remaining_tokens := []\<rparr> = r1"
    using Cons.prems(2) by (simp add: r1_def)
  have parse1: "lone_parse (take (reader_position r1) (buffer r1)) (remaining_tokens r1) =
                Inr (TNull, [])"
    using parse0 tB1 Cons.prems(2) by (simp add: r1_def)
  have "lone_read_pure reader = lone_read_pure (r1\<lparr>remaining_tokens := []\<rparr>)"
    using read0 parse1 c0 by (simp add: lone_read_pure.simps[of reader])
  then have first: "lone_read_pure reader = lone_read_pure r1"
    by (simp only: r1_tokens)
  have "lone_read_pure r1 = lone_read_pure (r1\<lparr>file_descriptor := Some (concat (c1 # cs)) # rest\<rparr>)"
  proof (rule Cons.IH[OF ne])
    show "remaining_tokens r1 = []" using Cons.prems(2) by (simp add: r1_def)
    show "reader_position r1 + length (concat (c1 # cs)) \<le> length (buffer r1)"
      using fit lB1 by (simp add: r1_def X_def)
    show "length (concat (c1 # cs)) < length (buffer r1)"
      using short lB1 by (simp add: r1_def X_def)
    show "file_descriptor r1 = map Some (c1 # cs) @ rest" by (simp add: r1_def)
    show "\<forall>k. 0 < k \<and> k \<le> length cs \<longrightarrow>
           (\<exists>remainder. lone_parse (take (reader_position r1) (buffer r1) @
                                     concat (take k (c1 # cs))) [] =
                         Inr (TNull, remainder))"
    proof (intro allI impI)
      fix k
      assume k: "0 < k \<and> k \<le> length cs"
      from Cons.prems(6)[rule_format, of "Suc k"] k
      obtain remainder where
        "lone_parse (take p buf @ concat (take (Suc k) (c0 # c1 # cs))) [] = Inr (TNull, remainder)"
        by (auto simp: p_def buf_def)
      then show "\<exists>remainder. lone_parse (take (reader_position r1) (buffer r1) @
                                     concat (take k (c1 # cs))) [] =
                         Inr (TNull, remainder)"
        using tB1 by (auto simp: r1_def)
    qed
  qed
  then have second: "lone_read_pure r1 = lone_read_pure (r1\<lparr>file_descriptor := Some X # rest\<rparr>)"
    by (simp add: X_def)
  define r2 where "r2 = reader\<lparr>file_descriptor := rest,
                              buffer := take p buf @ (c0 @ X) @ drop (p + length (c0 @ X)) buf,
                              reader_position := p + length (c0 @ X)\<rparr>"
  have B2: "take (p + length c0) B1 @ X @ drop (p + length c0 + length X) B1 =
            take p buf @ (c0 @ X) @ drop (p + length (c0 @ X)) buf"
    using fit by (simp add: tB1) (simp add: B1_def add.assoc add.commute add.left_commute)
  have readX: "lone_read_from_file_descriptor_pure (r1\<lparr>file_descriptor := Some X # rest\<rparr>) =
               Some (Inr (r2, length X))"
    using lone_read_from_file_descriptor_short[of "r1\<lparr>file_descriptor := Some X # rest\<rparr>" X rest]
      fit short lB1 B2
    by (simp add: r1_def r2_def add.assoc)
  have readR: "lone_read_from_file_descriptor_pure
                 (reader\<lparr>file_descriptor := Some (c0 @ X) # rest\<rparr>) =
               Some (Inr (r2, length (c0 @ X)))"
    using lone_read_from_file_descriptor_short[of
        "reader\<lparr>file_descriptor := Some (c0 @ X) # rest\<rparr>" "c0 @ X" rest]
      fit short
    by (simp add: r2_def p_def buf_def add.assoc)
  have third: "lone_read_pure (r1\<lparr>file_descriptor := Some X # rest\<rparr>) =
               lone_read_pure (reader\<lparr>file_descriptor := Some (c0 @ X) # rest\<rparr>)"
    by (rule lone_read_after[OF readX readR]) (simp add: X)
  from first second third show ?case by (simp add: X_def)
qed

text \<open>\<^verbatim>\<open>lone_read\<close> returns on every file descriptor, for a buffer that is not empty.\<close>

lemma linux_read_file_size:
  assumes "linux_read fd sz = Some (bytes, fd')" and "0 < sz"
  shows "file_size fd' \<le> file_size fd \<and> (bytes \<noteq> [] \<longrightarrow> file_size fd' < file_size fd)"
proof (cases fd)
  case Nil
  with assms show ?thesis by simp
next
  case (Cons event rest)
  with assms show ?thesis
    by (cases event) (auto split: if_splits)
qed

lemma read_loop_returns:
  assumes "0 < sz" and "0 < length buf"
  shows "\<exists>r. read_loop_pure fd buf sz pos allocated total_read = Some r \<and>
           (\<forall>fd' buf' pos' allocated' total_read'.
              r = Inr (fd', buf', pos', allocated', total_read') \<longrightarrow>
              0 < length buf' \<and> file_size fd' \<le> file_size fd \<and>
              (total_read' \<noteq> total_read \<longrightarrow> file_size fd' < file_size fd))"
  using assms(2)
proof (induction "file_size fd" arbitrary: fd buf pos allocated total_read rule: less_induct)
  case less
  show ?case
  proof (cases "linux_read fd sz")
    case None
    then show ?thesis by (simp add: read_loop_pure.simps[of fd])
  next
    case (Some a)
    obtain bytes fd1 where a: "a = (bytes, fd1)" by (cases a)
    note m = linux_read_file_size[OF Some[unfolded a] assms(1)]
    show ?thesis
    proof (cases "length buf < pos + length bytes")
      case True
      with Some a show ?thesis by (simp add: read_loop_pure.simps[of fd])
    next
      case fits: False
      show ?thesis
      proof (cases "length bytes = sz")
        case False
        with Some a fits m less.prems show ?thesis
          by (auto simp: read_loop_pure.simps[of fd] Let_def)
      next
        case True
        with assms(1) have ne: "bytes \<noteq> []" by auto
        with m have lt: "file_size fd1 < file_size fd" by simp
        let ?buf1 = "moved_bytes (take pos buf @ bytes @ drop (pos + length bytes) buf)
                       (allocated + sz)"
        have "0 < length ?buf1" using assms(1) by (simp add: length_moved_bytes)
        from less.hyps[OF lt this, of "pos + length bytes" "allocated + sz"
                         "total_read + length bytes"]
        obtain r where
          r: "read_loop_pure fd1 ?buf1 sz (pos + length bytes) (allocated + sz)
                (total_read + length bytes) = Some r"
          and p: "\<forall>fd' buf' pos' allocated' total_read'.
              r = Inr (fd', buf', pos', allocated', total_read') \<longrightarrow>
              0 < length buf' \<and> file_size fd' \<le> file_size fd1 \<and>
              (total_read' \<noteq> total_read + length bytes \<longrightarrow> file_size fd' < file_size fd1)"
          by blast
        have "read_loop_pure fd buf sz pos allocated total_read = Some r"
          using Some a fits True r by (simp add: read_loop_pure.simps[of fd] Let_def)
        moreover have "\<forall>fd' buf' pos' allocated' total_read'.
              r = Inr (fd', buf', pos', allocated', total_read') \<longrightarrow>
              0 < length buf' \<and> file_size fd' \<le> file_size fd \<and>
              (total_read' \<noteq> total_read \<longrightarrow> file_size fd' < file_size fd)"
          using p lt by fastforce
        ultimately show ?thesis by blast
      qed
    qed
  qed
qed

lemma lone_read_from_file_descriptor_returns:
  assumes "0 < length (buffer reader)"
  shows "\<exists>r. lone_read_from_file_descriptor_pure reader = Some r \<and>
           (\<forall>reader1 n. r = Inr (reader1, n) \<longrightarrow>
              0 < length (buffer reader1) \<and>
              (n \<noteq> 0 \<longrightarrow> file_size (file_descriptor reader1) < file_size (file_descriptor reader)))"
proof -
  from read_loop_returns[OF assms assms, of "file_descriptor reader" "reader_position reader"
         "length (buffer reader)" 0]
  obtain r where
    r: "read_loop_pure (file_descriptor reader) (buffer reader) (length (buffer reader))
          (reader_position reader) (length (buffer reader)) 0 = Some r"
    and p: "\<forall>fd' buf' pos' allocated' total_read'.
              r = Inr (fd', buf', pos', allocated', total_read') \<longrightarrow>
              0 < length buf' \<and> file_size fd' \<le> file_size (file_descriptor reader) \<and>
              (total_read' \<noteq> 0 \<longrightarrow> file_size fd' < file_size (file_descriptor reader))"
    by blast
  show ?thesis
  proof (cases r)
    case (Inl e)
    with r show ?thesis by (simp add: lone_read_from_file_descriptor_pure_def)
  next
    case (Inr t)
    obtain fd' buf' pos' allocated' total_read' where
      t: "t = (fd', buf', pos', allocated', total_read')" by (cases t)
    with p Inr have "0 < length buf'"
      "total_read' \<noteq> 0 \<longrightarrow> file_size fd' < file_size (file_descriptor reader)"
      by simp_all
    with r Inr t show ?thesis by (simp add: lone_read_from_file_descriptor_pure_def)
  qed
qed

lemma lone_read_returns:
  "0 < length (buffer reader) \<Longrightarrow> \<exists>r. lone_read_pure reader = Some r"
proof (induction "file_size (file_descriptor reader)" arbitrary: reader rule: less_induct)
  case less
  from lone_read_from_file_descriptor_returns[OF less.prems]
  obtain r0 where
    r0: "lone_read_from_file_descriptor_pure reader = Some r0"
    and p: "\<forall>reader1 n. r0 = Inr (reader1, n) \<longrightarrow>
              0 < length (buffer reader1) \<and>
              (n \<noteq> 0 \<longrightarrow> file_size (file_descriptor reader1) < file_size (file_descriptor reader))"
    by blast
  show ?case
  proof (cases r0)
    case (Inl e)
    with r0 show ?thesis by (simp add: lone_read_pure.simps[of reader])
  next
    case (Inr t)
    obtain reader1 n where t: "t = (reader1, n)" by (cases t)
    from p Inr t have b1: "0 < length (buffer reader1)"
      and m1: "n \<noteq> 0 \<longrightarrow> file_size (file_descriptor reader1) < file_size (file_descriptor reader)"
      by simp_all
    show ?thesis
    proof (cases "lone_parse (take (reader_position reader1) (buffer reader1))
                    (remaining_tokens reader1)")
      case (Inl e)
      with r0 Inr t show ?thesis by (simp add: lone_read_pure.simps[of reader])
    next
      case parsed: (Inr u)
      obtain v remainder where u: "u = (v, remainder)" by (cases u)
      show ?thesis
      proof (cases "v = TNull \<and> n \<noteq> 0")
        case False
        with r0 Inr t parsed u show ?thesis
          by (auto simp: lone_read_pure.simps[of reader] Let_def)
      next
        case True
        let ?reader3 = "reader1\<lparr>remaining_tokens := remainder\<rparr>"
        from True m1 have "file_size (file_descriptor ?reader3) < file_size (file_descriptor reader)"
          by simp
        moreover have "0 < length (buffer ?reader3)" using b1 by simp
        ultimately obtain r where "lone_read_pure ?reader3 = Some r"
          using less.hyps[of ?reader3] by blast
        with r0 Inr t parsed u True show ?thesis
          by (simp add: lone_read_pure.simps[of reader] Let_def)
      qed
    qed
  qed
qed

text \<open>
  Claim C6: the bytes of an input give the same values, in the same order, whether they
  reach the reader in one read or in several.

  On the code this fails in three ways. \<^verbatim>\<open>lone_read\<close> returns as soon as the bytes of a
  read parse to a value: the bytes \<open>foo\<close> in one read are the symbol \<open>foo\<close>, and in the
  reads \<open>fo\<close> and \<open>o\<close> they are the symbols \<open>fo\<close> and \<open>o\<close>. The tokens left over after a
  value are dropped when the parser asks for more input: the bytes \<open>a (b c d)\<close> in one
  read are the symbol \<open>a\<close> and the list \<open>(b c d)\<close>, and in the reads \<open>a (b\<close>, \<open> c\<close> and
  \<open> d)\<close> the calls of \<^verbatim>\<open>lone_read\<close> return \<open>a\<close>, \<open>c\<close>, \<open>d\<close> and then the parser exits on
  the closing parenthesis. Every round of the loop of \<^verbatim>\<open>lone_read\<close> allocates a copy of
  the bytes read so far, their tokens and the cells of the lists, and frees nothing: in
  an arena of 2000 bytes with a buffer of 16 bytes, the bytes \<open>(a a)\<close> in one read are
  the list \<open>(a a)\<close>, and in the reads \<open>(a\<close>, \<open> a\<close> and \<open>)\<close> the process exits in
  \<^verbatim>\<open>lone_allocate\<close>. The calls of \<^verbatim>\<open>lone_read\<close> follow each other here as in the loop of
  \<^verbatim>\<open>lone\<close>, without what it allocates between them to evaluate and print a value.
\<close>

theorem lone_read_pieces_differ:
  "(\<exists>lone reader lone1 reader1.
      lone_reader_initialize (lone_lisp_initialize 65536) 16 [Some ''foo''] =
        Inr (lone, reader) \<and>
      lone_read lone reader = Some (Inr (lone1, reader1, TSymbol ''foo''))) \<and>
   (\<exists>lone reader lone1 reader1 lone2 reader2.
      lone_reader_initialize (lone_lisp_initialize 65536) 16 [Some ''fo'', Some ''o''] =
        Inr (lone, reader) \<and>
      lone_read lone reader = Some (Inr (lone1, reader1, TSymbol ''fo'')) \<and>
      lone_read lone1 reader1 = Some (Inr (lone2, reader2, TSymbol ''o''))) \<and>
   (\<exists>lone reader lone1 reader1 lone2 reader2.
      lone_reader_initialize (lone_lisp_initialize 65536) 16 [Some ''a (b c d)''] =
        Inr (lone, reader) \<and>
      lone_read lone reader = Some (Inr (lone1, reader1, TSymbol ''a'')) \<and>
      lone_read lone1 reader1 =
        Some (Inr (lone2, reader2, list_of [TSymbol ''b'', TSymbol ''c'', TSymbol ''d'']))) \<and>
   (\<exists>lone reader lone1 reader1 lone2 reader2 lone3 reader3.
      lone_reader_initialize (lone_lisp_initialize 65536) 16
        [Some ''a (b'', Some '' c'', Some '' d)''] = Inr (lone, reader) \<and>
      lone_read lone reader = Some (Inr (lone1, reader1, TSymbol ''a'')) \<and>
      lone_read lone1 reader1 = Some (Inr (lone2, reader2, TSymbol ''c'')) \<and>
      lone_read lone2 reader2 = Some (Inr (lone3, reader3, TSymbol ''d'')) \<and>
      lone_read lone3 reader3 = Some (Inl ParseFailed)) \<and>
   (\<exists>lone reader lone1 reader1.
      lone_reader_initialize (lone_lisp_initialize 2000) 16 [Some ''(a a)''] =
        Inr (lone, reader) \<and>
      lone_read lone reader =
        Some (Inr (lone1, reader1, list_of [TSymbol ''a'', TSymbol ''a'']))) \<and>
   (\<exists>lone reader.
      lone_reader_initialize (lone_lisp_initialize 2000) 16
        [Some ''(a'', Some '' a'', Some '')''] = Inr (lone, reader) \<and>
      lone_read lone reader = Some (Inl OutOfMemory))"
  by (simp add: reader_eval arena_eval lex_eval alloc_eval)

text \<open>
  Claim C6 as the source has it. A call of \<^verbatim>\<open>lone_read\<close> has its buffer allocated in the
  arena, starts with no token left over and at position 0, and the bytes that one read
  would return arrive instead in several reads, none of them empty, all together
  shorter than the buffer. If after every read but the last the bytes received so far
  leave a list open (the parser returns the null pointer on them), then \<^verbatim>\<open>lone_read\<close>
  returns in both cases, and unless one of the two calls exits in \<^verbatim>\<open>lone_allocate\<close>
  because the arena has no block left, both exit in the same way or both return the
  same value and leave the same reader: the same file descriptor, bytes in the buffer,
  position, tokens left over and flag, with a buffer that is allocated.
\<close>

theorem lone_read_pieces_same:
  assumes "is_allocated lone (buffer_pointer reader)"
    and "chunks \<noteq> []"
    and "\<forall>c \<in> set chunks. c \<noteq> []"
    and "reader_position reader = 0"
    and "remaining_tokens reader = []"
    and "length (concat chunks) < length (buffer reader)"
    and "file_descriptor reader = map Some chunks @ rest"
    and "\<forall>k \<in> set [1..<length chunks]. needs_more_input (concat (take k chunks))"
  shows "\<exists>r r'.
     lone_read lone reader = Some r \<and>
     lone_read lone (reader\<lparr>file_descriptor := Some (concat chunks) # rest\<rparr>) = Some r' \<and>
     (r = Inl OutOfMemory \<or> r' = Inl OutOfMemory \<or>
      (\<exists>e. r = Inl e \<and> r' = Inl e) \<or>
      (\<exists>lone1 reader1 lone1' reader1' v.
         r = Inr (lone1, reader1, v) \<and> r' = Inr (lone1', reader1', v) \<and>
         reader1'\<lparr>buffer_pointer := buffer_pointer reader1\<rparr> = reader1 \<and>
         is_allocated lone1 (buffer_pointer reader1) \<and>
         is_allocated lone1' (buffer_pointer reader1')))"
proof -
  let ?single = "reader\<lparr>file_descriptor := Some (concat chunks) # rest\<rparr>"
  from assms(2) obtain c0 cs where chunks: "chunks = c0 # cs" by (cases chunks) auto
  have more: "\<forall>k. 0 < k \<and> k \<le> length cs \<longrightarrow>
           (\<exists>remainder. lone_parse (take (reader_position reader) (buffer reader) @
                                     concat (take k (c0 # cs))) [] =
                         Inr (TNull, remainder))"
  proof (intro allI impI)
    fix k
    assume "0 < k \<and> k \<le> length cs"
    then have "k \<in> set [1..<length chunks]" by (auto simp: chunks)
    with assms(8) have "needs_more_input (concat (take k chunks))" by blast
    then show "\<exists>remainder. lone_parse (take (reader_position reader) (buffer reader) @
                                     concat (take k (c0 # cs))) [] =
                         Inr (TNull, remainder)"
      by (auto simp: needs_more_input_def chunks assms(4) split: sum.splits)
  qed
  have same: "lone_read_pure reader = lone_read_pure ?single"
    unfolding chunks
    using assms(3-7) more
    by (intro lone_read_pieces) (simp_all add: chunks)
  from assms(6) have "0 < length (buffer reader)" by (cases "buffer reader") simp_all
  from lone_read_returns[OF this] obtain p where p: "lone_read_pure reader = Some p" by blast
  have r1: "reader\<lparr>buffer_pointer := buffer_pointer reader\<rparr> = reader" by simp
  have r2: "?single\<lparr>buffer_pointer := buffer_pointer reader\<rparr> = ?single" by simp
  note e1 = lone_read_erases[OF p, unfolded lone_read_follows_def, rule_format, OF assms(1),
                             unfolded r1]
  note e2 = lone_read_erases[OF p[unfolded same], unfolded lone_read_follows_def, rule_format,
                             OF assms(1), unfolded r2]
  show ?thesis
  proof (cases "lone_read lone reader = Some (Inl OutOfMemory) \<or>
                lone_read lone ?single = Some (Inl OutOfMemory)")
    case True
    from e1 obtain r where r: "lone_read lone reader = Some r" by (cases p) auto
    from e2 obtain r' where r': "lone_read lone ?single = Some r'" by (cases p) auto
    from True r r' show ?thesis by auto
  next
    case False
    show ?thesis
    proof (cases p)
      case (Inl e)
      with e1 e2 False show ?thesis by auto
    next
      case (Inr t)
      obtain rd v where t: "t = (rd, v)" by (cases t)
      from e1 False Inr t obtain lone1 pointer1 where
        h1: "lone_read lone reader = Some (Inr (lone1, rd\<lparr>buffer_pointer := pointer1\<rparr>, v))"
        and a1: "is_allocated lone1 pointer1" by auto
      from e2 False Inr t obtain lone1' pointer1' where
        h2: "lone_read lone ?single = Some (Inr (lone1', rd\<lparr>buffer_pointer := pointer1'\<rparr>, v))"
        and a2: "is_allocated lone1' pointer1'" by auto
      show ?thesis
        apply (rule exI[of _ "Inr (lone1, rd\<lparr>buffer_pointer := pointer1\<rparr>, v)"])
        apply (rule exI[of _ "Inr (lone1', rd\<lparr>buffer_pointer := pointer1'\<rparr>, v)"])
        using h1 h2 a1 a2 by simp
    qed
  qed
qed

theorem lone_read_pieces_same_witness:
  "\<exists>lone reader lone1 reader1 lone1' reader1'.
     lone_reader_initialize (lone_lisp_initialize 65536) 32
       [Some ''(a'', Some '' (b'', Some '' c) d)'', Some '' e''] = Inr (lone, reader) \<and>
     is_allocated lone (buffer_pointer reader) \<and>
     needs_more_input ''(a'' \<and> needs_more_input ''(a (b'' \<and>
     lone_read lone reader =
       Some (Inr (lone1, reader1,
                  list_of [TSymbol ''a'', list_of [TSymbol ''b'', TSymbol ''c''], TSymbol ''d''])) \<and>
     lone_read lone (reader\<lparr>file_descriptor := [Some ''(a (b c) d)'', Some '' e'']\<rparr>) =
       Some (Inr (lone1', reader1',
                  list_of [TSymbol ''a'', list_of [TSymbol ''b'', TSymbol ''c''], TSymbol ''d''])) \<and>
     reader1'\<lparr>buffer_pointer := buffer_pointer reader1\<rparr> = reader1 \<and>
     file_descriptor reader1 = [Some '' e''] \<and>
     is_allocated lone1 (buffer_pointer reader1) \<and>
     is_allocated lone1' (buffer_pointer reader1')"
proof -
  define fd where "fd = [Some ''(a'', Some '' (b'', Some '' c) d)'', Some '' e'']"
  define v where
    "v = list_of [TSymbol ''a'', list_of [TSymbol ''b'', TSymbol ''c''], TSymbol ''d'']"
  define reader where
    "reader = \<lparr>file_descriptor = fd, buffer_pointer = 32, buffer = replicate 32 (CHR 0x00),
               reader_position = 0, remaining_tokens = [], finished = False\<rparr>"
  obtain lone where
    init: "lone_reader_initialize (lone_lisp_initialize 65536) 32 fd = Inr (lone, reader)"
    and al: "is_allocated lone 32"
    by (simp add: reader_eval alloc_eval reader_def)
  have more: "needs_more_input ''(a''" "needs_more_input ''(a (b''"
    by (simp_all add: needs_more_input_def lone_parse_def lex_eval)
  obtain lone1 reader1 where
    run: "lone_read lone reader = Some (Inr (lone1, reader1, v))"
      "file_descriptor reader1 = [Some '' e'']"
    using init by (auto simp: reader_def fd_def v_def reader_eval arena_eval lex_eval alloc_eval)
  obtain lone1' reader1' where
    single: "lone_read lone (reader\<lparr>file_descriptor := [Some ''(a (b c) d)'', Some '' e'']\<rparr>) =
               Some (Inr (lone1', reader1', v))"
    using init by (auto simp: reader_def fd_def v_def reader_eval arena_eval lex_eval alloc_eval)
  from lone_read_pieces_same[of lone reader "[''(a'', '' (b'', '' c) d)'']" "[Some '' e'']"]
    al more run(1) single
  have "reader1'\<lparr>buffer_pointer := buffer_pointer reader1\<rparr> = reader1 \<and>
        is_allocated lone1 (buffer_pointer reader1) \<and>
        is_allocated lone1' (buffer_pointer reader1')"
    by (auto simp: reader_def fd_def upt_rec[of 1] upt_rec[of 2] upt_rec[of 3])
  with init al more run single show ?thesis
    unfolding fd_def v_def by (auto simp: reader_def)
qed

subsection \<open>Printing a value and reading it again\<close>

text \<open>The printed form of a readable value, and the tokens the lexer makes of it.\<close>

fun render :: "lone_tree \<Rightarrow> byte list" and render_rest :: "lone_tree \<Rightarrow> byte list" where
  "render (TInteger n) = lone_print_integer [] n"
| "render (TSymbol bs) = bs"
| "render (TText bs) = CHR 0x22 # bs @ [CHR 0x22]"
| "render (TList first rest) = CHR ''('' # render first @ render_rest rest @ [CHR '')'']"
| "render TNull = []"
| "render (TTable entries) = []"
| "render (TBytes bs) = []"
| "render (TPointer n) = []"
| "render_rest (TList first rest) =
     (if first = TNull \<and> rest = TNull then []
      else CHR '' '' # render first @ render_rest rest)"
| "render_rest TNull = []"
| "render_rest (TTable entries) = []"
| "render_rest (TSymbol bs) = []"
| "render_rest (TText bs) = []"
| "render_rest (TBytes bs) = []"
| "render_rest (TInteger n) = []"
| "render_rest (TPointer n) = []"

fun tokens_of :: "lone_tree \<Rightarrow> lone_tree list" and tokens_rest :: "lone_tree \<Rightarrow> lone_tree list" where
  "tokens_of (TList first rest) =
     TSymbol ''('' # tokens_of first @ tokens_rest rest @ [TSymbol '')'']"
| "tokens_of TNull = [TNull]"
| "tokens_of (TTable entries) = [TTable entries]"
| "tokens_of (TSymbol bs) = [TSymbol bs]"
| "tokens_of (TText bs) = [TText bs]"
| "tokens_of (TBytes bs) = [TBytes bs]"
| "tokens_of (TInteger n) = [TInteger n]"
| "tokens_of (TPointer n) = [TPointer n]"
| "tokens_rest (TList first rest) =
     (if first = TNull \<and> rest = TNull then [] else tokens_of first @ tokens_rest rest)"
| "tokens_rest TNull = []"
| "tokens_rest (TTable entries) = []"
| "tokens_rest (TSymbol bs) = []"
| "tokens_rest (TText bs) = []"
| "tokens_rest (TBytes bs) = []"
| "tokens_rest (TInteger n) = []"
| "tokens_rest (TPointer n) = []"

lemma readable_rest_cases:
  assumes "readable_rest r"
  obtains "r = nil" | first rest where "r = TList first rest" "readable first" "readable_rest rest"
    "readable r" "r \<noteq> nil"
  using assms by (cases r) (auto simp: nil_def)

lemma lone_print_integer_append: "lone_print_integer fd n = fd @ lone_print_integer [] n"
  by (simp add: lone_print_integer_def linux_write_def Let_def)

lemma lone_print_render_aux:
  "readable v \<longrightarrow>
     (\<forall>lone fd. lone_print lone v fd = Inr (lone, fd @ render v)) \<and>
     (\<forall>first rest. v = TList first rest \<longrightarrow>
        (\<forall>lone fd. lone_print_list lone v fd = Inr (lone, fd @ render first @ render_rest rest)))"
proof (induction v rule: lone_tree.induct[where ?P2.0 = "\<lambda>_. True"])
  case (TList f r)
  show ?case
  proof (intro impI)
    assume rd: "readable (TList f r)"
    then have rf: "readable f" and rr: "readable_rest r" by simp_all
    from rf have f: "f \<noteq> TNull" by auto
    from TList(1) rf have pf: "\<And>lone fd. lone_print lone f fd = Inr (lone, fd @ render f)"
      by blast
    have pl: "lone_print_list lone (TList f r) fd = Inr (lone, fd @ render f @ render_rest r)"
      for lone fd
    proof (cases rule: readable_rest_cases[OF rr])
      case 1
      then show ?thesis using f pf by (simp add: nil_def)
    next
      case (2 first rest)
      from TList(2) 2(4) 2(1)
      have "lone_print_list lone1 r fd1 = Inr (lone1, fd1 @ render first @ render_rest rest)"
        for lone1 fd1 by blast
      with 2(1,5) f pf show ?thesis
        by (auto simp: nil_def linux_write_def)
    qed
    then show "(\<forall>lone fd. lone_print lone (TList f r) fd = Inr (lone, fd @ render (TList f r))) \<and>
     (\<forall>first rest. TList f r = TList first rest \<longrightarrow>
        (\<forall>lone fd. lone_print_list lone (TList f r) fd =
           Inr (lone, fd @ render first @ render_rest rest)))"
      using f by (simp add: linux_write_def)
  qed
qed (simp_all add: linux_write_def lone_print_integer_def Let_def)

lemma lone_print_render:
  "readable v \<Longrightarrow> lone_print lone v fd = Inr (lone, fd @ render v)"
  using lone_print_render_aux[of v] by blast

lemma list_of_foldr: "list_of vs = foldr TList vs nil"
  by (induction vs) simp_all

lemma readable_first_token:
  assumes "readable v"
  shows "\<exists>t ts. tokens_of v = t # ts \<and> closes_list t = Inr False"
proof (cases v)
  case (TSymbol bs)
  with assms obtain b bs' where "bs = b # bs'" "b \<noteq> CHR '')''"
    by (cases bs) (auto simp: symbol_bytes_def is_separator_def)
  with TSymbol show ?thesis by simp
qed (use assms in simp_all)

lemma lone_parse_tokens_of_aux:
  "(readable v \<longrightarrow>
      (\<forall>others. lone_parse_tokens (tokens_of v @ others) = Inr (v, others))) \<and>
   (readable_rest v \<longrightarrow>
      (\<forall>acc others. lone_parse_list (tokens_rest v @ TSymbol '')'' # others) acc =
                     Inr (foldr TList acc v, others)))"
proof (induction v rule: lone_tree.induct[where ?P2.0 = "\<lambda>_. True"])
  case (TList f r)
  have rest: "lone_parse_list (tokens_rest (TList f r) @ TSymbol '')'' # others) acc =
              Inr (foldr TList acc (TList f r), others)"
    if rr: "readable_rest (TList f r)" for acc others
  proof (cases "f = TNull \<and> r = TNull")
    case True
    then show ?thesis by (simp add: list_of_foldr nil_def)
  next
    case False
    with rr have rf: "readable f" and rr': "readable_rest r" by auto
    from readable_first_token[OF rf] obtain t ts where
      t: "tokens_of f = t # ts" "closes_list t = Inr False" by blast
    from TList(1) rf have pf: "\<And>others. lone_parse_tokens (tokens_of f @ others) = Inr (f, others)"
      by blast
    from TList(2) rr' have pr: "\<And>acc others.
        lone_parse_list (tokens_rest r @ TSymbol '')'' # others) acc = Inr (foldr TList acc r, others)"
      by blast
    have p1: "lone_parse_tokens (t # ts @ tokens_rest r @ TSymbol '')'' # others) =
               Inr (f, tokens_rest r @ TSymbol '')'' # others)"
      using pf[of "tokens_rest r @ TSymbol '')'' # others"] t(1) by simp
    have "lone_parse_list (t # ts @ tokens_rest r @ TSymbol '')'' # others) acc =
          lone_parse_list (tokens_rest r @ TSymbol '')'' # others) (acc @ [f])"
      using t(2) p1 by simp
    also have "\<dots> = Inr (foldr TList (acc @ [f]) r, others)" by (rule pr)
    finally have "lone_parse_list (t # ts @ tokens_rest r @ TSymbol '')'' # others) acc =
                  Inr (foldr TList acc (TList f r), others)" by simp
    moreover have "tokens_rest (TList f r) = t # ts @ tokens_rest r"
      using False t(1) by simp
    ultimately show ?thesis by simp
  qed
  have "lone_parse_tokens (tokens_of (TList f r) @ others) = Inr (TList f r, others)"
    if rd: "readable (TList f r)" for others
  proof -
    from rd have rf: "readable f" and "readable_rest r" by simp_all
    then have rr: "readable_rest (TList f r)" by simp
    from rf have "\<not> (f = TNull \<and> r = TNull)" by auto
    with rest[OF rr, of others "[]"] show ?thesis by simp
  qed
  with rest show ?case by blast
next
  case (TSymbol bs)
  show ?case
  proof (cases bs)
    case Nil
    then show ?thesis by (simp add: symbol_bytes_def)
  next
    case (Cons b bs')
    then show ?thesis by (auto simp: symbol_bytes_def is_separator_def)
  qed
qed simp_all

lemma lone_parse_tokens_of:
  "readable v \<Longrightarrow> lone_parse_tokens (tokens_of v @ others) = Inr (v, others)"
  using lone_parse_tokens_of_aux[of v] by blast

text \<open>The loops of the lexer on bytes that are known.\<close>

lemma nth_after_prefix: "(pre @ b # s) ! length pre = b"
  by simp

lemma consume_symbol_bytes_run:
  assumes "list_all (\<lambda>b. \<not> is_separator b) bs" and "s = [] \<or> is_separator (hd s)"
  shows "consume_symbol_bytes \<lparr>input = pre @ bs @ s, position = length pre\<rparr> len =
         (\<lparr>input = pre @ bs @ s, position = length pre + length bs\<rparr>, len + length bs)"
  using assms(1)
proof (induction bs arbitrary: pre len)
  case Nil
  show ?case
  proof (cases s)
    case Nil
    then show ?thesis
      by (simp add: consume_symbol_bytes.simps[of "\<lparr>input = pre, position = length pre\<rparr>"]
                    lone_lexer_peek_def lone_lexer_peek_k_def)
  next
    case (Cons c s')
    with assms(2) have "is_separator c" by simp
    with Cons show ?thesis
      by (auto simp: consume_symbol_bytes.simps[of "\<lparr>input = pre @ c # s', position = length pre\<rparr>"]
                    lone_lexer_peek_def lone_lexer_peek_k_def is_separator_def)
  qed
next
  case (Cons b bs)
  then have b: "\<not> is_separator b" and bs: "list_all (\<lambda>b. \<not> is_separator b) bs" by simp_all
  have "consume_symbol_bytes \<lparr>input = pre @ (b # bs) @ s, position = length pre\<rparr> len =
        consume_symbol_bytes \<lparr>input = (pre @ [b]) @ bs @ s, position = length (pre @ [b])\<rparr> (len + 1)"
    using b
    by (simp add: consume_symbol_bytes.simps[of "\<lparr>input = pre @ b # bs @ s, position = length pre\<rparr>"]
                  lone_lexer_peek_def lone_lexer_peek_k_def is_separator_def
                  lone_lexer_consume_def lone_lexer_consume_k_def)
  also have "\<dots> = (\<lparr>input = (pre @ [b]) @ bs @ s, position = length (pre @ [b]) + length bs\<rparr>,
                     len + 1 + length bs)"
    by (rule Cons.IH[OF bs])
  finally show ?case by simp
qed

lemma consume_digits_run:
  assumes "list_all is_digit ds" and "s = [] \<or> \<not> is_digit (hd s)"
  shows "consume_digits \<lparr>input = pre @ ds @ s, position = length pre\<rparr> len =
         (\<lparr>input = pre @ ds @ s, position = length pre + length ds\<rparr>, len + length ds,
          if s = [] then None else Some (length pre + length ds))"
  using assms(1)
proof (induction ds arbitrary: pre len)
  case Nil
  show ?case
  proof (cases s)
    case Nil
    then show ?thesis
      by (simp add: consume_digits.simps[of "\<lparr>input = pre, position = length pre\<rparr>"]
                    lone_lexer_peek_def lone_lexer_peek_k_def)
  next
    case (Cons c s')
    with assms(2) have "\<not> is_digit c" by simp
    with Cons show ?thesis
      by (simp add: consume_digits.simps[of "\<lparr>input = pre @ c # s', position = length pre\<rparr>"]
                    lone_lexer_peek_def lone_lexer_peek_k_def is_digit_def)
  qed
next
  case (Cons d ds)
  then have d: "is_digit d" and ds: "list_all is_digit ds" by simp_all
  have "consume_digits \<lparr>input = pre @ (d # ds) @ s, position = length pre\<rparr> len =
        consume_digits \<lparr>input = (pre @ [d]) @ ds @ s, position = length (pre @ [d])\<rparr> (len + 1)"
    using d
    by (simp add: consume_digits.simps[of "\<lparr>input = pre @ d # ds @ s, position = length pre\<rparr>"]
                  lone_lexer_peek_def lone_lexer_peek_k_def is_digit_def
                  lone_lexer_consume_def lone_lexer_consume_k_def)
  also have "\<dots> = (\<lparr>input = (pre @ [d]) @ ds @ s, position = length (pre @ [d]) + length ds\<rparr>,
                     len + 1 + length ds,
                     if s = [] then None else Some (length (pre @ [d]) + length ds))"
    by (rule Cons.IH[OF ds])
  finally show ?case by simp
qed

lemma consume_text_bytes_run:
  assumes "CHR 0x22 \<notin> set bs"
  shows "consume_text_bytes \<lparr>input = pre @ bs @ CHR 0x22 # s, position = length pre\<rparr> len =
         (\<lparr>input = pre @ bs @ CHR 0x22 # s, position = length pre + length bs\<rparr>,
          len + length bs, Some (length pre + length bs))"
  using assms
proof (induction bs arbitrary: pre len)
  case Nil
  show ?case
    by (simp add: consume_text_bytes.simps[of "\<lparr>input = pre @ CHR 0x22 # s, position = length pre\<rparr>"]
                  lone_lexer_peek_def lone_lexer_peek_k_def)
next
  case (Cons b bs)
  then have b: "b \<noteq> CHR 0x22" and bs: "CHR 0x22 \<notin> set bs" by auto
  have "consume_text_bytes \<lparr>input = pre @ (b # bs) @ CHR 0x22 # s, position = length pre\<rparr> len =
        consume_text_bytes \<lparr>input = (pre @ [b]) @ bs @ CHR 0x22 # s,
                            position = length (pre @ [b])\<rparr> (len + 1)"
    using b
    by (simp add: consume_text_bytes.simps[of
                    "\<lparr>input = pre @ b # bs @ CHR 0x22 # s, position = length pre\<rparr>"]
                  lone_lexer_peek_def lone_lexer_peek_k_def
                  lone_lexer_consume_def lone_lexer_consume_k_def)
  also have "\<dots> = (\<lparr>input = (pre @ [b]) @ bs @ CHR 0x22 # s,
                       position = length (pre @ [b]) + length bs\<rparr>,
                     len + 1 + length bs, Some (length (pre @ [b]) + length bs))"
    by (rule Cons.IH[OF bs])
  finally show ?case by simp
qed

text \<open>One step of \<^verbatim>\<open>lone_lex\<close> on white space, a parenthesis, a symbol and a text.\<close>

lemma lex_loop_space:
  assumes "lone_lexer_match_byte b CHR '' ''"
  shows "lex_loop \<lparr>input = pre @ b # s, position = length pre\<rparr> toks =
         lex_loop \<lparr>input = pre @ b # s, position = length pre + 1\<rparr> toks"
  using assms
  by (simp add: lex_loop.simps[of "\<lparr>input = pre @ b # s, position = length pre\<rparr>"]
                lone_lexer_peek_def lone_lexer_peek_k_def
                lone_lexer_consume_def lone_lexer_consume_k_def)

lemma lex_loop_end:
  "lex_loop \<lparr>input = inp, position = length inp\<rparr> toks = Inr toks"
  by (simp add: lex_loop.simps[of "\<lparr>input = inp, position = length inp\<rparr>"]
                lone_lexer_peek_def lone_lexer_peek_k_def)

lemma lex_loop_parenthesis:
  assumes "b = CHR ''('' \<or> b = CHR '')''"
  shows "lex_loop \<lparr>input = pre @ b # s, position = length pre\<rparr> toks =
         lex_loop \<lparr>input = pre @ b # s, position = length pre + 1\<rparr> (toks @ [TSymbol [b]])"
proof -
  have "lex_token \<lparr>input = pre @ b # s, position = length pre\<rparr> b =
        Inr (\<lparr>input = pre @ b # s, position = length pre + 1\<rparr>, Some (TSymbol [b]))"
    using assms
    by (auto simp: lex_token_def lone_lexer_consume_parenthesis_def
                   lone_lexer_peek_def lone_lexer_peek_k_def
                   lone_lexer_consume_def lone_lexer_consume_k_def)
  moreover have "\<not> lone_lexer_match_byte b CHR '' ''"
    using assms by (auto simp: lone_lexer_match_byte_def)
  ultimately show ?thesis
    by (simp add: lex_loop.simps[of "\<lparr>input = pre @ b # s, position = length pre\<rparr>"]
                  lone_lexer_peek_def lone_lexer_peek_k_def)
qed

lemma separator_not_digit: "is_separator b \<Longrightarrow> \<not> is_digit b"
  by (auto simp: is_separator_def is_digit_def lone_lexer_match_byte_def)

lemma lex_loop_symbol:
  assumes "symbol_bytes bs" and "s = [] \<or> is_separator (hd s)"
  shows "lex_loop \<lparr>input = pre @ bs @ s, position = length pre\<rparr> toks =
         lex_loop \<lparr>input = pre @ bs @ s, position = length pre + length bs\<rparr>
           (toks @ [TSymbol bs])"
proof -
  from assms(1) obtain b bs' where bs: "bs = b # bs'" by (cases bs) (auto simp: symbol_bytes_def)
  let ?lexer = "\<lparr>input = pre @ bs @ s, position = length pre\<rparr>"
  from assms(1) have all: "list_all (\<lambda>b. \<not> is_separator b) bs"
    and nd: "\<not> is_digit b" and nq: "b \<noteq> CHR 0x22" and no: "b \<noteq> CHR ''(''"
    and sign: "b = CHR ''+'' \<or> b = CHR ''-'' \<Longrightarrow> (case bs' of [] \<Rightarrow> True | c # _ \<Rightarrow> \<not> is_digit c)"
    by (simp_all add: symbol_bytes_def bs)
  from all have ns: "\<not> is_separator b" by (simp add: bs)
  have peek: "lone_lexer_peek ?lexer = Some (length pre)"
    by (simp add: lone_lexer_peek_def lone_lexer_peek_k_def bs)
  have at: "input ?lexer ! length pre = b" by (simp add: bs)
  have next_byte: "\<not> is_digit ((pre @ bs @ s) ! Suc (length pre))"
    if "b = CHR ''+'' \<or> b = CHR ''-''" "Suc (length pre) < length (pre @ bs @ s)"
  proof (cases bs')
    case Nil
    with that(2) bs obtain c s' where s: "s = c # s'" by (cases s) auto
    with assms(2) have "is_separator c" by simp
    then have "\<not> is_digit c" by (rule separator_not_digit)
    with Nil bs s show ?thesis by (simp add: nth_append)
  next
    case (Cons c cs)
    with sign[OF that(1)] have "\<not> is_digit c" by simp
    with Cons bs show ?thesis by (simp add: nth_append)
  qed
  have symbol: "lone_lexer_consume_symbol ?lexer =
        Inr (\<lparr>input = pre @ bs @ s, position = length pre + length bs\<rparr>, Some (TSymbol bs))"
    using consume_symbol_bytes_run[OF all assms(2), of pre 0] peek
    by (simp add: lone_lexer_consume_symbol_def)
  have "lex_token ?lexer b = lone_lexer_consume_symbol ?lexer"
  proof (cases "b = CHR ''+'' \<or> b = CHR ''-''")
    case True
    then show ?thesis
      using next_byte[OF True]
      by (auto simp: lex_token_def lone_lexer_peek_k_def is_digit_def split: option.splits)
  next
    case False
    with nd nq no ns show ?thesis
      by (auto simp: lex_token_def is_digit_def is_separator_def lone_lexer_match_byte_def)
  qed
  with symbol have "lex_token ?lexer b =
        Inr (\<lparr>input = pre @ bs @ s, position = length pre + length bs\<rparr>, Some (TSymbol bs))"
    by simp
  moreover have "\<not> lone_lexer_match_byte b CHR '' ''"
    using ns by (simp add: is_separator_def)
  ultimately show ?thesis
    using peek at
    by (simp add: lex_loop.simps[of ?lexer])
qed

lemma lex_loop_text:
  assumes "CHR 0x22 \<notin> set bs" and "is_separator c"
  shows "lex_loop \<lparr>input = pre @ (CHR 0x22 # bs @ [CHR 0x22]) @ c # s, position = length pre\<rparr> toks =
         lex_loop \<lparr>input = pre @ (CHR 0x22 # bs @ [CHR 0x22]) @ c # s,
                   position = length pre + length (CHR 0x22 # bs @ [CHR 0x22])\<rparr>
           (toks @ [TText bs])"
proof -
  let ?inp = "pre @ (CHR 0x22 # bs @ [CHR 0x22]) @ c # s"
  let ?lexer = "\<lparr>input = ?inp, position = length pre\<rparr>"
  have inp: "?inp = (pre @ [CHR 0x22]) @ bs @ CHR 0x22 # c # s" by simp
  have peek: "lone_lexer_peek ?lexer = Some (length pre)"
    by (simp add: lone_lexer_peek_def lone_lexer_peek_k_def)
  have run: "consume_text_bytes (lone_lexer_consume ?lexer) 0 =
        (\<lparr>input = ?inp, position = length pre + 1 + length bs\<rparr>, length bs,
         Some (length pre + 1 + length bs))"
    using consume_text_bytes_run[OF assms(1), of "pre @ [CHR 0x22]" "c # s" 0]
    by (simp add: lone_lexer_consume_def lone_lexer_consume_k_def)
  have after: "?inp ! (length pre + 1 + length bs + 1) = c"
    using nth_after_prefix[of "pre @ CHR 0x22 # bs @ [CHR 0x22]" c s] by (simp add: add.commute)
  have "lone_lexer_consume_text ?lexer =
        Inr (\<lparr>input = ?inp, position = length pre + 1 + length bs + 1\<rparr>, Some (TText bs))"
    unfolding lone_lexer_consume_text_def peek option.case
    using run after assms(2)
    by (simp add: Let_def is_separator_def lone_lexer_consume_def lone_lexer_consume_k_def)
  then have "lex_token ?lexer (CHR 0x22) =
        Inr (\<lparr>input = ?inp, position = length pre + 1 + length bs + 1\<rparr>, Some (TText bs))"
    by (simp add: lex_token_def)
  then show ?thesis
    using peek
    by (subst lex_loop.simps) (simp add: lone_lexer_match_byte_def)
qed

text \<open>The digits that \<^verbatim>\<open>lone_print_integer\<close> writes, read by \<^verbatim>\<open>lone_integer_parse\<close>.\<close>

lemma integer_parse_loop_append:
  "integer_parse_loop a (xs @ ys) = integer_parse_loop (integer_parse_loop a xs) ys"
  by (induction xs arbitrary: a) simp_all

lemma digit_char:
  assumes "0 \<le> m" and "m < 10"
  shows "is_digit (char_of (48 + m :: int))"
    and "(of_char (char_of (48 + m :: int)) :: 64 word) - of_char CHR ''0'' = word_of_int m"
proof -
  define k where "k = nat m"
  from assms have m: "m = int k" and k: "k < 10" by (simp_all add: k_def)
  have c: "char_of (48 + int k) = char_of (48 + k)"
    using char_of_nat[of "48 + k", where ?'a = int] by simp
  have n: "(of_char (char_of (48 + k)) :: nat) = 48 + k"
    using k by (simp add: of_char_of)
  from n k show "is_digit (char_of (48 + m :: int))"
    unfolding m by (simp add: c is_digit_def lone_lexer_match_byte_def)
  have "(of_char (char_of (48 + k)) :: 64 word) = of_nat (of_char (char_of (48 + k)))"
    by (simp only: of_nat_of_char)
  also have "\<dots> = of_nat (48 + k)" by (simp only: n)
  finally show "(of_char (char_of (48 + m :: int)) :: 64 word) - of_char CHR ''0'' = word_of_int m"
    unfolding m by (simp add: c)
qed

lemma split_decimal:
  "(word_of_int n :: 64 word) = word_of_int (n div 10) * 10 + word_of_int (n mod 10)"
proof -
  have "(word_of_int n :: 64 word) = word_of_int (n div 10 * 10 + n mod 10)"
    by (rule arg_cong[of _ _ word_of_int]) simp
  also have "\<dots> = word_of_int (n div 10) * 10 + word_of_int (n mod 10)"
    by (simp only: of_int_add of_int_mult of_int_numeral)
  finally show ?thesis .
qed

lemma print_integer_loop_digits:
  "0 \<le> n \<Longrightarrow>
   \<exists>ds. print_integer_loop n digits = ds @ digits \<and> ds \<noteq> [] \<and> list_all is_digit ds \<and>
        (\<forall>a. integer_parse_loop a ds = a * 10 ^ length ds + word_of_int n)"
proof (induction n digits rule: print_integer_loop.induct)
  case (1 n digits)
  from "1.prems" have sd: "n sdiv 10 = n div 10" and sm: "n smod 10 = n mod 10"
    by (simp_all add: signed_divide_int_def signed_modulo_int_def sgn_if)
  define c where "c = char_of (48 + n mod 10)"
  have cd: "is_digit c"
    and cv: "(of_char c :: 64 word) - of_char CHR ''0'' = word_of_int (n mod 10)"
    unfolding c_def by (rule digit_char; simp)+
  show ?case
  proof (cases "0 < n div 10")
    case True
    have "\<exists>ds. print_integer_loop (n sdiv 10) (char_of (48 + n smod 10) # digits) =
               ds @ char_of (48 + n smod 10) # digits \<and> ds \<noteq> [] \<and> list_all is_digit ds \<and>
               (\<forall>a. integer_parse_loop a ds = a * 10 ^ length ds + word_of_int (n sdiv 10))"
      using True by (intro "1.IH"[OF refl refl]) (simp_all add: sd)
    then obtain ds where
      p: "print_integer_loop (n div 10) (c # digits) = ds @ c # digits"
      and d: "list_all is_digit ds"
      and v: "\<And>a. integer_parse_loop a ds = a * 10 ^ length ds + word_of_int (n div 10)"
      by (auto simp: sd sm c_def)
    have "print_integer_loop n digits = (ds @ [c]) @ digits"
      using True p by (simp add: print_integer_loop.simps[of n] sd sm c_def Let_def)
    moreover have "list_all is_digit (ds @ [c])" using d cd by simp
    moreover have "integer_parse_loop a (ds @ [c]) = a * 10 ^ length (ds @ [c]) + word_of_int n"
      for a
    proof -
      define w1 :: "64 word" where "w1 = word_of_int (n div 10)"
      define w0 :: "64 word" where "w0 = word_of_int (n mod 10)"
      have "integer_parse_loop a (ds @ [c]) = (a * 10 ^ length ds + w1) * 10 + w0"
        using cv by (simp add: integer_parse_loop_append v add_diff_eq w1_def w0_def)
      also have "\<dots> = a * 10 ^ length (ds @ [c]) + (w1 * 10 + w0)"
        by (simp add: algebra_simps)
      also have "w1 * 10 + w0 = word_of_int n"
        unfolding w1_def w0_def by (rule split_decimal[symmetric])
      finally show ?thesis .
    qed
    ultimately show ?thesis by (intro exI[of _ "ds @ [c]"]) simp
  next
    case False
    with "1.prems" have small: "n div 10 = 0" by (simp add: div_int_pos_iff le_less)
    then have nm: "n mod 10 = n" using "1.prems" by (simp add: zmod_trivial_iff)
    have "print_integer_loop n digits = [c] @ digits"
      using small by (simp add: print_integer_loop.simps[of n] sd sm c_def Let_def)
    moreover have "integer_parse_loop a [c] = a * 10 ^ length [c] + word_of_int n" for a
      using cv nm by (simp add: add_diff_eq)
    ultimately show ?thesis using cd by (intro exI[of _ "[c]"]) simp
  qed
qed

lemma sint_minus_not_least:
  fixes n :: "64 word"
  assumes "sint n \<noteq> - (2 ^ 63)"
  shows "sint (- n) = - sint n"
proof -
  have "- (2 ^ 63) \<le> sint n" "sint n < 2 ^ 63"
    using sint_ge[of n] sint_lt[of n] by simp_all
  with assms have "- (2 ^ 63) \<le> - sint n" "- sint n < 2 ^ 63" by simp_all
  then have "signed_take_bit 63 (- sint n) = - sint n"
    by (simp add: signed_take_bit_int_eq_self)
  then show ?thesis by (simp add: sint_word_minus)
qed

lemma render_integer:
  fixes n :: "64 word"
  assumes "sint n \<noteq> - (2 ^ 63)"
  shows "\<exists>sg ds. lone_print_integer [] n = sg @ ds \<and> (sg = [] \<or> sg = ''-'') \<and>
           ds \<noteq> [] \<and> list_all is_digit ds \<and>
           lone_integer_parse (sg @ ds) = Inr (TInteger n)"
proof (cases "sint n < 0")
  case False
  then have "0 \<le> sint n" by simp
  from print_integer_loop_digits[OF this, of "[]"] obtain ds where
    p: "print_integer_loop (sint n) [] = ds" and ne: "ds \<noteq> []" and d: "list_all is_digit ds"
    and v: "\<And>a. integer_parse_loop a ds = a * 10 ^ length ds + word_of_int (sint n)"
    by auto
  from ne d obtain d0 ds' where ds: "ds = d0 # ds'" and d0: "is_digit d0"
    by (cases ds) auto
  from d0 have sign: "d0 \<noteq> CHR ''+''" "d0 \<noteq> CHR ''-''"
    by (auto simp: is_digit_def lone_lexer_match_byte_def)
  have val: "integer_parse_loop 0 ds = n" using v[of 0] by simp
  have "lone_integer_parse ds = Inr (TInteger (integer_parse_loop 0 ds))"
    unfolding ds using sign by (simp add: lone_integer_parse_def Let_def)
  then have "lone_integer_parse ds = Inr (TInteger n)" by (simp only: val)
  moreover have "lone_print_integer [] n = [] @ ds"
    using False p by (simp add: lone_print_integer_def linux_write_def Let_def)
  ultimately show ?thesis using ne d by (intro exI[of _ "[]"] exI[of _ ds]) simp
next
  case True
  have m: "sint (- n) = - sint n" by (rule sint_minus_not_least[OF assms])
  with True have "0 \<le> sint (- n)" by simp
  from print_integer_loop_digits[OF this, of "[]"] obtain ds where
    p: "print_integer_loop (sint (- n)) [] = ds" and ne: "ds \<noteq> []" and d: "list_all is_digit ds"
    and v: "\<And>a. integer_parse_loop a ds = a * 10 ^ length ds + word_of_int (sint (- n))"
    by auto
  have val: "integer_parse_loop 0 ds = - n" using v[of 0] by simp
  have "lone_integer_parse (''-'' @ ds) = Inr (TInteger (integer_parse_loop 0 ds * (- 1)))"
    by (simp add: lone_integer_parse_def Let_def)
  then have "lone_integer_parse (''-'' @ ds) = Inr (TInteger n)" by (simp add: val)
  moreover have "lone_print_integer [] n = ''-'' @ ds"
    using True p by (simp add: lone_print_integer_def linux_write_def Let_def)
  ultimately show ?thesis using ne d by (intro exI[of _ "''-''"] exI[of _ ds]) simp
qed

lemma lex_loop_number:
  assumes "sg = [] \<or> sg = ''-''" and "ds \<noteq> []" and "list_all is_digit ds"
    and "lone_integer_parse (sg @ ds) = Inr token"
    and "s = [] \<or> is_separator (hd s)"
  shows "lex_loop \<lparr>input = pre @ (sg @ ds) @ s, position = length pre\<rparr> toks =
         lex_loop \<lparr>input = pre @ (sg @ ds) @ s, position = length pre + length (sg @ ds)\<rparr>
           (toks @ [token])"
proof -
  from assms(2,3) obtain d0 ds' where ds: "ds = d0 # ds'" and d0: "is_digit d0"
    and ds': "list_all is_digit ds'"
    by (cases ds) auto
  from d0 have d0s: "d0 \<noteq> CHR ''+''" "d0 \<noteq> CHR ''-''" "\<not> lone_lexer_match_byte d0 CHR '' ''"
    "d0 \<noteq> CHR 0x22" "d0 \<noteq> CHR ''(''" "d0 \<noteq> CHR '')''"
    "(48::nat) \<le> of_char d0" "(of_char d0 :: nat) \<le> 57"
    by (auto simp: is_digit_def lone_lexer_match_byte_def)
  let ?inp = "pre @ (sg @ ds) @ s"
  let ?lexer = "\<lparr>input = ?inp, position = length pre\<rparr>"
  have sep: "s = [] \<or> \<not> is_digit (hd s)"
    using assms(5) separator_not_digit by blast
  have run: "consume_digits \<lparr>input = (pre @ sg @ [d0]) @ ds' @ s,
                              position = length (pre @ sg @ [d0])\<rparr> (length sg + 1) =
         (\<lparr>input = (pre @ sg @ [d0]) @ ds' @ s,
            position = length (pre @ sg @ [d0]) + length ds'\<rparr>,
          length sg + 1 + length ds',
          if s = [] then None else Some (length (pre @ sg @ [d0]) + length ds'))"
    by (rule consume_digits_run[OF ds' sep])
  have inp: "?inp = (pre @ sg @ [d0]) @ ds' @ s" by (simp add: ds)
  have last: "?inp ! (length (pre @ sg @ [d0]) + length ds') = hd s" if "s \<noteq> []"
  proof -
    have "?inp = (pre @ sg @ d0 # ds') @ hd s # tl s" using that by (simp add: ds)
    moreover have "length (pre @ sg @ [d0]) + length ds' = length (pre @ sg @ d0 # ds')"
      by simp
    ultimately show ?thesis by (simp only: nth_after_prefix)
  qed
  have taken: "take (length sg + 1 + length ds') (drop (length pre) ?inp) = sg @ ds"
    by (simp add: ds)
  have number: "lone_lexer_consume_number ?lexer =
        Inr (\<lparr>input = ?inp, position = length pre + length (sg @ ds)\<rparr>, Some token)"
  proof (cases "sg = []")
    case True
    have peek: "lone_lexer_peek ?lexer = Some (length pre)"
      by (simp add: lone_lexer_peek_def lone_lexer_peek_k_def ds)
    have at: "?inp ! length pre = d0" by (simp add: True ds)
    show ?thesis
      unfolding lone_lexer_consume_number_def peek option.case
      using run last taken assms(4,5) d0 d0s(1,2) at True
      by (cases "s = []")
         (simp_all add: Let_def lone_lexer_peek_def lone_lexer_peek_k_def ds
            lone_lexer_consume_def lone_lexer_consume_k_def is_digit_def is_separator_def)
  next
    case False
    with assms(1) have sg: "sg = ''-''" by simp
    have peek: "lone_lexer_peek ?lexer = Some (length pre)"
      by (simp add: lone_lexer_peek_def lone_lexer_peek_k_def ds)
    have at: "?inp ! length pre = CHR ''-''" by (simp add: sg)
    have at1: "?inp ! Suc (length pre) = d0"
      using nth_after_prefix[of "pre @ ''-''" d0 "ds' @ s"] by (simp add: sg ds)
    show ?thesis
      unfolding lone_lexer_consume_number_def peek option.case
      using run last taken assms(4,5) d0 at at1 sg
      by (cases "s = []")
         (simp_all add: Let_def lone_lexer_peek_def lone_lexer_peek_k_def ds
            lone_lexer_consume_def lone_lexer_consume_k_def is_digit_def is_separator_def)
  qed
  have peek: "lone_lexer_peek ?lexer = Some (length pre)"
    by (simp add: lone_lexer_peek_def lone_lexer_peek_k_def ds)
  have token: "lex_token ?lexer (?inp ! length pre) = lone_lexer_consume_number ?lexer"
  proof (cases "sg = []")
    case True
    then have "?inp ! length pre = d0" by (simp add: ds)
    with d0s show ?thesis by (simp add: lex_token_def)
  next
    case False
    with assms(1) have sg: "sg = ''-''" by simp
    have at: "?inp ! length pre = CHR ''-''" by (simp add: sg)
    have at1: "?inp ! Suc (length pre) = d0"
      using nth_after_prefix[of "pre @ ''-''" d0 "ds' @ s"] by (simp add: sg ds)
    show ?thesis
      using at1 d0
      by (simp add: at lex_token_def lone_lexer_peek_k_def sg ds is_digit_def)
  qed
  have first: "\<not> lone_lexer_match_byte (?inp ! length pre) CHR '' ''"
    using assms(1) d0s(3) by (auto simp: ds lone_lexer_match_byte_def)
  show ?thesis
    using peek token number first
    by (subst lex_loop.simps) simp
qed

text \<open>The lexer on the printed form of a readable value, inside of other bytes.\<close>

lemma render_rest_separator:
  "readable_rest r \<Longrightarrow> is_separator (hd (render_rest r @ CHR '')'' # s))"
  by (cases r) (auto simp: is_separator_def lone_lexer_match_byte_def)

lemma lex_loop_render_aux:
  "(readable v \<longrightarrow>
      (\<forall>pre s toks. (s = [] \<longrightarrow> \<not> is_text v) \<longrightarrow> (s \<noteq> [] \<longrightarrow> is_separator (hd s)) \<longrightarrow>
         lex_loop \<lparr>input = pre @ render v @ s, position = length pre\<rparr> toks =
         lex_loop \<lparr>input = pre @ render v @ s, position = length pre + length (render v)\<rparr>
           (toks @ tokens_of v))) \<and>
   (readable_rest v \<longrightarrow>
      (\<forall>pre s toks.
         lex_loop \<lparr>input = pre @ render_rest v @ CHR '')'' # s, position = length pre\<rparr> toks =
         lex_loop \<lparr>input = pre @ render_rest v @ CHR '')'' # s,
                   position = length pre + length (render_rest v)\<rparr>
           (toks @ tokens_rest v)))"
proof (induction v rule: lone_tree.induct[where ?P2.0 = "\<lambda>_. True"])
  case (TList f r)
  have elements: "lex_loop \<lparr>input = pre @ b # render f @ render_rest r @ CHR '')'' # s,
                            position = length pre + 1\<rparr> toks =
         lex_loop \<lparr>input = pre @ b # render f @ render_rest r @ CHR '')'' # s,
                   position = length pre + 1 + length (render f) + length (render_rest r)\<rparr>
           (toks @ tokens_of f @ tokens_rest r)"
    if rf: "readable f" and rr: "readable_rest r" for pre b s toks
  proof -
    define inp where "inp = pre @ b # render f @ render_rest r @ CHR '')'' # s"
    have sep: "is_separator (hd (render_rest r @ CHR '')'' # s))"
      by (rule render_rest_separator[OF rr])
    from TList(1) rf
    have "lex_loop \<lparr>input = (pre @ [b]) @ render f @ (render_rest r @ CHR '')'' # s),
                     position = length (pre @ [b])\<rparr> toks =
          lex_loop \<lparr>input = (pre @ [b]) @ render f @ (render_rest r @ CHR '')'' # s),
                     position = length (pre @ [b]) + length (render f)\<rparr> (toks @ tokens_of f)"
      using sep by blast
    then have one: "lex_loop \<lparr>input = inp, position = length pre + 1\<rparr> toks =
          lex_loop \<lparr>input = inp, position = length pre + 1 + length (render f)\<rparr>
            (toks @ tokens_of f)"
      by (simp add: inp_def)
    from TList(2) rr
    have "lex_loop \<lparr>input = (pre @ b # render f) @ render_rest r @ CHR '')'' # s,
                     position = length (pre @ b # render f)\<rparr> (toks @ tokens_of f) =
          lex_loop \<lparr>input = (pre @ b # render f) @ render_rest r @ CHR '')'' # s,
                     position = length (pre @ b # render f) + length (render_rest r)\<rparr>
            ((toks @ tokens_of f) @ tokens_rest r)"
      by blast
    then have two: "lex_loop \<lparr>input = inp, position = length pre + 1 + length (render f)\<rparr>
                      (toks @ tokens_of f) =
          lex_loop \<lparr>input = inp,
                     position = length pre + 1 + length (render f) + length (render_rest r)\<rparr>
            (toks @ tokens_of f @ tokens_rest r)"
      by (simp add: inp_def)
    from one two show ?thesis by (simp add: inp_def)
  qed
  have rest: "lex_loop \<lparr>input = pre @ render_rest (TList f r) @ CHR '')'' # s,
                        position = length pre\<rparr> toks =
         lex_loop \<lparr>input = pre @ render_rest (TList f r) @ CHR '')'' # s,
                   position = length pre + length (render_rest (TList f r))\<rparr>
           (toks @ tokens_rest (TList f r))"
    if rr: "readable_rest (TList f r)" for pre s toks
  proof (cases "f = TNull \<and> r = TNull")
    case True
    then show ?thesis by simp
  next
    case False
    with rr have rf: "readable f" and rr': "readable_rest r" by auto
    have "lex_loop \<lparr>input = pre @ CHR '' '' # render f @ render_rest r @ CHR '')'' # s,
                     position = length pre\<rparr> toks =
          lex_loop \<lparr>input = pre @ CHR '' '' # render f @ render_rest r @ CHR '')'' # s,
                     position = length pre + 1\<rparr> toks"
      by (rule lex_loop_space) (simp add: lone_lexer_match_byte_def)
    with elements[OF rf rr', of pre "CHR '' ''" s toks] show ?thesis
      by (simp add: False add.assoc)
  qed
  have whole: "lex_loop \<lparr>input = pre @ render (TList f r) @ s, position = length pre\<rparr> toks =
         lex_loop \<lparr>input = pre @ render (TList f r) @ s,
                   position = length pre + length (render (TList f r))\<rparr>
           (toks @ tokens_of (TList f r))"
    if rd: "readable (TList f r)" for pre s toks
  proof -
    from rd have rf: "readable f" and rr: "readable_rest r" by simp_all
    define inp where "inp = pre @ CHR ''('' # render f @ render_rest r @ CHR '')'' # s"
    define q where "q = length pre + 1 + length (render f) + length (render_rest r)"
    have "lex_loop \<lparr>input = pre @ CHR ''('' # render f @ render_rest r @ CHR '')'' # s,
                     position = length pre\<rparr> toks =
          lex_loop \<lparr>input = pre @ CHR ''('' # render f @ render_rest r @ CHR '')'' # s,
                     position = length pre + 1\<rparr> (toks @ [TSymbol ''(''])"
      by (rule lex_loop_parenthesis) simp
    then have one: "lex_loop \<lparr>input = inp, position = length pre\<rparr> toks =
          lex_loop \<lparr>input = inp, position = length pre + 1\<rparr> (toks @ [TSymbol ''(''])"
      by (simp add: inp_def)
    have two: "lex_loop \<lparr>input = inp, position = length pre + 1\<rparr> (toks @ [TSymbol ''('']) =
          lex_loop \<lparr>input = inp, position = q\<rparr>
            ((toks @ [TSymbol ''('']) @ tokens_of f @ tokens_rest r)"
      unfolding inp_def q_def by (rule elements[OF rf rr])
    have "lex_loop \<lparr>input = (pre @ CHR ''('' # render f @ render_rest r) @ CHR '')'' # s,
                     position = length (pre @ CHR ''('' # render f @ render_rest r)\<rparr>
            ((toks @ [TSymbol ''('']) @ tokens_of f @ tokens_rest r) =
          lex_loop \<lparr>input = (pre @ CHR ''('' # render f @ render_rest r) @ CHR '')'' # s,
                     position = length (pre @ CHR ''('' # render f @ render_rest r) + 1\<rparr>
            (((toks @ [TSymbol ''('']) @ tokens_of f @ tokens_rest r) @ [TSymbol '')''])"
      by (rule lex_loop_parenthesis) simp
    then have three: "lex_loop \<lparr>input = inp, position = q\<rparr>
            ((toks @ [TSymbol ''('']) @ tokens_of f @ tokens_rest r) =
          lex_loop \<lparr>input = inp, position = q + 1\<rparr>
            (toks @ tokens_of (TList f r))"
      by (simp add: inp_def q_def add.assoc)
    have "pre @ render (TList f r) @ s = inp" by (simp add: inp_def)
    moreover have "length pre + length (render (TList f r)) = q + 1" by (simp add: q_def)
    ultimately show ?thesis using one two three by simp
  qed
  from rest whole show ?case by blast
next
  case (TSymbol bs)
  show ?case
  proof (intro conjI impI allI)
    fix pre s toks
    assume "readable (TSymbol bs)" and "s \<noteq> [] \<longrightarrow> is_separator (hd s)"
    then have "symbol_bytes bs" "s = [] \<or> is_separator (hd s)" by auto
    from lex_loop_symbol[OF this]
    show "lex_loop \<lparr>input = pre @ render (TSymbol bs) @ s, position = length pre\<rparr> toks =
          lex_loop \<lparr>input = pre @ render (TSymbol bs) @ s,
                    position = length pre + length (render (TSymbol bs))\<rparr>
            (toks @ tokens_of (TSymbol bs))"
      by simp
  qed simp
next
  case (TText bs)
  show ?case
  proof (intro conjI impI allI)
    fix pre s toks
    assume rd: "readable (TText bs)" and ne: "s = [] \<longrightarrow> \<not> is_text (TText bs)"
      and sep: "s \<noteq> [] \<longrightarrow> is_separator (hd s)"
    from ne obtain c s' where s: "s = c # s'" by (cases s) auto
    with sep have c: "is_separator c" by simp
    from rd have "CHR 0x22 \<notin> set bs" by simp
    from lex_loop_text[OF this c, of pre s' toks]
    show "lex_loop \<lparr>input = pre @ render (TText bs) @ s, position = length pre\<rparr> toks =
          lex_loop \<lparr>input = pre @ render (TText bs) @ s,
                    position = length pre + length (render (TText bs))\<rparr>
            (toks @ tokens_of (TText bs))"
      by (simp add: s)
  qed simp
next
  case (TInteger n)
  show ?case
  proof (intro conjI impI allI)
    fix pre s toks
    assume rd: "readable (TInteger n)" and sep: "s \<noteq> [] \<longrightarrow> is_separator (hd s)"
    from rd have "sint n \<noteq> - (2 ^ 63)" by simp
    from render_integer[OF this] obtain sg ds where
      r: "lone_print_integer [] n = sg @ ds" and sg: "sg = [] \<or> sg = ''-''"
      and ds: "ds \<noteq> []" "list_all is_digit ds"
      and p: "lone_integer_parse (sg @ ds) = Inr (TInteger n)"
      by blast
    from sep have "s = [] \<or> is_separator (hd s)" by auto
    from lex_loop_number[OF sg ds p this, of pre toks]
    show "lex_loop \<lparr>input = pre @ render (TInteger n) @ s, position = length pre\<rparr> toks =
          lex_loop \<lparr>input = pre @ render (TInteger n) @ s,
                    position = length pre + length (render (TInteger n))\<rparr>
            (toks @ tokens_of (TInteger n))"
      by (simp add: r)
  qed simp
qed simp_all

text \<open>A readable value that is not a text comes back from its printed form.\<close>

lemma lone_parse_render:
  assumes "readable v" and "\<not> is_text v"
  shows "lone_parse (render v) [] = Inr (v, [])"
proof -
  from lex_loop_render_aux[of v] assms
  have "lex_loop \<lparr>input = [] @ render v @ [], position = length ([] :: byte list)\<rparr> [] =
        lex_loop \<lparr>input = [] @ render v @ [],
                  position = length ([] :: byte list) + length (render v)\<rparr> ([] @ tokens_of v)"
    by blast
  then have "lone_lex \<lparr>input = render v, position = 0\<rparr> = Inr (tokens_of v)"
    by (simp add: lone_lex_def lex_loop_end)
  moreover have "lone_parse_tokens (tokens_of v) = Inr (v, [])"
    using lone_parse_tokens_of[OF assms(1), of "[]"] by simp
  ultimately show ?thesis by (simp add: lone_parse_def)
qed

text \<open>The tokens that \<^verbatim>\<open>lone_lex\<close> makes.\<close>

fun lexical :: "lone_tree \<Rightarrow> bool" where
  "lexical (TSymbol bs) = (bs = ''('' \<or> bs = '')'' \<or> symbol_bytes bs)"
| "lexical (TText bs) = (CHR 0x22 \<notin> set bs)"
| "lexical (TInteger n) = True"
| "lexical TNull = False"
| "lexical (TList first rest) = False"
| "lexical (TTable entries) = False"
| "lexical (TBytes bs) = False"
| "lexical (TPointer n) = False"

lemma take_Suc_drop:
  "p < length xs \<Longrightarrow> take (Suc k) (drop p xs) = xs ! p # take k (drop (Suc p) xs)"
  by (simp add: Cons_nth_drop_Suc[symmetric])

lemma consume_symbol_bytes_scanned:
  "consume_symbol_bytes lexer len = (lexer', len') \<Longrightarrow>
   list_all (\<lambda>b. \<not> is_separator b) (take (len' - len) (drop (position lexer) (input lexer)))"
proof (induction lexer len rule: consume_symbol_bytes.induct)
  case (1 lexer len)
  show ?case
  proof (cases "lone_lexer_peek lexer")
    case None
    with "1.prems" show ?thesis by (simp add: consume_symbol_bytes.simps[of lexer])
  next
    case (Some c)
    then have c: "c = position lexer" "position lexer < length (input lexer)"
      by (auto simp: lone_lexer_peek_def lone_lexer_peek_k_def split: if_splits)
    show ?thesis
    proof (cases "input lexer ! c \<noteq> CHR '')'' \<and>
                  \<not> lone_lexer_match_byte (input lexer ! c) CHR '' ''")
      case True
      with Some "1.prems"
      have r: "consume_symbol_bytes (lone_lexer_consume lexer) (len + 1) = (lexer', len')"
        by (simp add: consume_symbol_bytes.simps[of lexer])
      from consume_symbol_bytes_position[OF r] have "len + 1 \<le> len'" by simp
      then obtain k where k: "len' - len = Suc k" "len' - (len + 1) = k"
        by (cases "len' - len") auto
      from "1.IH"[OF Some True r] k(2)
      have "list_all (\<lambda>b. \<not> is_separator b) (take k (drop (Suc (position lexer)) (input lexer)))"
        by (simp add: lone_lexer_consume_def lone_lexer_consume_k_def)
      moreover have "\<not> is_separator (input lexer ! position lexer)"
        using True c(1) by (simp add: is_separator_def)
      ultimately show ?thesis
        by (simp add: k(1) take_Suc_drop[OF c(2)])
    next
      case False
      with Some "1.prems" show ?thesis by (auto simp: consume_symbol_bytes.simps[of lexer])
    qed
  qed
qed

lemma consume_text_bytes_scanned:
  "consume_text_bytes lexer len = (lexer', len', current) \<Longrightarrow>
   len \<le> len' \<and> CHR 0x22 \<notin> set (take (len' - len) (drop (position lexer) (input lexer)))"
proof (induction lexer len rule: consume_text_bytes.induct)
  case (1 lexer len)
  show ?case
  proof (cases "lone_lexer_peek lexer")
    case None
    with "1.prems" show ?thesis by (simp add: consume_text_bytes.simps[of lexer])
  next
    case (Some c)
    then have c: "c = position lexer" "position lexer < length (input lexer)"
      by (auto simp: lone_lexer_peek_def lone_lexer_peek_k_def split: if_splits)
    show ?thesis
    proof (cases "input lexer ! c \<noteq> CHR 0x22")
      case True
      with Some "1.prems"
      have r: "consume_text_bytes (lone_lexer_consume lexer) (len + 1) = (lexer', len', current)"
        by (simp add: consume_text_bytes.simps[of lexer])
      from "1.IH"[OF Some True r]
      have le: "len + 1 \<le> len'"
        and ih: "CHR 0x22 \<notin> set (take (len' - (len + 1)) (drop (Suc (position lexer)) (input lexer)))"
        by (simp_all add: lone_lexer_consume_def lone_lexer_consume_k_def)
      from le obtain k where k: "len' - len = Suc k" "len' - (len + 1) = k"
        by (cases "len' - len") auto
      from ih k(2) True c(1) le show ?thesis
        by (simp add: k(1) take_Suc_drop[OF c(2)])
    next
      case False
      with Some "1.prems" show ?thesis by (auto simp: consume_text_bytes.simps[of lexer])
    qed
  qed
qed

lemma lone_integer_parse_integer:
  "lone_integer_parse ds = Inr token \<Longrightarrow> \<exists>n. token = TInteger n"
  by (auto simp: lone_integer_parse_def Let_def split: list.splits)

lemma lone_lexer_consume_number_lexical:
  assumes "lone_lexer_consume_number lexer = Inr (lexer', Some token)"
  shows "lexical token"
proof -
  from assms obtain start where start: "lone_lexer_peek lexer = Some start"
    by (cases "lone_lexer_peek lexer") (simp_all add: lone_lexer_consume_number_def)
  define lexer1 where "lexer1 =
    (if input lexer ! start = CHR ''+'' \<or> input lexer ! start = CHR ''-''
     then lone_lexer_consume lexer else lexer)"
  define len1 :: nat where "len1 =
    (if input lexer ! start = CHR ''+'' \<or> input lexer ! start = CHR ''-'' then 1 else 0)"
  have pair: "(if input lexer ! start = CHR ''+'' \<or> input lexer ! start = CHR ''-''
               then (lone_lexer_consume lexer, 1) else (lexer, 0)) = (lexer1, len1)"
    by (simp add: lexer1_def len1_def)
  obtain lexer2 len2 current2 where
    d: "consume_digits (lone_lexer_consume lexer1) (len1 + 1) = (lexer2, len2, current2)"
    by (cases "consume_digits (lone_lexer_consume lexer1) (len1 + 1)") auto
  from assms have "lone_integer_parse (take len2 (drop start (input lexer))) = Inr token"
    unfolding lone_lexer_consume_number_def start option.case pair Let_def prod.case d
    by (simp split: option.splits if_splits sum.splits)
  from lone_integer_parse_integer[OF this] show ?thesis by auto
qed

lemma lone_lexer_consume_text_lexical:
  assumes "lone_lexer_consume_text lexer = Inr (lexer', Some token)"
  shows "lexical token"
proof -
  from assms obtain start0 where start0: "lone_lexer_peek lexer = Some start0"
    by (cases "lone_lexer_peek lexer") (simp_all add: lone_lexer_consume_text_def)
  then have s0: "start0 = position lexer"
    by (auto simp: lone_lexer_peek_def lone_lexer_peek_k_def split: if_splits)
  obtain lexer2 len current where
    r: "consume_text_bytes (lone_lexer_consume lexer) 0 = (lexer2, len, current)"
    by (cases "consume_text_bytes (lone_lexer_consume lexer) 0") auto
  from assms have "token = TText (take len (drop (start0 + 1) (input lexer)))"
    unfolding lone_lexer_consume_text_def start0 option.case Let_def r prod.case
    by (simp split: option.splits if_splits)
  moreover from consume_text_bytes_scanned[OF r]
  have "CHR 0x22 \<notin> set (take len (drop (start0 + 1) (input lexer)))"
    by (simp add: s0 lone_lexer_consume_def lone_lexer_consume_k_def)
  ultimately show ?thesis by simp
qed

lemma lone_lexer_consume_parenthesis_lexical:
  assumes "lone_lexer_consume_parenthesis lexer = Inr (lexer', Some token)"
  shows "lexical token"
proof -
  from assms obtain p where p: "lone_lexer_peek lexer = Some p"
    by (cases "lone_lexer_peek lexer") (simp_all add: lone_lexer_consume_parenthesis_def)
  then have "p < length (input lexer)"
    by (auto simp: lone_lexer_peek_def lone_lexer_peek_k_def split: if_splits)
  then have "take 1 (drop p (input lexer)) = [input lexer ! p]"
    using take_Suc_drop[of p "input lexer" 0] by simp
  with assms p show ?thesis
    by (auto simp: lone_lexer_consume_parenthesis_def split: if_splits)
qed

lemma lone_lexer_consume_symbol_lexical:
  assumes "lone_lexer_consume_symbol lexer = Inr (lexer', Some token)"
    and "lone_lexer_peek lexer = Some c"
    and "\<not> is_separator (input lexer ! c)"
    and "\<not> is_digit (input lexer ! c)"
    and "input lexer ! c \<noteq> CHR 0x22" and "input lexer ! c \<noteq> CHR ''(''"
    and "input lexer ! c = CHR ''+'' \<or> input lexer ! c = CHR ''-'' \<Longrightarrow>
         Suc c < length (input lexer) \<Longrightarrow> \<not> is_digit (input lexer ! Suc c)"
  shows "lexical token"
proof -
  from assms(2) have c: "c = position lexer" "c < length (input lexer)"
    by (auto simp: lone_lexer_peek_def lone_lexer_peek_k_def split: if_splits)
  obtain len where r: "consume_symbol_bytes lexer 0 = (lexer', len)"
    and token: "token = TSymbol (take len (drop c (input lexer)))"
    using assms(1,2) by (auto simp: lone_lexer_consume_symbol_def split: prod.splits)
  from consume_symbol_bytes_scanned[OF r]
  have all: "list_all (\<lambda>b. \<not> is_separator b) (take len (drop c (input lexer)))"
    by (simp add: c(1))
  from r assms(2,3) obtain len0 where
    "consume_symbol_bytes (lone_lexer_consume lexer) 1 = (lexer', len0)" "len0 = len"
    by (simp add: consume_symbol_bytes.simps[of lexer] is_separator_def)
  with consume_symbol_bytes_position[of "lone_lexer_consume lexer" 1 lexer' len]
  have "1 \<le> len" by simp
  then obtain k where len: "len = Suc k" by (cases len) auto
  have bs: "take len (drop c (input lexer)) = input lexer ! c # take k (drop (Suc c) (input lexer))"
    by (simp add: len take_Suc_drop[OF c(2)])
  have second: "case take k (drop (Suc c) (input lexer)) of [] \<Rightarrow> True | b # _ \<Rightarrow> \<not> is_digit b"
    if sign: "input lexer ! c = CHR ''+'' \<or> input lexer ! c = CHR ''-''"
  proof (cases "take k (drop (Suc c) (input lexer))")
    case Nil
    show ?thesis unfolding Nil by simp
  next
    case (Cons b bs')
    then have l: "Suc c < length (input lexer)" by (cases "Suc c < length (input lexer)") auto
    from l Cons have "b = input lexer ! Suc c"
      by (cases k) (auto simp: take_Suc_drop)
    with assms(7)[OF sign l] have "\<not> is_digit b" by simp
    then show ?thesis unfolding Cons by simp
  qed
  have "symbol_bytes (take len (drop c (input lexer)))"
    unfolding symbol_bytes_def using all assms(4-6) second by (auto simp: bs)
  with token show ?thesis by simp
qed

lemma lex_token_lexical:
  assumes "lex_token lexer (input lexer ! c) = Inr (lexer', Some token)"
    and "lone_lexer_peek lexer = Some c"
    and "\<not> lone_lexer_match_byte (input lexer ! c) CHR '' ''"
  shows "lexical token"
proof -
  let ?b = "input lexer ! c"
  from assms(2) have c: "c = position lexer"
    by (auto simp: lone_lexer_peek_def lone_lexer_peek_k_def split: if_splits)
  consider (number) "lone_lexer_consume_number lexer = Inr (lexer', Some token)"
    | (quoted) "lone_lexer_consume_text lexer = Inr (lexer', Some token)"
    | (parenthesis) "lone_lexer_consume_parenthesis lexer = Inr (lexer', Some token)"
    | (symbol) "lone_lexer_consume_symbol lexer = Inr (lexer', Some token)"
        "?b \<noteq> CHR '')''" "\<not> is_digit ?b" "?b \<noteq> CHR 0x22" "?b \<noteq> CHR ''(''"
        "?b = CHR ''+'' \<or> ?b = CHR ''-'' \<longrightarrow>
           (Suc c < length (input lexer) \<longrightarrow> \<not> is_digit (input lexer ! Suc c))"
    using assms(1)
    by (auto simp: lex_token_def is_digit_def lone_lexer_match_byte_def lone_lexer_peek_k_def c
             split: if_splits option.splits)
  then show ?thesis
  proof cases
    case number
    then show ?thesis by (rule lone_lexer_consume_number_lexical)
  next
    case quoted
    then show ?thesis by (rule lone_lexer_consume_text_lexical)
  next
    case parenthesis
    then show ?thesis by (rule lone_lexer_consume_parenthesis_lexical)
  next
    case symbol
    from symbol(2) assms(3) have "\<not> is_separator ?b" by (simp add: is_separator_def)
    with symbol assms(2) show ?thesis
      by (intro lone_lexer_consume_symbol_lexical[of lexer lexer' token c]) auto
  qed
qed

lemma lex_loop_lexical:
  "lex_loop lexer toks = Inr tokens \<Longrightarrow> list_all lexical toks \<Longrightarrow> list_all lexical tokens"
proof (induction lexer toks rule: lex_loop.induct)
  case (1 lexer toks)
  show ?case
  proof (cases "lone_lexer_peek lexer")
    case None
    with "1.prems" show ?thesis by (simp add: lex_loop.simps[of lexer])
  next
    case (Some c)
    show ?thesis
    proof (cases "lone_lexer_match_byte (input lexer ! c) CHR '' ''")
      case True
      with Some "1.prems"(1) have "lex_loop (lone_lexer_consume lexer) toks = Inr tokens"
        by (simp add: lex_loop.simps[of lexer])
      from "1.IH"(1)[OF Some True this "1.prems"(2)] show ?thesis .
    next
      case False
      from Some False "1.prems"(1) obtain lexer1 token where
        t: "lex_token lexer (input lexer ! c) = Inr (lexer1, Some token)"
        and l: "lex_loop lexer1 (toks @ [token]) = Inr tokens"
        by (auto simp: lex_loop.simps[of lexer] split: sum.splits option.splits)
      from lex_token_lexical[OF t Some False] "1.prems"(2)
      have "list_all lexical (toks @ [token])" by simp
      from "1.IH"(2)[OF Some False t refl refl l this] show ?thesis .
    qed
  qed
qed

text \<open>The values that \<^verbatim>\<open>lone_parse_tokens\<close> makes of such tokens.\<close>

lemma plain_rest_list_of: "plain_rest (list_of xs) = (\<forall>x \<in> set xs. plain x)"
proof (induction xs)
  case Nil
  show ?case by (simp add: nil_def)
next
  case (Cons x xs)
  have "list_of xs \<noteq> TNull" by (rule list_of_not_null)
  with Cons show ?case by simp
qed

lemma readable_rest_list_of: "readable_rest (list_of xs) = (\<forall>x \<in> set xs. readable x)"
proof (induction xs)
  case Nil
  show ?case by (simp add: nil_def)
next
  case (Cons x xs)
  have "list_of xs \<noteq> TNull" by (rule list_of_not_null)
  with Cons show ?case by simp
qed

lemma plain_list_of_readable:
  assumes "\<forall>x \<in> set xs. plain x \<longrightarrow> readable x" and "plain (list_of xs)"
  shows "readable (list_of xs)"
proof (cases xs)
  case Nil
  with assms(2) show ?thesis by (simp add: nil_def)
next
  case (Cons x xs')
  with assms show ?thesis
    by (simp add: plain_rest_list_of readable_rest_list_of)
qed

lemma atom_readable:
  assumes "lexical token" and "kind_of_token token = Atom" and "plain token"
  shows "readable token"
proof (cases token)
  case (TSymbol bs)
  with assms show ?thesis by (cases bs) (auto split: if_splits)
qed (use assms in simp_all)

lemma lone_parse_tokens_readable:
  "lone_parse_tokens tokens = Inr (v, remainder) \<Longrightarrow> list_all lexical tokens \<Longrightarrow>
     (plain v \<longrightarrow> readable v) \<and> list_all lexical remainder"
  "lone_parse_list tokens acc = Inr (v, remainder) \<Longrightarrow> list_all lexical tokens \<Longrightarrow>
     \<forall>a \<in> set acc. plain a \<longrightarrow> readable a \<Longrightarrow>
     (v = TNull \<or> (\<exists>xs. v = list_of xs \<and> (\<forall>x \<in> set xs. plain x \<longrightarrow> readable x))) \<and>
     list_all lexical remainder"
proof (induction tokens and tokens acc arbitrary: v remainder and v remainder
       rule: lone_parse_tokens_lone_parse_list.induct)
  case 1
  then show ?case by (auto simp: nil_def)
next
  case (2 token rest)
  show ?case
  proof (cases "kind_of_token token = Opening")
    case True
    with 2(2) have p: "lone_parse_list rest [] = Inr (v, remainder)" by simp
    from 2(3) have "list_all lexical rest" by simp
    from 2(1)[OF True p this] have
      v: "v = TNull \<or> (\<exists>xs. v = list_of xs \<and> (\<forall>x \<in> set xs. plain x \<longrightarrow> readable x))"
      and r: "list_all lexical remainder" by simp_all
    from v have "plain v \<longrightarrow> readable v"
      using plain_list_of_readable by auto
    with r show ?thesis by simp
  next
    case False
    show ?thesis
    proof (cases "kind_of_token token = Atom")
      case True
      with False 2(2) have "v = token" "remainder = rest" by simp_all
      with 2(3) atom_readable[of token] True show ?thesis by simp
    next
      case notatom: False
      with False 2(2) show ?thesis by (auto split: if_splits token_kind.splits)
    qed
  qed
next
  case (3 acc)
  then show ?case by simp
next
  case (4 current rest acc)
  show ?case
  proof (cases "closes_list current = Inr False")
    case False
    with 4(3) have "(v = list_of acc \<and> remainder = rest) \<and> closes_list current = Inr True"
      by (auto split: if_splits sum.splits)
    with 4(4,5) show ?thesis by auto
  next
    case True
    with 4(3) obtain v1 tokens1 where
      p: "lone_parse_tokens (current # rest) = Inr (v1, tokens1)" and
      l: "lone_parse_list tokens1 (acc @ [v1]) = Inr (v, remainder)"
      by (auto split: sum.splits)
    have c1: "closes_list current \<noteq> Inr True" using True by simp
    have c2: "\<not> closes_list current \<noteq> Inr False" using True by simp
    from 4(1)[OF c1 c2 p 4(4)] have v1: "plain v1 \<longrightarrow> readable v1"
      and t1: "list_all lexical tokens1" by simp_all
    from v1 4(5) have "\<forall>a \<in> set (acc @ [v1]). plain a \<longrightarrow> readable a" by auto
    from 4(2)[OF c1 c2 p refl l t1 this] show ?thesis .
  qed
qed

lemma lone_parse_readable:
  assumes "lone_parse bytes [] = Inr (v, remainder)" and "plain v"
  shows "readable v"
proof -
  from assms(1) obtain tokens where
    l: "lone_lex \<lparr>input = bytes, position = 0\<rparr> = Inr tokens"
    and p: "lone_parse_tokens tokens = Inr (v, remainder)"
    by (auto simp: lone_parse_def Let_def split: sum.splits)
  from l have "list_all lexical tokens"
    using lex_loop_lexical[of "\<lparr>input = bytes, position = 0\<rparr>" "[]" tokens]
    by (simp add: lone_lex_def)
  from lone_parse_tokens_readable(1)[OF p this] assms(2) show ?thesis by simp
qed

text \<open>
  On bytes and trees: a value that \<^verbatim>\<open>lone_parse\<close> returns and that is nil, or plain and
  not a text, is printed as bytes from which \<^verbatim>\<open>lone_parse\<close> returns it again.
\<close>

lemma lone_parse_print_parse:
  assumes "lone_parse bytes [] = Inr (v, remainder)"
    and "v = nil \<or> (plain v \<and> \<not> is_text v)"
  shows "\<exists>out. lone_print lone v [] = Inr (lone, out) \<and> lone_parse out [] = Inr (v, [])"
proof (cases "v = nil")
  case True
  have "lone_parse [] [] = Inr (nil, [])"
    using lex_loop_end[of "[]" "[]"] by (simp add: lone_parse_def lone_lex_def)
  with True show ?thesis by (simp add: nil_def)
next
  case False
  with assms(2) have p: "plain v" and t: "\<not> is_text v" by simp_all
  from lone_parse_readable[OF assms(1) p] have r: "readable v" .
  from lone_print_render[OF r, of lone "[]"] lone_parse_render[OF r t]
  show ?thesis by simp
qed

text \<open>
  Claim C5: for an input of integers, symbols, texts and lists, parsing the input,
  printing the value and parsing the printed bytes gives the value again.

  On the code this fails on three inputs of this kind, each parsed here in an arena of
  65536 bytes. The empty list inside \<open>(a () b)\<close> is printed as nothing, and \<open>(a  b)\<close> is
  read as a list of two elements. The text \<open>"hi"\<close> followed by a space is printed
  without the space, and the lexer then reads the byte after the closing quote, one
  past the end of the input. The most negative integer is printed as \<open>-(\<close>, which is
  read as a symbol.
\<close>

theorem print_parse_differs:
  "(\<exists>lone1 lone2.
      lone_parse_arena (lone_lisp_initialize 65536) ''(a () b)'' [] =
        Inr (lone1, list_of [TSymbol ''a'', nil, TSymbol ''b''], []) \<and>
      lone_print lone1 (list_of [TSymbol ''a'', nil, TSymbol ''b'']) [] =
        Inr (lone1, ''(a  b)'') \<and>
      lone_parse_arena lone1 ''(a  b)'' [] =
        Inr (lone2, list_of [TSymbol ''a'', TSymbol ''b''], [])) \<and>
   (\<exists>lone1.
      lone_parse_arena (lone_lisp_initialize 65536) (CHR 0x22 # ''hi'' @ [CHR 0x22, CHR '' '']) [] =
        Inr (lone1, TText ''hi'', []) \<and>
      lone_print lone1 (TText ''hi'') [] = Inr (lone1, CHR 0x22 # ''hi'' @ [CHR 0x22]) \<and>
      lone_parse_arena lone1 (CHR 0x22 # ''hi'' @ [CHR 0x22]) [] = Inl (OutOfBounds 4)) \<and>
   (\<exists>lone1 lone2.
      lone_parse_arena (lone_lisp_initialize 65536) ''-9223372036854775808'' [] =
        Inr (lone1, TInteger (- 9223372036854775808), []) \<and>
      lone_print lone1 (TInteger (- 9223372036854775808)) [] = Inr (lone1, ''-('') \<and>
      lone_parse_arena lone1 ''-('' [] = Inr (lone2, TSymbol ''-('', []))"
  by (simp add: arena_eval lex_eval alloc_eval linux_write_def lone_print_integer_def
                print_integer_loop.simps char_of_def)

text \<open>
  Claim C5 as the source has it. The value \<open>v\<close> that \<^verbatim>\<open>lone_parse\<close> returns for an input is
  nil, or it is an integer other than the most negative one, a symbol, or a list that
  is not empty and whose elements are, at every depth, integers other than the most
  negative one, symbols, texts and such lists. Then \<^verbatim>\<open>lone_print\<close> writes bytes, allocating
  nothing, and on these bytes \<^verbatim>\<open>lone_parse\<close> returns \<open>v\<close> again, with no token left, unless
  the process exits in \<^verbatim>\<open>lone_allocate\<close> because the arena has no block left for a token
  or a cell.
\<close>

theorem print_parse_again:
  assumes "lone_parse_arena lone bytes [] = Inr (lone1, v, remainder)"
    and "v = nil \<or> (plain v \<and> \<not> is_text v)"
  shows "\<exists>out. lone_print lone1 v [] = Inr (lone1, out) \<and>
           (lone_parse_arena lone1 out [] = Inl OutOfMemory \<or>
            (\<exists>lone2. lone_parse_arena lone1 out [] = Inr (lone2, v, [])))"
proof -
  from lone_parse_arena_erases[of lone bytes "[]"] assms(1)
  have "lone_parse bytes [] = Inr (v, remainder)"
    by (auto simp: erases_def split: sum.splits)
  from lone_parse_print_parse[OF this assms(2), of lone1]
  obtain out where out: "lone_print lone1 v [] = Inr (lone1, out)"
    and again: "lone_parse out [] = Inr (v, [])" by blast
  from lone_parse_arena_erases[of lone1 out "[]"] again
  have "lone_parse_arena lone1 out [] = Inl OutOfMemory \<or>
        (\<exists>lone2. lone_parse_arena lone1 out [] = Inr (lone2, v, []))"
    by (auto simp: erases_def)
  with out show ?thesis by blast
qed

theorem print_parse_again_witness:
  "\<exists>lone1 lone2 out.
     lone_parse_arena (lone_lisp_initialize 65536)
       (''(add 1 (mul -2 '' @ CHR 0x22 # ''x y'' @ CHR 0x22 # '') z)'') [] =
       Inr (lone1,
            list_of [TSymbol ''add'', TInteger 1,
                     list_of [TSymbol ''mul'', TInteger (- 2), TText ''x y''], TSymbol ''z''],
            []) \<and>
     lone_print lone1
       (list_of [TSymbol ''add'', TInteger 1,
                 list_of [TSymbol ''mul'', TInteger (- 2), TText ''x y''], TSymbol ''z'']) [] =
       Inr (lone1, out) \<and>
     out = ''(add 1 (mul -2 '' @ CHR 0x22 # ''x y'' @ CHR 0x22 # '') z)'' \<and>
     lone_parse_arena lone1 out [] =
       Inr (lone2,
            list_of [TSymbol ''add'', TInteger 1,
                     list_of [TSymbol ''mul'', TInteger (- 2), TText ''x y''], TSymbol ''z''],
            [])"
proof -
  define bytes where "bytes = ''(add 1 (mul -2 '' @ CHR 0x22 # ''x y'' @ CHR 0x22 # '') z)''"
  define v where
    "v = list_of [TSymbol ''add'', TInteger 1,
                  list_of [TSymbol ''mul'', TInteger (- 2), TText ''x y''], TSymbol ''z'']"
  obtain lone1 where
    parsed: "lone_parse_arena (lone_lisp_initialize 65536) bytes [] = Inr (lone1, v, [])"
    by (simp add: bytes_def v_def arena_eval lex_eval alloc_eval)
  have v: "v = nil \<or> (plain v \<and> \<not> is_text v)"
    by (simp add: v_def nil_def)
  have printed: "lone_print lone1 v [] = Inr (lone1, bytes)"
    by (simp add: bytes_def v_def nil_def linux_write_def lone_print_integer_def
                  print_integer_loop.simps char_of_def signed_divide_int_def
                  signed_modulo_int_def)
  have room: "lone_parse_arena lone1 bytes [] \<noteq> Inl OutOfMemory"
    using parsed by (auto simp: bytes_def v_def arena_eval lex_eval alloc_eval)
  from print_parse_again[OF parsed v] printed room
  obtain lone2 where "lone_parse_arena lone1 bytes [] = Inr (lone2, v, [])" by auto
  with parsed printed show ?thesis
    unfolding bytes_def v_def by blast
qed

end
